(* ===== verification/Prelude.thy ===== *)
theory Prelude
  imports Main "HOL-Library.Char_ord" "HOL-Library.List_Lexorder" "HOL-Library.AList"
    "HOL-Library.Sublist" "HOL-Library.Multiset"
begin

text \<open>
  Shared vocabulary of the development.

  Go values and their HOL types: a Go \<^verbatim>\<open>string\<close> is an immutable byte sequence, and an HOL
  \<open>char\<close> is a byte, so \<open>string\<close> (a \<open>char list\<close>) is the same type; Go compares strings
  bytewise, which is the order of \<open>Char_ord\<close> and \<open>List_Lexorder\<close>.
  Pointers are natural numbers that address total functions from references to objects (a
  dangling pointer does not exist in Go); \<open>nil\<close> is \<open>None\<close>. A Go map is an association
  list with distinct keys, written by \<open>AList.update\<close>; every reader that iterates over a map
  sorts what it collects, and the lemmas here show why the iteration order does not matter.
\<close>

named_theorems txn_frame \<open>an operation leaves a field of the state unchanged\<close>
named_theorems txn_cases \<open>the branches of an operation\<close>

type_synonym bytes = string
type_synonym time = int

subsection \<open>Association lists as Go maps\<close>

definition map_put :: "'k \<Rightarrow> 'v \<Rightarrow> ('k \<times> 'v) list \<Rightarrow> ('k \<times> 'v) list" where
  "map_put k v m = AList.update k v m"

definition map_ok :: "('k \<times> 'v) list \<Rightarrow> bool" where
  "map_ok m \<longleftrightarrow> distinct (map fst m)"

lemma map_of_put [simp]: "map_of (map_put k v m) = (map_of m)(k \<mapsto> v)"
  by (simp add: map_put_def update_conv')

lemma map_ok_Nil [simp]: "map_ok []"
  by (simp add: map_ok_def)

lemma map_ok_put [simp]: "map_ok m \<Longrightarrow> map_ok (map_put k v m)"
  by (simp add: map_ok_def map_put_def distinct_update)

lemma set_fst_put [simp]: "fst ` set (map_put k v m) = insert k (fst ` set m)"
proof -
  have "dom (map_of (map_put k v m)) = insert k (dom (map_of m))" by auto
  then show ?thesis by (simp only: dom_map_of_conv_image_fst)
qed

lemma map_ok_in_set: "map_ok m \<Longrightarrow> (k, v) \<in> set m \<longleftrightarrow> map_of m k = Some v"
  by (auto simp: map_ok_def)

lemma length_put:
  "length (map_put k v m) = (if map_of m k = None then Suc (length m) else length m)"
  by (induction m) (auto simp: map_put_def split: if_splits)

subsection \<open>What a sorted collection of map keys is\<close>

definition keys_where :: "('v \<Rightarrow> bool) \<Rightarrow> ('k \<times> 'v) list \<Rightarrow> 'k list" where
  "keys_where P m = map fst (filter (\<lambda>(k, v). P v) m)"

lemma keys_where_Nil [simp]: "keys_where P [] = []"
  by (simp add: keys_where_def)

lemma keys_where_Cons [simp]:
  "keys_where P (kv # m) = (if P (snd kv) then fst kv # keys_where P m else keys_where P m)"
  by (cases kv) (simp add: keys_where_def)

lemma distinct_keys_where: "map_ok m \<Longrightarrow> distinct (keys_where P m)"
  unfolding keys_where_def map_ok_def by (rule distinct_map_filter)

lemma set_keys_where:
  "map_ok m \<Longrightarrow> set (keys_where P m) = {k. \<exists>v. map_of m k = Some v \<and> P v}"
  by (force simp: keys_where_def map_ok_in_set[symmetric])

lemma keys_where_none: "keys_where P m = [] \<longleftrightarrow> (\<forall>kv \<in> set m. \<not> P (snd kv))"
  by (induction m) auto

lemma keys_where_put_none: "keys_where P m = [] \<Longrightarrow> \<not> P v \<Longrightarrow> keys_where P (map_put k v m) = []"
  by (induction m) (auto simp: map_put_def split: if_splits)

lemma keys_where_lookup: "keys_where P m = [] \<Longrightarrow> map_of m k = Some v \<Longrightarrow> \<not> P v"
  by (force simp: keys_where_none dest: map_of_SomeD)

lemma sorted_keys_unique:
  fixes m m' :: "('k::linorder \<times> 'v) list"
  assumes "map_ok m" "map_ok m'" "map_of m = map_of m'"
  shows "sort (keys_where P m) = sort (keys_where P m')"
  using assms by (intro sorted_distinct_set_unique) (simp_all add: distinct_keys_where set_keys_where)

lemma sorted_list_eqI:
  "sorted xs \<Longrightarrow> distinct xs \<Longrightarrow> set xs = S \<Longrightarrow> xs = sorted_list_of_set S"
  using sorted_list_of_set.idem_if_sorted_distinct[of xs] by simp

subsection \<open>Strings\<close>

text \<open>Go's slice expressions \<^verbatim>\<open>q[:n]\<close>, \<^verbatim>\<open>q[n:]\<close> and \<^verbatim>\<open>q[a:b]\<close> within bounds.\<close>

definition slice :: "nat \<Rightarrow> nat \<Rightarrow> 'a list \<Rightarrow> 'a list" where
  "slice a b q = take (b - a) (drop a q)"

lemma sublist_take: "sublist (take n r) r"
  by (rule prefix_imp_sublist[OF take_is_prefix])

lemma sublist_trans: "sublist a b \<Longrightarrow> sublist b c \<Longrightarrow> sublist a c"
  unfolding sublist_def by (metis append.assoc)

text \<open>\<^verbatim>\<open>strings.HasPrefix\<close>.\<close>

fun has_prefix :: "string \<Rightarrow> string \<Rightarrow> bool" where
  "has_prefix s [] = True"
| "has_prefix [] (p # ps) = False"
| "has_prefix (c # s) (p # ps) = (c = p \<and> has_prefix s ps)"

lemma has_prefix_iff: "has_prefix s p \<longleftrightarrow> prefix p s"
  by (induction s p rule: has_prefix.induct) (auto simp: prefix_def)

lemma has_prefixD: "has_prefix s p \<Longrightarrow> \<exists>t. s = p @ t"
  by (simp add: has_prefix_iff prefix_def)

text \<open>\<^verbatim>\<open>strings.HasSuffix\<close>.\<close>

definition has_suffix :: "string \<Rightarrow> string \<Rightarrow> bool" where
  "has_suffix s p = has_prefix (rev s) (rev p)"

lemma has_suffix_iff: "has_suffix s p \<longleftrightarrow> suffix p s"
  by (simp add: has_suffix_def has_prefix_iff suffix_to_prefix)

text \<open>\<^verbatim>\<open>strings.IndexByte\<close>: the first position of a byte, \<open>None\<close> for \<open>-1\<close>.\<close>

fun index_byte :: "string \<Rightarrow> char \<Rightarrow> nat option" where
  "index_byte [] c = None"
| "index_byte (d # s) c = (if d = c then Some 0 else map_option Suc (index_byte s c))"

lemma index_byte_lt: "index_byte s c = Some i \<Longrightarrow> i < length s"
  by (induction s arbitrary: i) (auto split: if_splits)

lemma index_byte_append: "c \<notin> set s \<Longrightarrow> index_byte (s @ c # t) c = Some (length s)"
  by (induction s) auto

text \<open>\<^verbatim>\<open>strings.Index\<close>: the first position of a substring, \<open>None\<close> for \<open>-1\<close>.\<close>

fun index_sub :: "string \<Rightarrow> string \<Rightarrow> nat option" where
  "index_sub s p =
     (if has_prefix s p then Some 0
      else case s of [] \<Rightarrow> None | _ # s' \<Rightarrow> map_option Suc (index_sub s' p))"

declare index_sub.simps [simp del]

lemma index_sub_Nil: "index_sub [] p = (if p = [] then Some 0 else None)"
  by (cases p) (simp_all add: index_sub.simps)

lemma index_sub_Cons:
  "index_sub (c # s) p = (if has_prefix (c # s) p then Some 0 else map_option Suc (index_sub s p))"
  by (simp add: index_sub.simps)

lemma index_sub_bound: "index_sub s p = Some i \<Longrightarrow> i + length p \<le> length s"
proof (induction s arbitrary: i)
  case Nil
  then show ?case by (simp add: index_sub_Nil split: if_splits)
next
  case (Cons c s)
  show ?case
  proof (cases "has_prefix (c # s) p")
    case True
    with Cons.prems have "i = 0" by (simp add: index_sub_Cons)
    moreover from True have "length p \<le> length (c # s)"
      unfolding has_prefix_iff by (rule prefix_length_le)
    ultimately show ?thesis by simp
  next
    case False
    with Cons.prems obtain j where "index_sub s p = Some j" "i = Suc j"
      by (auto simp: index_sub_Cons)
    with Cons.IH show ?thesis by simp
  qed
qed

text \<open>\<^verbatim>\<open>strconv.Itoa\<close> and the verb \<^verbatim>\<open>%d\<close>: decimal digits with a leading minus sign.\<close>

fun nat_digits :: "nat \<Rightarrow> string" where
  "nat_digits n =
     (if n < 10 then [char_of (48 + n)] else nat_digits (n div 10) @ [char_of (48 + n mod 10)])"

declare nat_digits.simps [simp del]

definition itoa :: "int \<Rightarrow> string" where
  "itoa i = (if i < 0 then CHR ''-'' # nat_digits (nat (- i)) else nat_digits (nat i))"

end
