(* ===== verification/Classify.thy ===== *)
theory Classify
  imports Prelude
begin

text \<open>
  The statement classifier (classify.go): \<^verbatim>\<open>StatementKind\<close>, \<^verbatim>\<open>DefaultClassifier\<close> and the
  table-name extraction \<^verbatim>\<open>writeTarget\<close> behind a cross-connection write. Every scanner is
  written over the remaining bytes of the query, in the source's order of tests. The lemmas
  show that the scanners terminate, that the first-byte dispatch computes what the
  \<^verbatim>\<open>strings.ToUpper\<close> reference of classify_internal_test.go computes, what a leading comment
  is, and that an extracted name is a bounded piece of the query.
\<close>

subsection \<open>Statement kinds\<close>

text \<open>\<^verbatim>\<open>StatementKind\<close> is an \<^verbatim>\<open>int\<close>: a user's classifier can return a value that is no constant.\<close>

datatype statement_kind =
  KindOther | KindBegin | KindCommit | KindRollback | KindWrite | KindUndefined int

fun kind_String :: "statement_kind \<Rightarrow> string" where
  "kind_String KindBegin = ''begin''"
| "kind_String KindCommit = ''commit''"
| "kind_String KindRollback = ''rollback''"
| "kind_String KindWrite = ''write''"
| "kind_String _ = ''other''"

subsection \<open>Bytes\<close>

definition isIdentChar :: "char \<Rightarrow> bool" where
  "isIdentChar c \<longleftrightarrow>
     (CHR ''a'' \<le> c \<and> c \<le> CHR ''z'') \<or> (CHR ''A'' \<le> c \<and> c \<le> CHR ''Z'')
     \<or> (CHR ''0'' \<le> c \<and> c \<le> CHR ''9'') \<or> c = CHR ''_''"

definition isSpace :: "char \<Rightarrow> bool" where
  "isSpace c \<longleftrightarrow> c = CHR '' '' \<or> c = CHR 0x09 \<or> c = CHR 0x0D \<or> c = CHR 0x0A"

text \<open>\<^verbatim>\<open>c -= 'a' - 'A'\<close> on a lower-case letter, and \<^verbatim>\<open>c | 0x20\<close>.\<close>

definition asciiUpper :: "char \<Rightarrow> char" where
  "asciiUpper c =
     (if CHR ''a'' \<le> c \<and> c \<le> CHR ''z'' then char_of (of_char c - 32 :: nat) else c)"

definition asciiLower :: "char \<Rightarrow> char" where
  "asciiLower c =
     (if CHR ''A'' \<le> c \<and> c \<le> CHR ''Z'' then char_of (of_char c + 32 :: nat) else c)"

fun lowerBit :: "char \<Rightarrow> char" where
  "lowerBit (Char b0 b1 b2 b3 b4 b5 b6 b7) = Char b0 b1 b2 b3 b4 True b6 b7"

text \<open>
  \<^verbatim>\<open>strings.ToUpper\<close> and \<^verbatim>\<open>strings.ToLower\<close> on the ASCII identifiers they are applied to.
\<close>

abbreviation to_upper :: "string \<Rightarrow> string" where
  "to_upper \<equiv> map asciiUpper"

abbreviation to_lower :: "string \<Rightarrow> string" where
  "to_lower \<equiv> map asciiLower"

subsection \<open>Scanners\<close>

lemma dropWhile_shorter: "dropWhile P q \<noteq> [] \<Longrightarrow> length (drop (Suc n) (dropWhile P q)) < length q"
proof -
  assume "dropWhile P q \<noteq> []"
  then have "length (drop (Suc n) (dropWhile P q)) < length (dropWhile P q)" by simp
  also have "\<dots> \<le> length q" by (rule length_dropWhile_le)
  finally show ?thesis .
qed

function stripLeading :: "string \<Rightarrow> string" where
  "stripLeading q0 =
     (let q = dropWhile isSpace q0 in
      if has_prefix q ''--'' then
        (case index_byte q (CHR 0x0A) of
           None \<Rightarrow> []
         | Some idx \<Rightarrow> stripLeading (drop (idx + 1) q))
      else if has_prefix q ''/*'' then
        (case index_sub q ''*/'' of
           None \<Rightarrow> []
         | Some idx \<Rightarrow> stripLeading (drop (idx + 2) q))
      else q)"
  by pat_completeness auto

termination
proof (relation "measure length")
  show "wf (measure (length :: string \<Rightarrow> nat))" by simp
next
  fix q0 q :: string and idx :: nat
  assume q: "q = dropWhile isSpace q0" and "has_prefix q ''--''"
  then have "dropWhile isSpace q0 \<noteq> []" by (metis has_prefix.simps(2))
  from dropWhile_shorter[OF this, of idx] show "(drop (idx + 1) q, q0) \<in> measure length"
    unfolding q in_measure by (simp only: Suc_eq_plus1)
next
  fix q0 q :: string and idx :: nat
  assume q: "q = dropWhile isSpace q0" and "has_prefix q ''/*''"
  then have "dropWhile isSpace q0 \<noteq> []" by (metis has_prefix.simps(2))
  from dropWhile_shorter[OF this, of "Suc idx"] show "(drop (idx + 2) q, q0) \<in> measure length"
    unfolding q in_measure by (simp only: add_2_eq_Suc')
qed

declare stripLeading.simps [simp del]

fun identRunLen :: "string \<Rightarrow> nat" where
  "identRunLen [] = 0"
| "identRunLen (c # q) = (if isIdentChar c then Suc (identRunLen q) else 0)"

fun tokenIs_loop :: "string \<Rightarrow> string \<Rightarrow> bool" where
  "tokenIs_loop (c # tok) (k # kw) = (if asciiUpper c \<noteq> k then False else tokenIs_loop tok kw)"
| "tokenIs_loop _ _ = True"

definition tokenIs :: "string \<Rightarrow> string \<Rightarrow> bool" where
  "tokenIs tok kw = (if length tok \<noteq> length kw then False else tokenIs_loop tok kw)"

definition isWriteToken :: "string \<Rightarrow> bool" where
  "isWriteToken tok =
     (if length tok = 5 then tokenIs tok ''MERGE''
      else if length tok = 6 then
        tokenIs tok ''INSERT'' \<or> tokenIs tok ''UPDATE'' \<or> tokenIs tok ''DELETE''
      else if length tok = 7 then tokenIs tok ''REPLACE''
      else if length tok = 8 then tokenIs tok ''TRUNCATE''
      else False)"

text \<open>The loop of \<^verbatim>\<open>containsWriteToken\<close>, with its two indices; \<open>start\<close> is \<open>-1\<close> outside a token.\<close>

function containsWriteToken_loop :: "string \<Rightarrow> int \<Rightarrow> nat \<Rightarrow> bool" where
  "containsWriteToken_loop q start i =
     (if i \<le> length q then
        if i < length q \<and> isIdentChar (q ! i) then
          containsWriteToken_loop q (if start < 0 then int i else start) (Suc i)
        else if 0 \<le> start then
          if isWriteToken (slice (nat start) i q) then True
          else containsWriteToken_loop q (-1) (Suc i)
        else containsWriteToken_loop q start (Suc i)
      else False)"
  by pat_completeness auto
termination
  by (relation "measure (\<lambda>(q, start, i). Suc (length q) - i)") auto

declare containsWriteToken_loop.simps [simp del]

definition containsWriteToken :: "string \<Rightarrow> bool" where
  "containsWriteToken q = containsWriteToken_loop q (-1) 0"

definition rollbackKind :: "string \<Rightarrow> statement_kind" where
  "rollbackKind rest0 =
     (let rest = stripLeading rest0 in
      if tokenIs (take (identRunLen rest) rest) ''TO'' then KindOther else KindRollback)"

definition DefaultClassifier :: "string \<Rightarrow> statement_kind" where
  "DefaultClassifier query =
     (let q = stripLeading query; tok = take (identRunLen q) q in
      if tok = [] then KindOther
      else let b = lowerBit (hd tok) in
        if b = CHR ''b'' then (if tokenIs tok ''BEGIN'' then KindBegin else KindOther)
        else if b = CHR ''s'' then (if tokenIs tok ''START'' then KindBegin else KindOther)
        else if b = CHR ''c'' then
          (if tokenIs tok ''COMMIT'' then KindCommit
           else if tokenIs tok ''CREATE'' \<or> tokenIs tok ''CALL'' \<or> tokenIs tok ''COPY''
             \<or> tokenIs tok ''COMMENT'' then KindWrite
           else KindOther)
        else if b = CHR ''e'' then (if tokenIs tok ''END'' then KindCommit else KindOther)
        else if b = CHR ''r'' then
          (if tokenIs tok ''ROLLBACK'' then rollbackKind (drop (length tok) q)
           else if tokenIs tok ''REPLACE'' \<or> tokenIs tok ''REVOKE'' \<or> tokenIs tok ''REFRESH''
             then KindWrite
           else KindOther)
        else if b = CHR ''a'' then
          (if tokenIs tok ''ABORT'' then rollbackKind (drop (length tok) q)
           else if tokenIs tok ''ALTER'' then KindWrite
           else KindOther)
        else if b = CHR ''i'' then
          (if tokenIs tok ''INSERT'' \<or> tokenIs tok ''IMPORT'' then KindWrite else KindOther)
        else if b = CHR ''u'' then
          (if tokenIs tok ''UPDATE'' \<or> tokenIs tok ''UPSERT'' then KindWrite else KindOther)
        else if b = CHR ''d'' then
          (if tokenIs tok ''DELETE'' \<or> tokenIs tok ''DROP'' \<or> tokenIs tok ''DO'' then KindWrite
           else KindOther)
        else if b = CHR ''m'' then (if tokenIs tok ''MERGE'' then KindWrite else KindOther)
        else if b = CHR ''t'' then (if tokenIs tok ''TRUNCATE'' then KindWrite else KindOther)
        else if b = CHR ''g'' then (if tokenIs tok ''GRANT'' then KindWrite else KindOther)
        else if b = CHR ''w'' then
          (if tokenIs tok ''WITH'' \<and> containsWriteToken (drop (length tok) q) then KindWrite
           else KindOther)
        else KindOther)"

subsection \<open>The target of a write\<close>

definition firstToken :: "string \<Rightarrow> string" where
  "firstToken q0 = (let q = stripLeading q0 in to_upper (take (identRunLen q) q))"

definition skipKeyword :: "string \<Rightarrow> string \<Rightarrow> string \<times> bool" where
  "skipKeyword q0 kw =
     (let q = stripLeading q0; n = identRunLen q in
      if \<not> tokenIs (take n q) kw then (q, False) else (drop n q, True))"

fun nameRunLen :: "string \<Rightarrow> nat" where
  "nameRunLen [] = 0"
| "nameRunLen (c # q) = (if isIdentChar c \<or> c = CHR ''.'' then Suc (nameRunLen q) else 0)"

definition readName :: "string \<Rightarrow> string" where
  "readName q0 =
     (case stripLeading q0 of
        [] \<Rightarrow> []
      | c # q \<Rightarrow>
          if c = CHR 0x22 \<or> c = CHR 0x60 then
            (case index_byte q c of Some e \<Rightarrow> take e q | None \<Rightarrow> [])
          else to_lower (take (nameRunLen (c # q)) (c # q)))"

definition writeTarget :: "string \<Rightarrow> string" where
  "writeTarget query =
     (let q = stripLeading query; verb = firstToken q; q = drop (identRunLen q) q in
      if verb \<in> {''INSERT'', ''REPLACE'', ''MERGE'', ''UPSERT''} then
        (case skipKeyword q ''INTO'' of (rest, ok) \<Rightarrow> if \<not> ok then [] else readName rest)
      else if verb = ''DELETE'' then
        (case skipKeyword q ''FROM'' of (rest, ok) \<Rightarrow> if \<not> ok then [] else readName rest)
      else if verb \<in> {''UPDATE'', ''COPY''} then readName q
      else if verb = ''TRUNCATE'' then readName (fst (skipKeyword q ''TABLE''))
      else [])"

text \<open>driver.go: the name of a cross-connection write, with its generic fallback.\<close>

definition crossConnOpName :: "string \<Rightarrow> string" where
  "crossConnOpName query = (let name = writeTarget query in if name \<noteq> [] then name else ''write'')"

subsection \<open>Bytes, by their codes\<close>

lemma char_le_iff: "c \<le> d \<longleftrightarrow> (of_char c :: nat) \<le> of_char d"
  by (rule less_eq_char_def)

lemma char_eq_iff: "c = d \<longleftrightarrow> (of_char c :: nat) = of_char d"
  by simp

lemma isIdentChar_code:
  "isIdentChar c \<longleftrightarrow> (let n = of_char c :: nat in
     97 \<le> n \<and> n \<le> 122 \<or> 65 \<le> n \<and> n \<le> 90 \<or> 48 \<le> n \<and> n \<le> 57 \<or> n = 95)"
  unfolding isIdentChar_def char_le_iff char_eq_iff Let_def by simp

lemma asciiUpper_code:
  "of_char (asciiUpper c) = (let n = of_char c :: nat in if 97 \<le> n \<and> n \<le> 122 then n - 32 else n)"
  unfolding asciiUpper_def char_le_iff Let_def by auto

lemma asciiLower_code:
  "of_char (asciiLower c) = (let n = of_char c :: nat in if 65 \<le> n \<and> n \<le> 90 then n + 32 else n)"
  unfolding asciiLower_def char_le_iff Let_def by auto

lemmas byte_codes = isIdentChar_code asciiUpper_code asciiLower_code char_eq_iff Let_def

lemma asciiUpper_idem [simp]: "asciiUpper (asciiUpper c) = asciiUpper c"
  unfolding byte_codes by auto

lemma asciiLower_upper [simp]: "asciiLower (asciiUpper c) = asciiLower c"
  unfolding byte_codes by auto

lemma isIdentChar_upper [simp]: "isIdentChar (asciiUpper c) = isIdentChar c"
  unfolding byte_codes by auto

lemma isSpace_upper [simp]: "isSpace (asciiUpper c) = isSpace c"
  unfolding isSpace_def byte_codes by auto

lemma other_byte_upper: "\<not> isIdentChar d \<Longrightarrow> asciiUpper c = d \<longleftrightarrow> c = d"
  unfolding byte_codes by auto

lemma isIdentChar_space: "isIdentChar c \<Longrightarrow> \<not> isSpace c"
  unfolding isSpace_def byte_codes by auto

lemma not_ident [simp]:
  "\<not> isIdentChar (CHR ''-'')" "\<not> isIdentChar (CHR ''/'')" "\<not> isIdentChar (CHR ''*'')"
  "\<not> isIdentChar (CHR 0x0A)" "\<not> isIdentChar (CHR '' '')" "\<not> isIdentChar (CHR 0x22)"
  "\<not> isIdentChar (CHR 0x60)" "\<not> isIdentChar (CHR ''.'')"
  unfolding byte_codes by simp_all

text \<open>Evaluation on byte literals.\<close>

lemma asciiUpper_literal:
  "asciiUpper (Char b0 b1 b2 b3 b4 b5 b6 b7) =
     (if CHR ''a'' \<le> Char b0 b1 b2 b3 b4 b5 b6 b7 \<and> Char b0 b1 b2 b3 b4 b5 b6 b7 \<le> CHR ''z''
      then Char b0 b1 b2 b3 b4 False b6 b7 else Char b0 b1 b2 b3 b4 b5 b6 b7)"
proof (cases "CHR ''a'' \<le> Char b0 b1 b2 b3 b4 b5 b6 b7 \<and> Char b0 b1 b2 b3 b4 b5 b6 b7 \<le> CHR ''z''")
  case True
  then have b: "\<not> b7" "b6" "b5" by auto
  have "of_char (Char b0 b1 b2 b3 b4 b5 b6 b7) - (32::nat) = of_char (Char b0 b1 b2 b3 b4 False b6 b7)"
    using b by simp
  then show ?thesis
    using True by (simp only: asciiUpper_def if_True simp_thms char_of_char)
next
  case False
  then show ?thesis unfolding asciiUpper_def by (simp only: if_False simp_thms)
qed

lemma lowerBit_asciiUpper [simp]: "lowerBit (asciiUpper c) = lowerBit c"
  by (cases c) (simp add: asciiUpper_literal)

subsection \<open>Tokens\<close>

lemma tokenIs_loop_iff:
  "length tok = length kw \<Longrightarrow> tokenIs_loop tok kw \<longleftrightarrow> to_upper tok = kw"
  by (induction tok kw rule: list_induct2) auto

lemma tokenIs_iff: "tokenIs tok kw \<longleftrightarrow> to_upper tok = kw"
  by (auto simp: tokenIs_def tokenIs_loop_iff)

lemma identRunLen_eq: "identRunLen q = length (takeWhile isIdentChar q)"
  by (induction q) auto

lemma take_identRun [simp]: "take (identRunLen q) q = takeWhile isIdentChar q"
  by (simp add: identRunLen_eq takeWhile_eq_take[symmetric])

lemma drop_identRun [simp]: "drop (identRunLen q) q = dropWhile isIdentChar q"
  by (simp add: identRunLen_eq dropWhile_eq_drop[symmetric])

lemma take_nameRun: "take (nameRunLen q) q = takeWhile (\<lambda>c. isIdentChar c \<or> c = CHR ''.'') q"
  by (induction q) auto

definition cte_write_keywords :: "string set" where
  "cte_write_keywords =
     {''INSERT'', ''UPDATE'', ''DELETE'', ''MERGE'', ''TRUNCATE'', ''REPLACE''}"

lemma isWriteToken_iff: "isWriteToken tok \<longleftrightarrow> to_upper tok \<in> cte_write_keywords"
proof -
  have "length tok = length (to_upper tok)" by simp
  then show ?thesis
    unfolding isWriteToken_def tokenIs_iff cte_write_keywords_def by (auto simp del: length_map)
qed

text \<open>The maximal identifier runs of a string, in order: what \<^verbatim>\<open>containsWriteToken\<close> scans.\<close>

fun ident_tokens_from :: "string \<Rightarrow> string \<Rightarrow> string list" where
  "ident_tokens_from cur [] = (if cur = [] then [] else [cur])"
| "ident_tokens_from cur (c # q) =
     (if isIdentChar c then ident_tokens_from (cur @ [c]) q
      else (if cur = [] then [] else [cur]) @ ident_tokens_from [] q)"

definition ident_tokens :: "string \<Rightarrow> string list" where
  "ident_tokens q = ident_tokens_from [] q"

lemma slice_Suc: "a \<le> i \<Longrightarrow> i < length q \<Longrightarrow> slice a (Suc i) q = slice a i q @ [q ! i]"
  by (simp add: slice_def Suc_diff_le take_Suc_conv_app_nth)

lemma containsWriteToken_loop_spec:
  assumes "i \<le> length q"
    and "(start = -1 \<and> cur = []) \<or> (0 \<le> start \<and> nat start < i \<and> cur = slice (nat start) i q)"
  shows "containsWriteToken_loop q start i
    \<longleftrightarrow> (\<exists>t \<in> set (ident_tokens_from cur (drop i q)). isWriteToken t)"
  using assms
proof (induction q start i arbitrary: cur rule: containsWriteToken_loop.induct)
  case (1 q start i)
  show ?case
  proof (cases "i < length q \<and> isIdentChar (q ! i)")
    case True
    define start' where "start' = (if start < 0 then int i else start)"
    have cur: "cur @ [q ! i] = slice (nat start') (Suc i) q"
      using "1.prems" True by (auto simp: start'_def slice_Suc) (simp add: slice_def)
    have "containsWriteToken_loop q start i = containsWriteToken_loop q start' (Suc i)"
      using True by (simp add: containsWriteToken_loop.simps[of q start i] start'_def)
    also have "\<dots> = (\<exists>t \<in> set (ident_tokens_from (cur @ [q ! i]) (drop (Suc i) q)). isWriteToken t)"
      unfolding start'_def
      by (rule "1.IH"(1)) (use "1.prems" True cur in \<open>auto simp: start'_def\<close>)
    also have "\<dots> = (\<exists>t \<in> set (ident_tokens_from cur (drop i q)). isWriteToken t)"
      using True by (simp add: Cons_nth_drop_Suc[symmetric])
    finally show ?thesis .
  next
    case ended: False
    have step: "ident_tokens_from cur (drop i q) =
      (if cur = [] then [] else [cur]) @ ident_tokens_from [] (drop (Suc i) q)"
      using "1.prems"(1) ended
      by (cases "i = length q") (auto simp: Cons_nth_drop_Suc[symmetric])
    have rest: "containsWriteToken_loop q (-1) (Suc i)
      \<longleftrightarrow> (\<exists>t \<in> set (ident_tokens_from [] (drop (Suc i) q)). isWriteToken t)"
      if "0 \<le> start" "\<not> isWriteToken cur"
    proof (cases "i = length q")
      case True
      then show ?thesis by (simp add: containsWriteToken_loop.simps)
    next
      case False
      then show ?thesis
        using "1.IH"(2)[of "[]"] "1.prems" ended that by auto
    qed
    have rest': "containsWriteToken_loop q start (Suc i)
      \<longleftrightarrow> (\<exists>t \<in> set (ident_tokens_from [] (drop (Suc i) q)). isWriteToken t)"
      if "start < 0"
    proof (cases "i = length q")
      case True
      then show ?thesis by (simp add: containsWriteToken_loop.simps)
    next
      case False
      then show ?thesis
        using "1.IH"(3)[of "[]"] "1.prems" ended that by auto
    qed
    show ?thesis
    proof (cases "0 \<le> start")
      case True
      then have "cur = slice (nat start) i q" "cur \<noteq> []"
        using "1.prems" by (auto simp: slice_def)
      then show ?thesis
        using True ended "1.prems"(1) rest step
        by (auto simp: containsWriteToken_loop.simps[of q start i])
    next
      case False
      then have "cur = []" using "1.prems" by auto
      then show ?thesis
        using False ended "1.prems"(1) rest' step
        by (auto simp: containsWriteToken_loop.simps[of q start i])
    qed
  qed
qed

lemma containsWriteToken_iff:
  "containsWriteToken q \<longleftrightarrow> (\<exists>t \<in> set (ident_tokens q). isWriteToken t)"
  unfolding containsWriteToken_def ident_tokens_def
  by (subst containsWriteToken_loop_spec[where cur = "[]"]) simp_all

subsection \<open>Leading blanks and comments\<close>

text \<open>What is left of a statement starts with neither a blank nor a comment.\<close>

definition stripped :: "string \<Rightarrow> bool" where
  "stripped q \<longleftrightarrow> (q = [] \<or> \<not> isSpace (hd q)) \<and> \<not> has_prefix q ''--'' \<and> \<not> has_prefix q ''/*''"

lemma stripLeading_unfold:
  "stripLeading q0 = (let q = dropWhile isSpace q0 in
     if has_prefix q ''--'' then
       (case index_byte q (CHR 0x0A) of None \<Rightarrow> [] | Some idx \<Rightarrow> stripLeading (drop (idx + 1) q))
     else if has_prefix q ''/*'' then
       (case index_sub q ''*/'' of None \<Rightarrow> [] | Some idx \<Rightarrow> stripLeading (drop (idx + 2) q))
     else q)"
  by (rule stripLeading.simps)

lemma stripLeading_cases:
  obtains (line) q idx where "q = dropWhile isSpace q0" "has_prefix q ''--''"
      "index_byte q (CHR 0x0A) = Some idx" "stripLeading q0 = stripLeading (drop (idx + 1) q)"
  | (block) q idx where "q = dropWhile isSpace q0" "has_prefix q ''/*''"
      "index_sub q ''*/'' = Some idx" "stripLeading q0 = stripLeading (drop (idx + 2) q)"
  | (open_comment) "stripLeading q0 = []"
  | (stop) "stripLeading q0 = dropWhile isSpace q0" "stripped (dropWhile isSpace q0)"
proof -
  define q where "q = dropWhile isSpace q0"
  have sp: "q = [] \<or> \<not> isSpace (hd q)" unfolding q_def by (metis hd_dropWhile dropWhile_eq_Nil_conv)
  have u: "stripLeading q0 = (if has_prefix q ''--'' then
       (case index_byte q (CHR 0x0A) of None \<Rightarrow> [] | Some idx \<Rightarrow> stripLeading (drop (idx + 1) q))
     else if has_prefix q ''/*'' then
       (case index_sub q ''*/'' of None \<Rightarrow> [] | Some idx \<Rightarrow> stripLeading (drop (idx + 2) q))
     else q)"
    unfolding q_def by (subst stripLeading_unfold) (simp only: Let_def)
  consider (a) "has_prefix q ''--''" | (b) "\<not> has_prefix q ''--''" "has_prefix q ''/*''"
    | (c) "\<not> has_prefix q ''--''" "\<not> has_prefix q ''/*''" by blast
  then show ?thesis
  proof cases
    case a
    then show ?thesis
    proof (cases "index_byte q (CHR 0x0A)")
      case None with u a show ?thesis by (intro open_comment) simp
    next
      case (Some idx) with u a show ?thesis by (intro line[OF q_def]) simp_all
    qed
  next
    case b
    then show ?thesis
    proof (cases "index_sub q ''*/''")
      case None with u b show ?thesis by (intro open_comment) simp
    next
      case (Some idx) with u b show ?thesis by (intro block[OF q_def]) simp_all
    qed
  next
    case c
    with u sp show ?thesis by (intro stop) (simp_all add: stripped_def q_def)
  qed
qed

lemma stripLeading_suffix_stripped: "suffix (stripLeading q) q \<and> stripped (stripLeading q)"
proof (induction "length q" arbitrary: q rule: less_induct)
  case less
  have suf: "suffix (drop n (dropWhile isSpace q)) q" for n
    by (rule suffix_order.trans[OF suffix_drop suffix_dropWhile])
  have len: "length (drop (Suc n) (dropWhile isSpace q)) < length q"
    if "has_prefix (dropWhile isSpace q) (c # cs)" for n c cs
    using that by (intro dropWhile_shorter) (metis has_prefix.simps(2))
  show ?case
  proof (cases q rule: stripLeading_cases)
    case (line r idx)
    then show ?thesis
      using less[of "drop (idx + 1) r"] len[of _ _ idx] suf[of "idx + 1"]
      by (simp del: length_drop) (meson suffix_order.trans)
  next
    case (block r idx)
    then show ?thesis
      using less[of "drop (idx + 2) r"] len[of _ _ "Suc idx"] suf[of "idx + 2"]
      by (simp del: length_drop) (meson suffix_order.trans)
  next
    case open_comment
    then show ?thesis by (simp add: stripped_def)
  next
    case stop
    then show ?thesis by (simp add: suffix_dropWhile)
  qed
qed

lemmas stripLeading_suffix = stripLeading_suffix_stripped[THEN conjunct1]
  and stripped_stripLeading = stripLeading_suffix_stripped[THEN conjunct2]

lemma stripLeading_stripped: "stripped q \<Longrightarrow> stripLeading q = q"
  unfolding stripped_def by (subst stripLeading_unfold) (cases q, auto)

lemma stripLeading_idem [simp]: "stripLeading (stripLeading q) = stripLeading q"
  by (rule stripLeading_stripped[OF stripped_stripLeading])

lemma length_stripLeading: "length (stripLeading q) \<le> length q"
  by (rule suffix_length_le[OF stripLeading_suffix])

lemma stripLeading_space: "isSpace c \<Longrightarrow> stripLeading (c # q) = stripLeading q"
  by (subst (1 2) stripLeading_unfold) simp

lemma stripLeading_spaces: "\<forall>c \<in> set w. isSpace c \<Longrightarrow> stripLeading (w @ q) = stripLeading q"
  by (induction w) (simp_all add: stripLeading_space)

lemma stripLeading_line_comment:
  assumes "CHR 0x0A \<notin> set body"
  shows "stripLeading (''--'' @ body @ CHR 0x0A # q) = stripLeading q"
proof -
  have "index_byte (''--'' @ body @ CHR 0x0A # q) (CHR 0x0A) = Some (length body + 2)"
    using index_byte_append[of "CHR 0x0A" "''--'' @ body" q] assms by simp
  then show ?thesis
    by (subst stripLeading_unfold) (simp add: isSpace_def)
qed

text \<open>
  A block comment, as the code reads it: \<^verbatim>\<open>strings.Index(q, "*/")\<close> searches from the slash of
  the opening \<^verbatim>\<open>/*\<close>, so a body that starts with a slash closes the comment at once.
\<close>

lemma index_sub_found:
  assumes "index_sub (s @ ''*'') ''*/'' = None"
  shows "index_sub (s @ ''*/'' @ q) ''*/'' = Some (length s)"
  using assms
proof (induction s)
  case Nil
  then show ?case by (simp add: index_sub.simps)
next
  case (Cons c s)
  then show ?case
    by (cases s) (auto simp: index_sub_Cons index_sub_Nil split: if_splits)
qed

lemma stripLeading_block_comment:
  assumes "index_sub (''*'' @ body @ ''*'') ''*/'' = None"
  shows "stripLeading (''/*'' @ body @ ''*/'' @ q) = stripLeading q"
proof -
  have "index_sub (''/*'' @ body @ ''*'') ''*/'' = None"
    using assms by (simp add: index_sub_Cons)
  then have "index_sub ((''/*'' @ body) @ ''*/'' @ q) ''*/'' = Some (length body + 2)"
    using index_sub_found[of "''/*'' @ body" q] by simp
  then show ?thesis
    by (subst stripLeading_unfold) (simp add: isSpace_def)
qed

lemma stripLeading_slash_body: "stripLeading (''/*/'' @ q) = stripLeading q"
proof -
  have "index_sub (''/*/'' @ q) ''*/'' = Some 1" by (simp add: index_sub_Cons)
  then show ?thesis by (subst stripLeading_unfold) (simp add: isSpace_def)
qed

subsection \<open>Letter case\<close>

lemma dropWhile_upper:
  assumes "\<And>c. P (asciiUpper c) = P c"
  shows "dropWhile P (to_upper q) = to_upper (dropWhile P q)"
  by (simp add: dropWhile_map comp_def assms)

lemma takeWhile_upper:
  assumes "\<And>c. P (asciiUpper c) = P c"
  shows "takeWhile P (to_upper q) = to_upper (takeWhile P q)"
  by (simp add: takeWhile_map comp_def assms)

lemmas scan_upper = dropWhile_upper[where P = isSpace, OF isSpace_upper]
  dropWhile_upper[where P = isIdentChar, OF isIdentChar_upper]
  takeWhile_upper[where P = isIdentChar, OF isIdentChar_upper]

lemma has_prefix_upper:
  "\<forall>c \<in> set p. \<not> isIdentChar c \<Longrightarrow> has_prefix (to_upper q) p = has_prefix q p"
  by (induction q p rule: has_prefix.induct) (auto simp: other_byte_upper)

lemma index_byte_upper: "\<not> isIdentChar c \<Longrightarrow> index_byte (to_upper q) c = index_byte q c"
  by (induction q) (auto simp: other_byte_upper)

lemma index_sub_upper:
  "\<forall>c \<in> set p. \<not> isIdentChar c \<Longrightarrow> index_sub (to_upper q) p = index_sub q p"
proof (induction q)
  case Nil
  then show ?case by simp
next
  case (Cons d q)
  have "has_prefix (to_upper (d # q)) p = has_prefix (d # q) p"
    by (rule has_prefix_upper[OF Cons.prems])
  then show ?case using Cons by (simp add: index_sub_Cons)
qed

lemma stripLeading_upper: "stripLeading (to_upper q) = to_upper (stripLeading q)"
proof (induction q rule: stripLeading.induct)
  case (1 q)
  have pre: "has_prefix (to_upper (dropWhile isSpace q)) ''--'' = has_prefix (dropWhile isSpace q) ''--''"
    "has_prefix (to_upper (dropWhile isSpace q)) ''/*'' = has_prefix (dropWhile isSpace q) ''/*''"
    "index_byte (to_upper (dropWhile isSpace q)) (CHR 0x0A) = index_byte (dropWhile isSpace q) (CHR 0x0A)"
    "index_sub (to_upper (dropWhile isSpace q)) ''*/'' = index_sub (dropWhile isSpace q) ''*/''"
    by (rule has_prefix_upper index_byte_upper index_sub_upper; simp)+
  have line: "stripLeading (drop (idx + 1) (to_upper (dropWhile isSpace q)))
      = to_upper (stripLeading (drop (idx + 1) (dropWhile isSpace q)))"
    if "has_prefix (dropWhile isSpace q) ''--''" "index_byte (dropWhile isSpace q) (CHR 0x0A) = Some idx"
    for idx using 1(1)[OF refl that] by (simp only: drop_map)
  have block: "stripLeading (drop (idx + 2) (to_upper (dropWhile isSpace q)))
      = to_upper (stripLeading (drop (idx + 2) (dropWhile isSpace q)))"
    if "\<not> has_prefix (dropWhile isSpace q) ''--''" "has_prefix (dropWhile isSpace q) ''/*''"
      "index_sub (dropWhile isSpace q) ''*/'' = Some idx"
    for idx using 1(2)[OF refl that] by (simp only: drop_map)
  show ?case
    unfolding stripLeading_unfold[of q] stripLeading_unfold[of "to_upper q"] Let_def scan_upper pre
    using line block by (auto simp del: add_2_eq_Suc' split: option.split)
qed

subsection \<open>The reference classifier\<close>

text \<open>
  The \<^verbatim>\<open>strings.ToUpper\<close> specification that classify_internal_test.go keeps as the fuzz
  oracle, with the keyword tables as sets and the WITH scan over whole tokens.
\<close>

definition write_keywords :: "string set" where
  "write_keywords = {''INSERT'', ''UPDATE'', ''DELETE'', ''MERGE'', ''TRUNCATE'', ''REPLACE'',
     ''UPSERT'', ''COPY'', ''IMPORT'', ''CREATE'', ''ALTER'', ''DROP'', ''GRANT'', ''REVOKE'',
     ''COMMENT'', ''REFRESH'', ''CALL'', ''DO''}"

definition leading_token :: "string \<Rightarrow> string" where
  "leading_token q = to_upper (takeWhile isIdentChar (stripLeading q))"

definition after_token :: "string \<Rightarrow> string" where
  "after_token q = dropWhile isIdentChar (stripLeading q)"

definition referenceClassifier :: "string \<Rightarrow> statement_kind" where
  "referenceClassifier query =
     (let tok = leading_token query in
      if tok \<in> {''BEGIN'', ''START''} then KindBegin
      else if tok \<in> {''COMMIT'', ''END''} then KindCommit
      else if tok \<in> {''ROLLBACK'', ''ABORT''} then
        (if leading_token (after_token query) = ''TO'' then KindOther else KindRollback)
      else if tok \<in> write_keywords then KindWrite
      else if tok = ''WITH'' then
        (if \<exists>t \<in> set (ident_tokens (after_token query)). to_upper t \<in> cte_write_keywords
         then KindWrite else KindOther)
      else KindOther)"

lemma rollbackKind_alt:
  "rollbackKind rest = (if leading_token rest = ''TO'' then KindOther else KindRollback)"
  by (simp add: rollbackKind_def tokenIs_iff leading_token_def Let_def)

lemma drop_leading_run: "drop (length (takeWhile isIdentChar q)) q = dropWhile isIdentChar q"
  by (rule dropWhile_eq_drop[symmetric])

text \<open>The dispatch byte is the lower-cased first byte of the upper-cased token.\<close>

lemma dispatch_byte: "tok \<noteq> [] \<Longrightarrow> lowerBit (hd tok) = lowerBit (hd (to_upper tok))"
  by (cases tok) simp_all

definition dispatch :: "string \<Rightarrow> string \<Rightarrow> statement_kind" where
  "dispatch U rest =
     (if U = [] then KindOther
      else let b = lowerBit (hd U) in
        if b = CHR ''b'' then (if U = ''BEGIN'' then KindBegin else KindOther)
        else if b = CHR ''s'' then (if U = ''START'' then KindBegin else KindOther)
        else if b = CHR ''c'' then
          (if U = ''COMMIT'' then KindCommit
           else if U = ''CREATE'' \<or> U = ''CALL'' \<or> U = ''COPY'' \<or> U = ''COMMENT'' then KindWrite
           else KindOther)
        else if b = CHR ''e'' then (if U = ''END'' then KindCommit else KindOther)
        else if b = CHR ''r'' then
          (if U = ''ROLLBACK'' then rollbackKind rest
           else if U = ''REPLACE'' \<or> U = ''REVOKE'' \<or> U = ''REFRESH'' then KindWrite
           else KindOther)
        else if b = CHR ''a'' then
          (if U = ''ABORT'' then rollbackKind rest
           else if U = ''ALTER'' then KindWrite
           else KindOther)
        else if b = CHR ''i'' then
          (if U = ''INSERT'' \<or> U = ''IMPORT'' then KindWrite else KindOther)
        else if b = CHR ''u'' then
          (if U = ''UPDATE'' \<or> U = ''UPSERT'' then KindWrite else KindOther)
        else if b = CHR ''d'' then
          (if U = ''DELETE'' \<or> U = ''DROP'' \<or> U = ''DO'' then KindWrite else KindOther)
        else if b = CHR ''m'' then (if U = ''MERGE'' then KindWrite else KindOther)
        else if b = CHR ''t'' then (if U = ''TRUNCATE'' then KindWrite else KindOther)
        else if b = CHR ''g'' then (if U = ''GRANT'' then KindWrite else KindOther)
        else if b = CHR ''w'' then
          (if U = ''WITH'' \<and> containsWriteToken rest then KindWrite else KindOther)
        else KindOther)"

lemma DefaultClassifier_dispatch:
  "DefaultClassifier query = dispatch (leading_token query) (after_token query)"
proof (cases "takeWhile isIdentChar (stripLeading query) = []")
  case True
  then show ?thesis
    unfolding DefaultClassifier_def dispatch_def leading_token_def take_identRun Let_def
    by (simp only: if_True list.map refl)
next
  case False
  then show ?thesis
    unfolding DefaultClassifier_def dispatch_def leading_token_def after_token_def take_identRun
      Let_def tokenIs_iff drop_leading_run dispatch_byte[OF False] map_is_Nil_conv
    by (simp only: if_False)
qed

definition all_keywords :: "string set" where
  "all_keywords = write_keywords \<union>
     {''BEGIN'', ''START'', ''COMMIT'', ''END'', ''ROLLBACK'', ''ABORT'', ''WITH''}"

lemma dispatch_other:
  assumes "U \<notin> all_keywords"
  shows "dispatch U rest = KindOther"
proof -
  have "\<not> (U = k)" if "k \<in> all_keywords" for k using assms that by blast
  note no = this[unfolded all_keywords_def write_keywords_def]
  show ?thesis
    unfolding dispatch_def Let_def
    by (simp only: no[simplified] if_False if_cancel simp_thms)
qed

lemma dispatch_write: "U \<in> write_keywords \<Longrightarrow> dispatch U rest = KindWrite"
  unfolding write_keywords_def by (elim insertE emptyE; hypsubst; simp add: dispatch_def)

lemma dispatch_control:
  "dispatch ''BEGIN'' rest = KindBegin" "dispatch ''START'' rest = KindBegin"
  "dispatch ''COMMIT'' rest = KindCommit" "dispatch ''END'' rest = KindCommit"
  "dispatch ''ROLLBACK'' rest = rollbackKind rest" "dispatch ''ABORT'' rest = rollbackKind rest"
  "dispatch ''WITH'' rest = (if containsWriteToken rest then KindWrite else KindOther)"
  by (simp_all add: dispatch_def)

lemma control_not_write:
  "''BEGIN'' \<notin> write_keywords" "''START'' \<notin> write_keywords" "''COMMIT'' \<notin> write_keywords"
  "''END'' \<notin> write_keywords" "''ROLLBACK'' \<notin> write_keywords" "''ABORT'' \<notin> write_keywords"
  "''WITH'' \<notin> write_keywords"
  by (simp_all add: write_keywords_def)

lemma write_not_control:
  assumes "U \<in> write_keywords"
  shows "U \<noteq> ''BEGIN'' \<and> U \<noteq> ''START'' \<and> U \<noteq> ''COMMIT'' \<and> U \<noteq> ''END'' \<and> U \<noteq> ''ROLLBACK''
    \<and> U \<noteq> ''ABORT'' \<and> U \<noteq> ''WITH''"
  using assms control_not_write by blast

lemma DefaultClassifier_reference: "DefaultClassifier query = referenceClassifier query"
proof -
  consider "leading_token query \<in> write_keywords"
    | "leading_token query \<in> {''BEGIN'', ''START'', ''COMMIT'', ''END'', ''ROLLBACK'', ''ABORT'', ''WITH''}"
    | "leading_token query \<notin> all_keywords"
    by (auto simp: all_keywords_def)
  then show ?thesis
  proof cases
    case 1
    then show ?thesis
      using write_not_control[of "leading_token query"]
      by (simp add: DefaultClassifier_dispatch dispatch_write referenceClassifier_def)
  next
    case 2
    then show ?thesis
      by (auto simp: DefaultClassifier_dispatch dispatch_control referenceClassifier_def
          rollbackKind_alt containsWriteToken_iff isWriteToken_iff control_not_write)
  next
    case 3
    then show ?thesis
      by (simp add: DefaultClassifier_dispatch dispatch_other referenceClassifier_def)
        (simp add: all_keywords_def)
  qed
qed

lemma ident_tokens_from_upper:
  "ident_tokens_from (to_upper cur) (to_upper q) = map to_upper (ident_tokens_from cur q)"
proof (induction cur q rule: ident_tokens_from.induct)
  case (1 cur)
  then show ?case by simp
next
  case (2 cur c q)
  then show ?case by (cases "isIdentChar c") auto
qed

lemma leading_token_upper [simp]: "leading_token (to_upper q) = leading_token q"
  by (simp add: leading_token_def stripLeading_upper scan_upper comp_def)

lemma after_token_upper: "after_token (to_upper q) = to_upper (after_token q)"
  by (simp add: after_token_def stripLeading_upper scan_upper)

lemma ident_tokens_upper: "ident_tokens (to_upper q) = map to_upper (ident_tokens q)"
  using ident_tokens_from_upper[of "[]" q] by (simp add: ident_tokens_def)

lemma referenceClassifier_upper: "referenceClassifier (to_upper q) = referenceClassifier q"
  by (simp add: referenceClassifier_def after_token_upper ident_tokens_upper Let_def comp_def)

subsection \<open>Names\<close>

lemma stripLeading_start:
  assumes "\<forall>c \<in> set w. isSpace c" "stripped q"
  shows "stripLeading (w @ q) = q"
  using assms by (simp add: stripLeading_spaces stripLeading_stripped)

lemma stripped_ident: "isIdentChar c \<Longrightarrow> stripped (c # q)"
  by (auto simp: stripped_def isIdentChar_space)

lemma stripped_quote: "c = CHR 0x22 \<or> c = CHR 0x60 \<Longrightarrow> stripped (c # q)"
  by (auto simp: stripped_def isSpace_def)

text \<open>A token that stands alone: identifier bytes, then a byte that is none or the end.\<close>

definition ends_token :: "string \<Rightarrow> bool" where
  "ends_token q \<longleftrightarrow> q = [] \<or> \<not> isIdentChar (hd q)"

lemma takeWhile_token:
  "\<forall>c \<in> set tok. P c \<Longrightarrow> q = [] \<or> \<not> P (hd q) \<Longrightarrow>
    takeWhile P (tok @ q) = tok \<and> dropWhile P (tok @ q) = q"
  by (induction tok) (cases q; auto)+

lemma identRun_token:
  assumes "\<forall>c \<in> set tok. isIdentChar c" "ends_token q"
  shows "takeWhile isIdentChar (tok @ q) = tok" "dropWhile isIdentChar (tok @ q) = q"
  using takeWhile_token[of tok isIdentChar q] assms by (auto simp: ends_token_def)

definition gap :: "string \<Rightarrow> bool" where
  "gap w \<longleftrightarrow> w \<noteq> [] \<and> (\<forall>c \<in> set w. isSpace c)"

lemma gap_ends_token: "gap w \<Longrightarrow> ends_token (w @ q)"
  by (cases w) (auto simp: gap_def ends_token_def dest: isIdentChar_space)

lemma keyword_ident: "to_upper tok = kw \<Longrightarrow> \<forall>c \<in> set kw. isIdentChar c \<Longrightarrow> \<forall>c \<in> set tok. isIdentChar c"
  by auto

lemma skipKeyword_alt:
  "skipKeyword q kw = (let r = stripLeading q in
     if to_upper (takeWhile isIdentChar r) = kw then (dropWhile isIdentChar r, True) else (r, False))"
  by (simp add: skipKeyword_def tokenIs_iff Let_def)

lemma skipKeyword_gap:
  assumes "\<forall>c \<in> set g. isSpace c" "to_upper tok = kw" "tok \<noteq> []" "\<forall>c \<in> set tok. isIdentChar c"
    "ends_token q"
  shows "skipKeyword (g @ tok @ q) kw = (q, True)"
proof -
  have "stripLeading (g @ tok @ q) = tok @ q"
    using assms by (intro stripLeading_start) (cases tok; simp add: stripped_ident)+
  then show ?thesis
    using assms by (simp only: skipKeyword_alt identRun_token Let_def if_True refl)
qed

definition name_byte :: "char \<Rightarrow> bool" where
  "name_byte c \<longleftrightarrow> isIdentChar c \<or> c = CHR ''.''"

lemma name_byte_alt: "(\<lambda>c. isIdentChar c \<or> c = CHR ''.'') = name_byte"
  by (auto simp: name_byte_def)

lemma name_byte_stripped: "name_byte c \<Longrightarrow> stripped (c # q) \<and> c \<noteq> CHR 0x22 \<and> c \<noteq> CHR 0x60"
  by (auto simp: name_byte_def stripped_ident) (auto simp: stripped_def isSpace_def)

lemma readName_unquoted:
  assumes "stripLeading q = c # r" "c \<noteq> CHR 0x22" "c \<noteq> CHR 0x60"
  shows "readName q = to_lower (takeWhile name_byte (c # r))"
  using assms by (simp only: readName_def list.case take_nameRun name_byte_alt simp_thms if_False)

lemma readName_plain:
  assumes "\<forall>c \<in> set g. isSpace c" "name \<noteq> []" "\<forall>c \<in> set name. name_byte c"
    "q = [] \<or> \<not> name_byte (hd q)"
  shows "readName (g @ name @ q) = to_lower name"
proof -
  obtain c cs where name: "name = c # cs" using assms(2) by (cases name) auto
  have "stripLeading (g @ name @ q) = c # cs @ q"
    using assms(1,3) by (subst stripLeading_start) (auto simp: name name_byte_stripped)
  from readName_unquoted[OF this] have "readName (g @ name @ q) = to_lower (takeWhile name_byte (name @ q))"
    using assms(3) name_byte_stripped[of c q] by (simp add: name)
  then show ?thesis
    using takeWhile_token[of name name_byte q] assms(3,4) by simp
qed

lemma readName_quoted:
  assumes "\<forall>c \<in> set g. isSpace c" "b = CHR 0x22 \<or> b = CHR 0x60" "b \<notin> set name"
  shows "readName (g @ b # name @ b # q) = name"
proof -
  have "stripLeading (g @ b # name @ b # q) = b # name @ b # q"
    by (rule stripLeading_start[OF assms(1) stripped_quote[OF assms(2)]])
  then show ?thesis
    using assms(2) index_byte_append[OF assms(3)] by (simp add: readName_def)
qed

lemma readName_piece:
  "\<exists>t. sublist t q \<and> (readName q = t \<or> readName q = to_lower t)"
proof (cases "stripLeading q")
  case Nil
  then show ?thesis by (intro exI[of _ "[]"]) (simp add: readName_def)
next
  case (Cons c r)
  have whole: "sublist (c # r) q"
    unfolding Cons[symmetric] by (rule suffix_imp_sublist[OF stripLeading_suffix])
  have "sublist r (c # r)" by (rule suffix_imp_sublist) (simp add: suffix_ConsI)
  note tail = sublist_trans[OF this whole]
  show ?thesis
  proof (cases "c = CHR 0x22 \<or> c = CHR 0x60")
    case True
    then have "readName q = (case index_byte r c of Some e \<Rightarrow> take e r | None \<Rightarrow> [])"
      by (simp only: readName_def Cons list.case if_True)
    also have "sublist \<dots> q"
      using sublist_trans[OF sublist_take tail] by (simp split: option.split)
    finally show ?thesis by blast
  next
    case False
    then have "readName q = to_lower (take (nameRunLen (c # r)) (c # r))"
      by (simp only: readName_def Cons list.case if_False)
    then show ?thesis using sublist_trans[OF sublist_take whole] by blast
  qed
qed

subsection \<open>Targets\<close>

text \<open>The statement forms \<^verbatim>\<open>writeTarget\<close> reads, up to the name.\<close>

inductive target_phrase :: "string \<Rightarrow> bool" where
  into: "to_upper verb \<in> {''INSERT'', ''REPLACE'', ''MERGE'', ''UPSERT''} \<Longrightarrow> to_upper kw = ''INTO'' \<Longrightarrow>
     gap g1 \<Longrightarrow> gap g2 \<Longrightarrow> target_phrase (verb @ g1 @ kw @ g2)"
| delete: "to_upper verb = ''DELETE'' \<Longrightarrow> to_upper kw = ''FROM'' \<Longrightarrow>
     gap g1 \<Longrightarrow> gap g2 \<Longrightarrow> target_phrase (verb @ g1 @ kw @ g2)"
| truncate: "to_upper verb = ''TRUNCATE'' \<Longrightarrow> to_upper kw = ''TABLE'' \<Longrightarrow>
     gap g1 \<Longrightarrow> gap g2 \<Longrightarrow> target_phrase (verb @ g1 @ kw @ g2)"
| direct: "to_upper verb \<in> {''UPDATE'', ''COPY''} \<Longrightarrow> gap g \<Longrightarrow> target_phrase (verb @ g)"

lemma writeTarget_alt:
  "writeTarget query =
     (let verb = leading_token query; q = after_token query in
      if verb \<in> {''INSERT'', ''REPLACE'', ''MERGE'', ''UPSERT''} then
        (if \<not> snd (skipKeyword q ''INTO'') then [] else readName (fst (skipKeyword q ''INTO'')))
      else if verb = ''DELETE'' then
        (if \<not> snd (skipKeyword q ''FROM'') then [] else readName (fst (skipKeyword q ''FROM'')))
      else if verb \<in> {''UPDATE'', ''COPY''} then readName q
      else if verb = ''TRUNCATE'' then readName (fst (skipKeyword q ''TABLE''))
      else [])"
  unfolding writeTarget_def Let_def firstToken_def case_prod_unfold leading_token_def
    after_token_def drop_identRun take_identRun stripLeading_idem by (rule refl)

lemma leading_token_verb:
  assumes "verb \<noteq> []" "\<forall>c \<in> set verb. isIdentChar c" "ends_token q"
  shows "leading_token (verb @ q) = to_upper verb" "after_token (verb @ q) = q"
proof -
  have "stripLeading (verb @ q) = verb @ q"
    using assms by (cases verb) (simp_all add: stripLeading_stripped stripped_ident)
  then show "leading_token (verb @ q) = to_upper verb" "after_token (verb @ q) = q"
    using identRun_token[OF assms(2,3)] by (simp_all add: leading_token_def after_token_def)
qed

lemma upper_ident: "to_upper tok = kw \<Longrightarrow> \<forall>c \<in> set kw. isIdentChar c \<Longrightarrow> kw \<noteq> [] \<Longrightarrow>
    tok \<noteq> [] \<and> (\<forall>c \<in> set tok. isIdentChar c)"
  by auto

lemma verbs_ident:
  "v \<in> {''INSERT'', ''REPLACE'', ''MERGE'', ''UPSERT'', ''DELETE'', ''TRUNCATE'', ''UPDATE'', ''COPY'',
     ''INTO'', ''FROM'', ''TABLE''} \<Longrightarrow> v \<noteq> [] \<and> (\<forall>c \<in> set v. isIdentChar c)"
  by (elim insertE emptyE; hypsubst; simp add: isIdentChar_def)

lemma verb_phrase:
  assumes "to_upper verb \<in> {''INSERT'', ''REPLACE'', ''MERGE'', ''UPSERT'', ''DELETE'', ''TRUNCATE'',
     ''UPDATE'', ''COPY''}" "gap g"
  shows "leading_token (verb @ g @ r) = to_upper verb" "after_token (verb @ g @ r) = g @ r"
proof -
  have "to_upper verb \<noteq> [] \<and> (\<forall>c \<in> set (to_upper verb). isIdentChar c)"
    by (rule verbs_ident) (use assms(1) in blast)
  then have v: "verb \<noteq> []" "\<forall>c \<in> set verb. isIdentChar c" by auto
  show "leading_token (verb @ g @ r) = to_upper verb" "after_token (verb @ g @ r) = g @ r"
    by (rule leading_token_verb[OF v gap_ends_token[OF assms(2)]])+
qed

lemma keyword_phrase:
  assumes "to_upper kw \<in> {''INTO'', ''FROM'', ''TABLE''}" "gap g1" "gap g2"
  shows "skipKeyword (g1 @ kw @ g2 @ r) (to_upper kw) = (g2 @ r, True)"
proof -
  have "to_upper kw \<noteq> [] \<and> (\<forall>c \<in> set (to_upper kw). isIdentChar c)"
    by (rule verbs_ident) (use assms(1) in blast)
  then have "kw \<noteq> []" "\<forall>c \<in> set kw. isIdentChar c" by auto
  then show ?thesis
    using assms(2) by (intro skipKeyword_gap gap_ends_token[OF assms(3)]) (auto simp: gap_def)
qed

lemma readName_gap: "gap g \<Longrightarrow> readName (g @ r) = readName r"
  by (simp add: readName_def gap_def stripLeading_spaces)

lemma writeTarget_phrase: "target_phrase p \<Longrightarrow> writeTarget (p @ r) = readName r"
proof (induction rule: target_phrase.induct)
  case (into verb kw g1 g2)
  have v: "leading_token (verb @ g1 @ kw @ g2 @ r) = to_upper verb"
    "after_token (verb @ g1 @ kw @ g2 @ r) = g1 @ kw @ g2 @ r"
    by (rule verb_phrase; use into in force)+
  have k: "skipKeyword (g1 @ kw @ g2 @ r) ''INTO'' = (g2 @ r, True)"
    using keyword_phrase[of kw g1 g2 r] into by simp
  have "writeTarget ((verb @ g1 @ kw @ g2) @ r) = readName (g2 @ r)"
    unfolding append_assoc writeTarget_alt Let_def v k fst_conv snd_conv
    using into(1) by (simp only: if_True simp_thms if_False)
  then show ?case using into by (simp add: readName_gap)
next
  case (delete verb kw g1 g2)
  have v: "leading_token (verb @ g1 @ kw @ g2 @ r) = to_upper verb"
    "after_token (verb @ g1 @ kw @ g2 @ r) = g1 @ kw @ g2 @ r"
    by (rule verb_phrase; use delete in force)+
  have k: "skipKeyword (g1 @ kw @ g2 @ r) ''FROM'' = (g2 @ r, True)"
    using keyword_phrase[of kw g1 g2 r] delete by simp
  have "writeTarget ((verb @ g1 @ kw @ g2) @ r) = readName (g2 @ r)"
    unfolding append_assoc writeTarget_alt Let_def v k fst_conv snd_conv
    by (simp add: delete(1))
  then show ?case using delete by (simp add: readName_gap)
next
  case (truncate verb kw g1 g2)
  have v: "leading_token (verb @ g1 @ kw @ g2 @ r) = to_upper verb"
    "after_token (verb @ g1 @ kw @ g2 @ r) = g1 @ kw @ g2 @ r"
    by (rule verb_phrase; use truncate in force)+
  have k: "skipKeyword (g1 @ kw @ g2 @ r) ''TABLE'' = (g2 @ r, True)"
    using keyword_phrase[of kw g1 g2 r] truncate by simp
  have "writeTarget ((verb @ g1 @ kw @ g2) @ r) = readName (g2 @ r)"
    unfolding append_assoc writeTarget_alt Let_def v k fst_conv snd_conv
    by (simp add: truncate(1))
  then show ?case using truncate by (simp add: readName_gap)
next
  case (direct verb g)
  have "writeTarget ((verb @ g) @ r) = readName (g @ r)"
    using direct verb_phrase[of verb g r] by (elim insertE emptyE) (simp_all add: writeTarget_alt)
  then show ?case using direct by (simp add: readName_gap)
qed

lemma skipKeyword_suffix: "suffix (fst (skipKeyword q kw)) q"
  unfolding skipKeyword_alt Let_def
  by (auto intro: suffix_order.trans[OF suffix_dropWhile stripLeading_suffix] stripLeading_suffix)

lemma readName_sub:
  assumes "suffix r q"
  shows "\<exists>t. sublist t q \<and> (readName r = t \<or> readName r = to_lower t)"
  using readName_piece[of r] sublist_trans[OF _ suffix_imp_sublist[OF assms]] by blast

lemma writeTarget_piece_aux:
  "\<exists>t. sublist t q \<and> (writeTarget q = t \<or> writeTarget q = to_lower t)"
proof -
  have after: "suffix (after_token q) q"
    unfolding after_token_def by (rule suffix_order.trans[OF suffix_dropWhile stripLeading_suffix])
  have skip: "suffix (fst (skipKeyword (after_token q) kw)) q" for kw
    by (rule suffix_order.trans[OF skipKeyword_suffix after])
  have none: "\<exists>t. sublist t q \<and> ([] = t \<or> [] = to_lower t)" by (intro exI[of _ "[]"]) simp
  note pieces = readName_sub[OF after] readName_sub[OF skip[of "''INTO''"]]
    readName_sub[OF skip[of "''FROM''"]] readName_sub[OF skip[of "''TABLE''"]] none
  show ?thesis
    unfolding writeTarget_alt Let_def by (simp only: split: if_split) (intro conjI impI pieces)
qed

subsection \<open>Properties\<close>

text \<open>
  C26. The allocation-free first-byte dispatch of \<^verbatim>\<open>DefaultClassifier\<close> decides every query
  as the \<^verbatim>\<open>strings.ToUpper\<close> reference specification does: transaction control by the leading
  keyword, \<^verbatim>\<open>ROLLBACK TO\<close> as no end of the transaction, the write keywords, and a
  \<^verbatim>\<open>WITH\<close> query by the whole tokens of its rest.
\<close>

theorem classifier_matches_reference: "DefaultClassifier query = referenceClassifier query"
  by (rule DefaultClassifier_reference)

text \<open>Letter case never changes what a statement is classified as.\<close>

theorem classifier_ignores_case: "DefaultClassifier (to_upper query) = DefaultClassifier query"
  unfolding DefaultClassifier_reference by (rule referenceClassifier_upper)

text \<open>
  \<^verbatim>\<open>stripLeading\<close> returns a suffix of the query, and one that starts with neither a
  blank nor a comment, so a second pass changes nothing.
\<close>

theorem stripLeading_normal_form:
  "suffix (stripLeading query) query \<and> stripped (stripLeading query)
     \<and> stripLeading (stripLeading query) = stripLeading query"
  by (simp add: stripLeading_suffix stripped_stripLeading)

text \<open>
  What SQL reads as blank before a statement: spaces, line comments and block comments.
  A block comment whose body starts with a slash is left out: see the next property but one.
\<close>

inductive sql_blank :: "string \<Rightarrow> bool" where
  nothing: "sql_blank []"
| space: "isSpace c \<Longrightarrow> sql_blank w \<Longrightarrow> sql_blank (c # w)"
| line: "CHR 0x0A \<notin> set body \<Longrightarrow> sql_blank w \<Longrightarrow> sql_blank (''--'' @ body @ CHR 0x0A # w)"
| block: "index_sub (body @ ''*'') ''*/'' = None \<Longrightarrow> \<not> has_prefix body ''/'' \<Longrightarrow> sql_blank w \<Longrightarrow>
    sql_blank (''/*'' @ body @ ''*/'' @ w)"

lemma block_body_closed:
  assumes "index_sub (body @ ''*'') ''*/'' = None" "\<not> has_prefix body ''/''"
  shows "index_sub (''*'' @ body @ ''*'') ''*/'' = None"
  using assms by (cases body) (auto simp: index_sub_Cons index_sub_Nil split: if_splits)

lemma sql_blank_stripLeading: "sql_blank w \<Longrightarrow> stripLeading (w @ q) = stripLeading q"
proof (induction rule: sql_blank.induct)
  case nothing
  then show ?case by simp
next
  case (space c w)
  then show ?case by (simp add: stripLeading_space)
next
  case (line body w)
  then show ?case using stripLeading_line_comment[of body "w @ q"] by simp
next
  case (block body w)
  then show ?case
    using stripLeading_block_comment[OF block_body_closed[OF block.hyps(1,2)], of "w @ q"] by simp
qed

text \<open>
  Blanks and comments before a statement change neither its classification nor the
  table name reported for it.
\<close>

theorem leading_blank_ignored:
  assumes "sql_blank w"
  shows "DefaultClassifier (w @ query) = DefaultClassifier query
    \<and> crossConnOpName (w @ query) = crossConnOpName query"
  using sql_blank_stripLeading[OF assms, of query]
  by (simp add: DefaultClassifier_def crossConnOpName_def writeTarget_def firstToken_def)

theorem leading_blank_ignored_witness:
  "sql_blank ''/* a */ '' \<and> DefaultClassifier (''/* a */ '' @ ''COMMIT'') = DefaultClassifier ''COMMIT''
    \<and> crossConnOpName (''/* a */ '' @ ''COMMIT'') = crossConnOpName ''COMMIT''"
proof -
  have "sql_blank (''/*'' @ '' a '' @ ''*/'' @ '' '')"
    by (intro sql_blank.intros) (simp_all add: index_sub_Cons index_sub_Nil isSpace_def)
  then have "sql_blank ''/* a */ ''" by simp
  with leading_blank_ignored[OF this, of "''COMMIT''"] show ?thesis by blast
qed

text \<open>
  C40. A block comment whose body starts with a slash is taken as closed by its own opening:
  the text inside the comment is classified as the statement. \<^verbatim>\<open>strings.Index(q, "*/")\<close>
  searches from the start of the opening \<^verbatim>\<open>/*\<close> and finds the two bytes \<^verbatim>\<open>*/\<close> of
  \<^verbatim>\<open>/*/\<close>; a query that is only a \<^verbatim>\<open>SELECT\<close> after such a comment counts as
  whatever the comment says.
\<close>

theorem slash_comment_is_executed:
  "DefaultClassifier (''/*/'' @ body @ ''*/'' @ query) = DefaultClassifier (body @ ''*/'' @ query)
    \<and> DefaultClassifier ''/*/ COMMIT; */ SELECT 1'' = KindCommit"
proof
  show "DefaultClassifier (''/*/'' @ body @ ''*/'' @ query) = DefaultClassifier (body @ ''*/'' @ query)"
    using stripLeading_slash_body[of "body @ ''*/'' @ query"] by (simp add: DefaultClassifier_def)
  show "DefaultClassifier ''/*/ COMMIT; */ SELECT 1'' = KindCommit" by code_simp
qed

lemma ident_tokens_from_nonident:
  "\<not> isIdentChar c \<Longrightarrow> ident_tokens_from cur (q1 @ c # q2) = ident_tokens_from cur q1 @ ident_tokens_from [] q2"
  by (induction cur q1 rule: ident_tokens_from.induct) auto

text \<open>
  A \<^verbatim>\<open>WITH\<close> query that calls the string function \<^verbatim>\<open>replace(\<close> anywhere outside a
  literal is classified as a write, although it only reads.
\<close>

theorem cte_replace_call_is_write:
  "DefaultClassifier (''WITH '' @ body @ '' replace('' @ tail) = KindWrite"
proof -
  have kw: "isIdentChar (CHR ''r'')" "isIdentChar (CHR ''e'')" "isIdentChar (CHR ''p'')"
    "isIdentChar (CHR ''l'')" "isIdentChar (CHR ''a'')" "isIdentChar (CHR ''c'')"
    "isIdentChar (CHR ''W'')" "isIdentChar (CHR ''I'')" "isIdentChar (CHR ''T'')"
    "isIdentChar (CHR ''H'')" "\<not> isIdentChar (CHR ''('')"
    unfolding byte_codes by simp_all
  let ?rest = "'' '' @ body @ '' replace('' @ tail"
  have lead: "leading_token (''WITH'' @ ?rest) = to_upper ''WITH''"
    "after_token (''WITH'' @ ?rest) = ?rest"
    by (rule leading_token_verb; simp add: kw ends_token_def)+
  have up: "to_upper ''WITH'' = ''WITH''" "to_upper ''replace'' = ''REPLACE''"
    by (simp_all add: asciiUpper_literal)
  have "ident_tokens ?rest = ident_tokens_from [] ('' '' @ body) @ ident_tokens_from [] (''replace('' @ tail)"
    using ident_tokens_from_nonident[of "CHR '' ''" "[]" "'' '' @ body" "''replace('' @ tail"]
    by (simp add: ident_tokens_def)
  moreover have "''replace'' \<in> set (ident_tokens_from [] (''replace('' @ tail))"
    by (simp add: kw)
  ultimately have "''replace'' \<in> set (ident_tokens ?rest)" by (simp only: set_append UnI2)
  moreover have "isWriteToken ''replace''"
    unfolding isWriteToken_iff up cte_write_keywords_def by simp
  ultimately have "containsWriteToken ?rest" unfolding containsWriteToken_iff by blast
  then have "dispatch (leading_token (''WITH'' @ ?rest)) (after_token (''WITH'' @ ?rest)) = KindWrite"
    unfolding lead up dispatch_control by (simp only: if_True)
  then show ?thesis by (simp add: DefaultClassifier_dispatch)
qed

text \<open>
  For every DML form \<^verbatim>\<open>writeTarget\<close> knows, in any letter case and spacing, an unquoted
  (possibly schema-qualified) name is returned lower-cased and a quoted name verbatim.
\<close>

theorem writeTarget_reads_name:
  assumes "target_phrase p"
    and "name \<noteq> []" "\<forall>c \<in> set name. name_byte c" "tail = [] \<or> \<not> name_byte (hd tail)"
    and "b = CHR 0x22 \<or> b = CHR 0x60" "b \<notin> set quoted"
  shows "writeTarget (p @ name @ tail) = to_lower name
    \<and> writeTarget (p @ b # quoted @ b # rest) = quoted"
  using assms readName_plain[of "[]" name tail] readName_quoted[of "[]" b quoted rest]
  by (simp add: writeTarget_phrase)

theorem writeTarget_reads_name_witness:
  "writeTarget (''insert into '' @ ''Public.Users'' @ '' (id)'') = to_lower ''Public.Users''
    \<and> writeTarget (''insert into '' @ CHR 0x22 # ''Users'' @ CHR 0x22 # '' (id)'') = ''Users''"
proof (rule writeTarget_reads_name)
  have "target_phrase (''insert'' @ '' '' @ ''into'' @ '' '')"
    by (rule target_phrase.into[of "''insert''" "''into''" "'' ''" "'' ''"])
      (simp_all add: asciiUpper_literal gap_def isSpace_def)
  then show "target_phrase ''insert into ''" by simp
  show "\<forall>c \<in> set ''Public.Users''. name_byte c"
    by (simp add: name_byte_def isIdentChar_def)
  show "'' (id)'' = [] \<or> \<not> name_byte (hd '' (id)'')" by (simp add: name_byte_def)
qed simp_all

text \<open>
  The reported name of a cross-connection write is never empty and never carries data of
  unbounded size: it is the generic name, or a contiguous piece of the query, verbatim or
  lower-cased, so no longer than the query.
\<close>

theorem crossConnOpName_bounded:
  "crossConnOpName query \<noteq> []
    \<and> (crossConnOpName query = ''write''
       \<or> (\<exists>t. sublist t query \<and> crossConnOpName query \<in> {t, to_lower t}))
    \<and> length (writeTarget query) \<le> length query"
proof -
  obtain t where t: "sublist t query" "writeTarget query = t \<or> writeTarget query = to_lower t"
    using writeTarget_piece_aux[of query] by blast
  then have "length (writeTarget query) \<le> length query"
    using sublist_length_le[OF t(1)] by auto
  with t show ?thesis by (auto simp: crossConnOpName_def Let_def)
qed

text \<open>
  The name of a quoted, schema-qualified table stops at the first closing quote: every
  table of a quoted schema is reported under the schema's name alone, so that one allowlist
  or baseline entry covers them all.
\<close>

theorem quoted_schema_hides_table:
  assumes "target_phrase p" "schema \<noteq> []" "CHR 0x22 \<notin> set schema"
  shows "crossConnOpName (p @ CHR 0x22 # schema @ CHR 0x22 # ''.'' @ table @ rest) = schema"
  using assms readName_quoted[of "[]" "CHR 0x22" schema "''.'' @ table @ rest"]
  by (simp add: crossConnOpName_def writeTarget_phrase)

theorem quoted_schema_hides_table_witness:
  "crossConnOpName (''UPDATE '' @ CHR 0x22 # ''app'' @ CHR 0x22 # ''.'' @ ''users'' @ '' SET a = 1'') = ''app''"
proof (rule quoted_schema_hides_table)
  have "target_phrase (''UPDATE'' @ '' '')"
    by (rule target_phrase.direct) (simp_all add: asciiUpper_literal gap_def isSpace_def)
  then show "target_phrase ''UPDATE ''" by simp
qed simp_all

end
