(* ===== verification/Identity.thy ===== *)
theory Identity
  imports Prelude
begin

text \<open>
  The identity of a violation (check.go, reporter.go, allowlist.go): the operation \<open>Op\<close>,
  the key \<open>ViolationKey\<close> that pairs it with a scope name, and the order in which every
  governance report lists keys (\<open>sortKeys\<close>). The key type is made an instance of the
  library's linear orders, so that \<open>sort\<close>, \<open>sorted\<close> and their lemmas apply to it.
\<close>

datatype op = Op (op_kind: string) (op_name: string)

datatype violation_key =
  ViolationKey (vk_scope: string) (vk_kind: string) (vk_name: string)

text \<open>The key of an operation in a scope: the composite literal every caller writes.\<close>

definition key_for :: "string \<Rightarrow> op \<Rightarrow> violation_key" where
  "key_for sc oper = ViolationKey sc (op_kind oper) (op_name oper)"

lemma key_for_inject [simp]: "key_for s1 o1 = key_for s2 o2 \<longleftrightarrow> s1 = s2 \<and> o1 = o2"
  by (cases o1; cases o2) (simp add: key_for_def)

lemma key_for_sel [simp]:
  "vk_scope (key_for s x) = s" "vk_kind (key_for s x) = op_kind x" "vk_name (key_for s x) = op_name x"
  by (simp_all add: key_for_def)

text \<open>The comparison function of \<^verbatim>\<open>sortKeys\<close>.\<close>

definition key_less :: "violation_key \<Rightarrow> violation_key \<Rightarrow> bool" where
  "key_less a b =
     (if vk_scope a \<noteq> vk_scope b then vk_scope a < vk_scope b
      else if vk_kind a \<noteq> vk_kind b then vk_kind a < vk_kind b
      else vk_name a < vk_name b)"

instantiation violation_key :: linorder
begin

definition less_violation_key :: "violation_key \<Rightarrow> violation_key \<Rightarrow> bool" where
  "less_violation_key a b = key_less a b"

definition less_eq_violation_key :: "violation_key \<Rightarrow> violation_key \<Rightarrow> bool" where
  "less_eq_violation_key a b = (a = b \<or> key_less a b)"

instance
proof
  fix x y z :: violation_key
  show "(x < y) = (x \<le> y \<and> \<not> y \<le> x)"
    by (cases x; cases y) (auto simp: less_violation_key_def less_eq_violation_key_def key_less_def)
  show "x \<le> x" by (simp add: less_eq_violation_key_def)
  show "x \<le> y \<Longrightarrow> y \<le> z \<Longrightarrow> x \<le> z"
    by (cases x; cases y; cases z)
      (auto simp: less_eq_violation_key_def key_less_def split: if_splits)
  show "x \<le> y \<Longrightarrow> y \<le> x \<Longrightarrow> x = y"
    by (cases x; cases y) (auto simp: less_eq_violation_key_def key_less_def split: if_splits)
  show "x \<le> y \<or> y \<le> x"
    by (cases x; cases y) (auto simp: less_eq_violation_key_def key_less_def)
qed

end

text \<open>\<^verbatim>\<open>sortKeys\<close>: the order is total, so \<^verbatim>\<open>sort.Slice\<close> has one possible result.\<close>

definition sortKeys :: "violation_key list \<Rightarrow> violation_key list" where
  "sortKeys keys = sort keys"

lemma sortKeys_simps [simp]:
  "set (sortKeys ks) = set ks" "distinct (sortKeys ks) = distinct ks" "sorted (sortKeys ks)"
  "mset (sortKeys ks) = mset ks" "length (sortKeys ks) = length ks" "sortKeys [] = []"
  by (simp_all add: sortKeys_def)

end
