(* ===== verification/Stack.thy ===== *)
theory Stack
  imports Prelude
begin

text \<open>
  Stack capture (stack.go). \<open>runtime.Callers\<close> belongs to the Go runtime: the frames above
  \<^verbatim>\<open>captureStack\<close>, innermost first, are an argument. What the function does with them, which
  frames are skipped and how many are kept, is modelled in full.
\<close>

record stack_frame =
  sf_Function :: string
  sf_File :: string
  sf_Line :: int

definition modulePath :: string where
  "modulePath = ''github.com/moznion/go-txnpure''"

definition isInternalFrame :: "stack_frame \<Rightarrow> bool" where
  "isInternalFrame f =
     (if has_suffix (sf_File f) ''_test.go'' then False
      else has_prefix (sf_Function f) (modulePath @ ''.'')
        \<or> has_prefix (sf_Function f) (modulePath @ ''/''))"

text \<open>The loop over \<^verbatim>\<open>frames.Next()\<close>: \<open>more\<close> is whether a frame follows.\<close>

fun captureStack_loop :: "nat \<Rightarrow> bool \<Rightarrow> stack_frame list \<Rightarrow> stack_frame list \<Rightarrow> stack_frame list" where
  "captureStack_loop depth skipping out [] = out"
| "captureStack_loop depth skipping out (f # fs) =
     (if skipping \<and> isInternalFrame f then
        (if fs = [] then out else captureStack_loop depth skipping out fs)
      else
        (let out = out @ [f] in
         if depth \<le> length out \<or> fs = [] then out
         else captureStack_loop depth False out fs))"

definition captureStack :: "int \<Rightarrow> stack_frame list \<Rightarrow> stack_frame list" where
  "captureStack depth callers =
     (if depth \<le> 0 then []
      else let pcs = take (nat depth + 16) callers in
        if pcs = [] then [] else captureStack_loop (nat depth) True [] pcs)"

lemma captureStack_loop_copy:
  "length out < depth \<Longrightarrow>
    captureStack_loop depth False out fs = out @ take (depth - length out) fs"
proof (induction fs arbitrary: out)
  case Nil
  then show ?case by simp
next
  case (Cons f fs)
  then show ?case
    by (cases "depth \<le> Suc (length out)") (auto simp: Let_def take_Cons' Suc_diff_Suc)
qed

lemma captureStack_loop_skip:
  "0 < depth \<Longrightarrow> captureStack_loop depth True [] fs = take depth (dropWhile isInternalFrame fs)"
proof (induction fs)
  case Nil
  then show ?case by simp
next
  case (Cons f fs)
  show ?case
  proof (cases "isInternalFrame f")
    case True
    with Cons show ?thesis by (cases fs) auto
  next
    case False
    with Cons.prems show ?thesis
      by (cases "depth = 1") (auto simp: Let_def captureStack_loop_copy take_Cons')
  qed
qed

lemma captureStack_eq:
  "captureStack depth callers =
     take (nat depth) (dropWhile isInternalFrame (take (nat depth + 16) callers))"
  by (auto simp: captureStack_def captureStack_loop_skip Let_def)

lemma take_dropWhile_head: "case take n (dropWhile P xs) of [] \<Rightarrow> True | f # fs \<Rightarrow> \<not> P f"
proof (induction xs)
  case (Cons x xs)
  then show ?case by (cases n) auto
qed simp

text \<open>
  A captured stack is what follows the leading txnpure frames among the first
  \<^verbatim>\<open>depth + 16\<close> frames of the caller's stack, cut to \<^verbatim>\<open>depth\<close> frames: a contiguous stretch
  of that stack, not longer than asked for, that starts outside txnpure when it is not empty.
\<close>

theorem captureStack_first_external:
  "captureStack depth callers = take (nat depth) (dropWhile isInternalFrame (take (nat depth + 16) callers))
    \<and> length (captureStack depth callers) \<le> nat depth
    \<and> sublist (captureStack depth callers) callers
    \<and> (case captureStack depth callers of [] \<Rightarrow> True | f # fs \<Rightarrow> \<not> isInternalFrame f)"
proof (intro conjI)
  let ?buf = "take (nat depth + 16) callers"
  show "captureStack depth callers = take (nat depth) (dropWhile isInternalFrame ?buf)"
    by (rule captureStack_eq)
  have "suffix (dropWhile isInternalFrame ?buf) ?buf" by (rule suffix_dropWhile)
  then have "sublist (dropWhile isInternalFrame ?buf) callers"
    by (rule sublist_trans[OF suffix_imp_sublist sublist_take])
  then show "sublist (captureStack depth callers) callers"
    unfolding captureStack_eq by (rule sublist_trans[OF sublist_take])
  show "length (captureStack depth callers) \<le> nat depth" by (simp add: captureStack_eq)
  show "case captureStack depth callers of [] \<Rightarrow> True | f # fs \<Rightarrow> \<not> isInternalFrame f"
    unfolding captureStack_eq by (rule take_dropWhile_head)
qed

end
