(* ===== verification/Reports.thy ===== *)
theory Reports
  imports Identity Stack
begin

text \<open>
  What the detector reports (attrs.go, reporter.go): contextual attributes, the
  \<^verbatim>\<open>Violation\<close> and the five optional signals. A \<^verbatim>\<open>time.Time\<close> is its instant in
  nanoseconds. Attribute values have Go's type \<^verbatim>\<open>any\<close> and are only carried.
\<close>

datatype any = AnyString string | AnyInt int | AnyBool bool | AnyPtr nat

record scope_attr =
  sa_Key :: string
  sa_Value :: any

definition Attr :: "string \<Rightarrow> any \<Rightarrow> scope_attr" where
  "Attr key v = \<lparr>sa_Key = key, sa_Value = v\<rparr>"

record violation =
  v_Op :: op
  v_Scope :: string
  v_OpenTxs :: int
  v_Call :: int
  v_AllowedCalls :: "int list"
  v_Stack :: "stack_frame list"
  v_Attrs :: "scope_attr list"
  v_Time :: time

definition violation_key_of :: "violation \<Rightarrow> violation_key" where
  "violation_key_of v = ViolationKey (v_Scope v) (op_kind (v_Op v)) (op_name (v_Op v))"

record unscoped_tx =
  ut_Stack :: "stack_frame list"
  ut_Time :: time

record nested_scope =
  ns_Outer :: string
  ns_Inner :: string
  ns_Time :: time

record leaked_tx =
  lt_Scope :: string
  lt_OpenTxs :: int
  lt_Time :: time

record unscoped_check =
  uc_Op :: op
  uc_Stack :: "stack_frame list"
  uc_Time :: time

record stale_allow =
  st_Scope :: string
  st_Op :: op
  st_Reason :: string
  st_Calls :: int
  st_AllowedCalls :: "int list"

text \<open>The zero \<^verbatim>\<open>Op\<close> and a per-execution \<^verbatim>\<open>StaleAllow\<close>, whose other fields are zero.\<close>

definition zero_op :: op where
  "zero_op = Op [] []"

definition stale_now :: "string \<Rightarrow> op \<Rightarrow> string \<Rightarrow> stale_allow" where
  "stale_now sc oper reason =
     \<lparr>st_Scope = sc, st_Op = oper, st_Reason = reason, st_Calls = 0, st_AllowedCalls = []\<rparr>"

text \<open>One report, as it is handed to a reporter, and the optional interface it needs.\<close>

datatype report =
    RViolation violation
  | RUnscopedTx unscoped_tx
  | RUnscopedCheck unscoped_check
  | RNestedScope nested_scope
  | RLeakedTx leaked_tx
  | RStaleAllow stale_allow

datatype extension =
  ExtUnscopedTx | ExtUnscopedCheck | ExtNestedScope | ExtLeakedTx | ExtStaleAllow

fun needs :: "report \<Rightarrow> extension option" where
  "needs (RViolation v) = None"
| "needs (RUnscopedTx u) = Some ExtUnscopedTx"
| "needs (RUnscopedCheck u) = Some ExtUnscopedCheck"
| "needs (RNestedScope n) = Some ExtNestedScope"
| "needs (RLeakedTx l) = Some ExtLeakedTx"
| "needs (RStaleAllow s) = Some ExtStaleAllow"

lemma needs_cases [simp]:
  "needs r = None \<longleftrightarrow> (\<exists>v. r = RViolation v)"
  "needs r = Some ExtUnscopedTx \<longleftrightarrow> (\<exists>v. r = RUnscopedTx v)"
  "needs r = Some ExtUnscopedCheck \<longleftrightarrow> (\<exists>v. r = RUnscopedCheck v)"
  "needs r = Some ExtNestedScope \<longleftrightarrow> (\<exists>v. r = RNestedScope v)"
  "needs r = Some ExtLeakedTx \<longleftrightarrow> (\<exists>v. r = RLeakedTx v)"
  "needs r = Some ExtStaleAllow \<longleftrightarrow> (\<exists>v. r = RStaleAllow v)"
  by (cases r; simp)+

end
