(* ===== verification/Scope.thy ===== *)
theory Scope
  imports Reports
begin

text \<open>
  The mutable scope holder (detector.go) and its exact-call accounting (allow.go). The
  operations here are the ones that run under the scope's mutex, as functions on the scope
  object. A Go \<^verbatim>\<open>int\<close> that only counts events from zero is an HOL \<open>int\<close>.
\<close>

record call_count =
  cc_n :: int
  cc_declared :: "int list"
  cc_reason :: string

record allow_mark =
  am_reason :: string
  am_counts :: "int list"
  am_n :: int

type_synonym mark_ref = nat
type_synonym scope_ref = nat

record scope =
  sc_name :: string
  sc_attrs :: "scope_attr list"
  sc_openTxs :: int
  sc_finished :: bool
  sc_calls :: "(violation_key \<times> call_count) list"
  sc_marks :: "mark_ref list"

definition new_scope :: "string \<Rightarrow> scope" where
  "new_scope name =
     \<lparr>sc_name = name, sc_attrs = [], sc_openTxs = 0, sc_finished = False, sc_calls = [], sc_marks = []\<rparr>"

subsection \<open>Exact-call declarations\<close>

fun maxCount_loop :: "int \<Rightarrow> int list \<Rightarrow> int" where
  "maxCount_loop m [] = m"
| "maxCount_loop m (c # counts) = maxCount_loop (if c > m then c else m) counts"

definition maxCount :: "int list \<Rightarrow> int" where
  "maxCount counts = maxCount_loop 0 counts"

fun containsCount :: "int list \<Rightarrow> int \<Rightarrow> bool" where
  "containsCount [] n = False"
| "containsCount (c # counts) n = (if c = n then True else containsCount counts n)"

definition coversCalls :: "int list \<Rightarrow> int \<Rightarrow> bool" where
  "coversCalls counts k = (if counts = [] then True else k \<le> maxCount counts)"

lemma maxCount_loop_Max: "maxCount_loop m counts = Max (insert m (set counts))"
proof (induction m counts rule: maxCount_loop.induct)
  case (1 m)
  then show ?case by simp
next
  case (2 m c counts)
  then show ?case by (cases "counts = []") (auto simp: max_def)
qed

lemma maxCount_Max: "maxCount counts = Max (insert 0 (set counts))"
  by (simp add: maxCount_def maxCount_loop_Max)

lemma maxCount_nonneg: "0 \<le> maxCount counts"
  by (simp add: maxCount_Max)

lemma maxCount_ge: "c \<in> set counts \<Longrightarrow> c \<le> maxCount counts"
  by (simp add: maxCount_Max)

lemma maxCount_Nil [simp]: "maxCount [] = 0"
  by (simp add: maxCount_def)

lemma containsCount_iff [simp]: "containsCount counts n \<longleftrightarrow> n \<in> set counts"
  by (induction counts) auto

lemma coversCalls_mono: "coversCalls counts k \<Longrightarrow> j \<le> k \<Longrightarrow> coversCalls counts j"
  by (auto simp: coversCalls_def split: if_splits)

subsection \<open>Counting events\<close>

definition bumpCall :: "violation_key \<Rightarrow> scope \<Rightarrow> int \<times> scope" where
  "bumpCall key s =
     (let c = (case map_of (sc_calls s) key of
                 None \<Rightarrow> \<lparr>cc_n = 0, cc_declared = [], cc_reason = []\<rparr>
               | Some c \<Rightarrow> c);
          c = c\<lparr>cc_n := cc_n c + 1\<rparr>
      in (cc_n c, s\<lparr>sc_calls := map_put key c (sc_calls s)\<rparr>))"

definition noteDeclared :: "violation_key \<Rightarrow> int list \<Rightarrow> string \<Rightarrow> scope \<Rightarrow> scope" where
  "noteDeclared key counts reason s =
     (if counts = [] then s
      else case map_of (sc_calls s) key of
        Some c \<Rightarrow>
          s\<lparr>sc_calls := map_put key (c\<lparr>cc_declared := counts, cc_reason := reason\<rparr>) (sc_calls s)\<rparr>
      | None \<Rightarrow> s)"

definition registerMark :: "mark_ref \<Rightarrow> scope \<Rightarrow> scope" where
  "registerMark m s = s\<lparr>sc_marks := sc_marks s @ [m]\<rparr>"

text \<open>How often an identity was counted, and the declaration last consulted for it.\<close>

definition calls_of :: "scope \<Rightarrow> violation_key \<Rightarrow> int" where
  "calls_of s key = (case map_of (sc_calls s) key of None \<Rightarrow> 0 | Some c \<Rightarrow> cc_n c)"

definition declared_of :: "scope \<Rightarrow> violation_key \<Rightarrow> int list" where
  "declared_of s key = (case map_of (sc_calls s) key of None \<Rightarrow> [] | Some c \<Rightarrow> cc_declared c)"

definition reason_of :: "scope \<Rightarrow> violation_key \<Rightarrow> string" where
  "reason_of s key = (case map_of (sc_calls s) key of None \<Rightarrow> [] | Some c \<Rightarrow> cc_reason c)"

text \<open>The calls map is well formed: one entry per key, and every entry was counted.\<close>

definition calls_ok :: "scope \<Rightarrow> bool" where
  "calls_ok s \<longleftrightarrow> map_ok (sc_calls s) \<and> (\<forall>key c. map_of (sc_calls s) key = Some c \<longrightarrow> 1 \<le> cc_n c)"

lemma calls_ok_new [simp]: "calls_ok (new_scope name)"
  by (simp add: calls_ok_def new_scope_def)

lemma calls_ok_bump [simp]: "calls_ok s \<Longrightarrow> calls_ok (snd (bumpCall key s))"
  by (auto simp: calls_ok_def bumpCall_def Let_def split: option.splits) force

lemma calls_ok_note [simp]: "calls_ok s \<Longrightarrow> calls_ok (noteDeclared key counts reason s)"
  by (auto simp: calls_ok_def noteDeclared_def split: option.splits)

lemma calls_ok_register [simp]: "calls_ok (registerMark m s) = calls_ok s"
  by (simp add: calls_ok_def registerMark_def)

lemma fst_bumpCall [simp]: "fst (bumpCall key s) = calls_of s key + 1"
  by (simp add: bumpCall_def calls_of_def Let_def split: option.split)

lemma calls_of_bump [simp]:
  "calls_of (snd (bumpCall key s)) = (calls_of s)(key := calls_of s key + 1)"
  by (auto simp: bumpCall_def calls_of_def Let_def fun_eq_iff split: option.split)

lemma calls_of_note [simp]: "calls_of (noteDeclared key counts reason s) = calls_of s"
  by (auto simp: noteDeclared_def calls_of_def fun_eq_iff split: option.split)

lemma declared_of_bump [simp]: "declared_of (snd (bumpCall key s)) = declared_of s"
  by (auto simp: bumpCall_def declared_of_def Let_def fun_eq_iff split: option.split)

lemma declared_of_note:
  "calls_ok s \<Longrightarrow> 1 \<le> calls_of s key \<Longrightarrow>
    declared_of (noteDeclared key counts reason s)
      = (if counts = [] then declared_of s else (declared_of s)(key := counts))"
  by (auto simp: noteDeclared_def declared_of_def calls_of_def fun_eq_iff split: option.splits)

lemma scope_fields_bump [simp, txn_frame]:
  "sc_name (snd (bumpCall key s)) = sc_name s" "sc_attrs (snd (bumpCall key s)) = sc_attrs s"
  "sc_openTxs (snd (bumpCall key s)) = sc_openTxs s"
  "sc_finished (snd (bumpCall key s)) = sc_finished s"
  "sc_marks (snd (bumpCall key s)) = sc_marks s"
  by (simp_all add: bumpCall_def Let_def)

lemma scope_fields_note [simp, txn_frame]:
  "sc_name (noteDeclared key counts reason s) = sc_name s"
  "sc_attrs (noteDeclared key counts reason s) = sc_attrs s"
  "sc_openTxs (noteDeclared key counts reason s) = sc_openTxs s"
  "sc_finished (noteDeclared key counts reason s) = sc_finished s"
  "sc_marks (noteDeclared key counts reason s) = sc_marks s"
  by (simp_all add: noteDeclared_def split: option.split)

lemma scope_fields_register [simp, txn_frame]:
  "sc_name (registerMark m s) = sc_name s" "sc_attrs (registerMark m s) = sc_attrs s"
  "sc_openTxs (registerMark m s) = sc_openTxs s" "sc_finished (registerMark m s) = sc_finished s"
  "sc_calls (registerMark m s) = sc_calls s"
  by (simp_all add: registerMark_def)

subsection \<open>Shortfalls\<close>

text \<open>
  What \<^verbatim>\<open>reportCallShortfalls\<close> collects under the mutex: the declared identities in sorted
  order, then the counted regions in creation order. \<open>marks\<close> is the store of allow regions.
\<close>

definition key_shortfall :: "scope \<Rightarrow> violation_key \<Rightarrow> stale_allow list" where
  "key_shortfall s key =
     (case map_of (sc_calls s) key of
        None \<Rightarrow> []
      | Some c \<Rightarrow>
          if cc_n c \<le> maxCount (cc_declared c) \<and> \<not> containsCount (cc_declared c) (cc_n c)
          then [\<lparr>st_Scope = sc_name s, st_Op = Op (vk_kind key) (vk_name key),
                 st_Reason = cc_reason c, st_Calls = cc_n c, st_AllowedCalls = cc_declared c\<rparr>]
          else [])"

definition mark_shortfall :: "scope \<Rightarrow> allow_mark \<Rightarrow> stale_allow list" where
  "mark_shortfall s m =
     (if am_n m \<le> maxCount (am_counts m) \<and> \<not> containsCount (am_counts m) (am_n m)
      then [\<lparr>st_Scope = sc_name s, st_Op = zero_op, st_Reason = am_reason m,
             st_Calls = am_n m, st_AllowedCalls = am_counts m\<rparr>]
      else [])"

definition call_shortfalls :: "(mark_ref \<Rightarrow> allow_mark) \<Rightarrow> scope \<Rightarrow> stale_allow list" where
  "call_shortfalls marks s =
     (if sc_calls s = [] \<and> sc_marks s = [] then []
      else
        (let keys = sortKeys (keys_where (\<lambda>c. cc_declared c \<noteq> []) (sc_calls s)) in
         concat (map (key_shortfall s) keys)
           @ concat (map (\<lambda>r. mark_shortfall s (marks r)) (sc_marks s))))"

text \<open>When a declaration is not lived up to: a total below the largest count and not listed.\<close>

definition misses_counts :: "int list \<Rightarrow> int \<Rightarrow> bool" where
  "misses_counts counts n \<longleftrightarrow> counts \<noteq> [] \<and> n \<le> maxCount counts \<and> n \<notin> set counts"

definition stale_key :: "scope \<Rightarrow> violation_key \<Rightarrow> stale_allow" where
  "stale_key s key =
     \<lparr>st_Scope = sc_name s, st_Op = Op (vk_kind key) (vk_name key), st_Reason = reason_of s key,
      st_Calls = calls_of s key, st_AllowedCalls = declared_of s key\<rparr>"

definition missed_keys :: "scope \<Rightarrow> violation_key set" where
  "missed_keys s = {key. misses_counts (declared_of s key) (calls_of s key)}"

lemma missed_keys_finite: "finite (missed_keys s)"
proof (rule finite_subset)
  show "missed_keys s \<subseteq> dom (map_of (sc_calls s))"
    by (auto simp: missed_keys_def misses_counts_def declared_of_def split: option.splits)
qed (rule finite_dom_map_of)

lemma key_shortfall_alt:
  assumes "declared_of s key \<noteq> []"
  shows "key_shortfall s key = (if key \<in> missed_keys s then [stale_key s key] else [])"
  using assms
  by (auto simp: key_shortfall_def missed_keys_def misses_counts_def stale_key_def
      declared_of_def calls_of_def reason_of_def split: option.splits)

lemma declared_keys:
  assumes "calls_ok s"
  shows "set (keys_where (\<lambda>c. cc_declared c \<noteq> []) (sc_calls s)) = {key. declared_of s key \<noteq> []}"
  using assms by (auto simp: set_keys_where calls_ok_def declared_of_def split: option.splits)

lemma concat_singletons:
  "concat (map (\<lambda>x. if P x then [f x] else []) xs) = map f (filter P xs)"
  by (induction xs) auto

lemma sorted_filter_set:
  "sorted xs \<Longrightarrow> distinct xs \<Longrightarrow> filter P xs = sorted_list_of_set {x \<in> set xs. P x}"
  by (rule sorted_list_eqI) (simp_all add: sorted_wrt_filter)

lemma call_shortfalls_eq:
  assumes "calls_ok s"
  shows "call_shortfalls marks s =
    map (stale_key s) (sorted_list_of_set (missed_keys s))
      @ concat (map (\<lambda>r. mark_shortfall s (marks r)) (sc_marks s))"
proof -
  let ?keys = "sortKeys (keys_where (\<lambda>c. cc_declared c \<noteq> []) (sc_calls s))"
  have ks: "set ?keys = {key. declared_of s key \<noteq> []}" "distinct ?keys" "sorted ?keys"
    using assms declared_keys[OF assms] by (simp_all add: distinct_keys_where calls_ok_def)
  have "concat (map (key_shortfall s) ?keys)
      = concat (map (\<lambda>k. if k \<in> missed_keys s then [stale_key s k] else []) ?keys)"
    by (rule arg_cong[where f = concat], rule map_cong[OF refl], rule key_shortfall_alt)
      (use ks(1) in blast)
  also have "\<dots> = map (stale_key s) (filter (\<lambda>k. k \<in> missed_keys s) ?keys)"
    by (rule concat_singletons)
  also have "filter (\<lambda>k. k \<in> missed_keys s) ?keys = sorted_list_of_set {k \<in> set ?keys. k \<in> missed_keys s}"
    by (rule sorted_filter_set[OF ks(3,2)])
  also have "{k \<in> set ?keys. k \<in> missed_keys s} = missed_keys s"
    unfolding ks(1) by (auto simp: missed_keys_def misses_counts_def)
  finally have keys: "concat (map (key_shortfall s) ?keys)
    = map (stale_key s) (sorted_list_of_set (missed_keys s))" .
  show ?thesis
  proof (cases "sc_calls s = [] \<and> sc_marks s = []")
    case True
    then have "missed_keys s = {}"
      by (auto simp: missed_keys_def misses_counts_def declared_of_def)
    with True show ?thesis by (simp add: call_shortfalls_def)
  next
    case False
    with keys show ?thesis by (auto simp: call_shortfalls_def Let_def)
  qed
qed

end
