(* ===== verification/Ledger.thy ===== *)
theory Ledger
  imports Identity
begin

text \<open>
  The contract \<^verbatim>\<open>Allowlist\<close> and \<^verbatim>\<open>Baseline\<close> share: a set of registered keys, each with a
  mark whether it ever suppressed a violation. A query either resolves to a registered key,
  then it is suppressed and that key marked, or it is let through and nothing changes. The
  client here is a CI run, a sequence of queries followed by \<^verbatim>\<open>UnusedEntries\<close>.
\<close>

locale ledger =
  fixes invar :: "'l \<Rightarrow> bool"
    and used_of :: "'l \<Rightarrow> violation_key \<Rightarrow> bool option"
    and resolve :: "'l \<Rightarrow> 'q \<Rightarrow> violation_key option"
    and suppress :: "'q \<Rightarrow> 'l \<Rightarrow> bool \<times> 'l"
    and unused :: "'l \<Rightarrow> violation_key list"
  assumes suppress_verdict: "invar l \<Longrightarrow> fst (suppress q l) \<longleftrightarrow> resolve l q \<noteq> None"
    and suppress_marks: "invar l \<Longrightarrow> used_of (snd (suppress q l)) =
      (case resolve l q of None \<Rightarrow> used_of l | Some k \<Rightarrow> (used_of l)(k \<mapsto> True))"
    and suppress_resolve: "invar l \<Longrightarrow> resolve (snd (suppress q l)) = resolve l"
    and suppress_invar: "invar l \<Longrightarrow> invar (snd (suppress q l))"
    and resolve_registered: "invar l \<Longrightarrow> resolve l q = Some k \<Longrightarrow> used_of l k \<noteq> None"
    and unused_spec: "invar l \<Longrightarrow>
      sorted (unused l) \<and> distinct (unused l) \<and> set (unused l) = {k. used_of l k = Some False}"
begin

fun run :: "'q list \<Rightarrow> 'l \<Rightarrow> bool list \<times> 'l" where
  "run [] l = ([], l)"
| "run (q # qs) l =
     (case suppress q l of (hit, l') \<Rightarrow> case run qs l' of (hits, l'') \<Rightarrow> (hit # hits, l''))"

definition touched :: "'l \<Rightarrow> 'q list \<Rightarrow> violation_key set" where
  "touched l qs = {k. \<exists>q \<in> set qs. resolve l q = Some k}"

lemma run_spec:
  "invar l \<Longrightarrow>
     fst (run qs l) = map (\<lambda>q. resolve l q \<noteq> None) qs
     \<and> invar (snd (run qs l)) \<and> resolve (snd (run qs l)) = resolve l
     \<and> used_of (snd (run qs l)) = (\<lambda>k. if k \<in> touched l qs then Some True else used_of l k)"
proof (induction qs arbitrary: l)
  case Nil
  then show ?case by (simp add: touched_def)
next
  case (Cons q qs)
  obtain hit l' where s: "suppress q l = (hit, l')" by (cases "suppress q l") auto
  have l': "invar l'" "resolve l' = resolve l" "hit \<longleftrightarrow> resolve l q \<noteq> None"
    "used_of l' = (case resolve l q of None \<Rightarrow> used_of l | Some k \<Rightarrow> (used_of l)(k \<mapsto> True))"
    using Cons.prems suppress_invar[of l q] suppress_resolve[of l q] suppress_verdict[of l q]
      suppress_marks[of l q] s by simp_all
  have "used_of (snd (run qs l')) = (\<lambda>k. if k \<in> touched l (q # qs) then Some True else used_of l k)"
    using Cons.IH[OF l'(1)] l' by (auto simp: touched_def fun_eq_iff split: option.split)
  then show ?case
    using Cons.IH[OF l'(1)] l'(1-3) s by (simp add: case_prod_unfold)
qed

lemma unused_run:
  assumes "invar l"
  shows "unused (snd (run qs l)) = filter (\<lambda>k. k \<notin> touched l qs) (unused l)"
proof (rule sorted_distinct_set_unique)
  have r: "invar (snd (run qs l))"
    "used_of (snd (run qs l)) = (\<lambda>k. if k \<in> touched l qs then Some True else used_of l k)"
    using run_spec[OF assms, of qs] by simp_all
  show "set (unused (snd (run qs l))) = set (filter (\<lambda>k. k \<notin> touched l qs) (unused l))"
    using unused_spec[OF r(1)] unused_spec[OF assms] r(2) by auto
  show "sorted (unused (snd (run qs l)))" "distinct (unused (snd (run qs l)))"
    using unused_spec[OF r(1)] by simp_all
  show "sorted (filter (\<lambda>k. k \<notin> touched l qs) (unused l))"
    "distinct (filter (\<lambda>k. k \<notin> touched l qs) (unused l))"
    using unused_spec[OF assms] by (simp_all add: sorted_wrt_filter)
qed

lemma run_verdicts: "invar l \<Longrightarrow> fst (run qs l) = map (\<lambda>q. resolve l q \<noteq> None) qs"
  using run_spec by blast

end

end
