(* ===== verification/Allowlist.thy ===== *)
theory Allowlist
  imports Scope Ledger
begin

text \<open>
  The central allowlist (allowlist.go): a Go map from \<^verbatim>\<open>ViolationKey\<close> to an entry with a
  reason, optional exact counts and a used mark. Every operation takes the list and returns
  it updated, as it runs under the list's mutex.
\<close>

definition AnyScope :: string where
  "AnyScope = ''*''"

record allowlist_entry =
  ae_reason :: string
  ae_counts :: "int list"
  ae_used :: bool

type_synonym allowlist = "(violation_key \<times> allowlist_entry) list"

definition NewAllowlist :: allowlist where
  "NewAllowlist = []"

definition allowlist_Add :: "string \<Rightarrow> op \<Rightarrow> string \<Rightarrow> int list \<Rightarrow> allowlist \<Rightarrow> allowlist" where
  "allowlist_Add sc oper reason exactCalls a =
     (let e = \<lparr>ae_reason = reason, ae_counts = [], ae_used = False\<rparr>;
          e = (if exactCalls \<noteq> [] then e\<lparr>ae_counts := exactCalls\<rparr> else e)
      in map_put (ViolationKey sc (op_kind oper) (op_name oper)) e a)"

text \<open>The entry consulted for a pair: the exact scope first, then the wildcard.\<close>

definition lookup_entry :: "allowlist \<Rightarrow> string \<Rightarrow> op \<Rightarrow> (violation_key \<times> allowlist_entry) option" where
  "lookup_entry a sc oper =
     (case map_of a (ViolationKey sc (op_kind oper) (op_name oper)) of
        Some e \<Rightarrow> Some (ViolationKey sc (op_kind oper) (op_name oper), e)
      | None \<Rightarrow>
          (case map_of a (ViolationKey AnyScope (op_kind oper) (op_name oper)) of
             Some e \<Rightarrow> Some (ViolationKey AnyScope (op_kind oper) (op_name oper), e)
           | None \<Rightarrow> None))"

record allow_decision =
  ad_covered :: bool
  ad_counts :: "int list"
  ad_reason :: string
  ad_present :: bool

definition allowlist_decide :: "string \<Rightarrow> op \<Rightarrow> int \<Rightarrow> allowlist \<Rightarrow> allow_decision \<times> allowlist" where
  "allowlist_decide sc oper k a =
     (case lookup_entry a sc oper of
        None \<Rightarrow> (\<lparr>ad_covered = False, ad_counts = [], ad_reason = [], ad_present = False\<rparr>, a)
      | Some (key, e) \<Rightarrow>
          if coversCalls (ae_counts e) k then
            (\<lparr>ad_covered = True, ad_counts = ae_counts e, ad_reason = ae_reason e, ad_present = True\<rparr>,
             map_put key (e\<lparr>ae_used := True\<rparr>) a)
          else
            (\<lparr>ad_covered = False, ad_counts = ae_counts e, ad_reason = ae_reason e, ad_present = True\<rparr>,
             a))"

definition allowlist_UnusedEntries :: "allowlist \<Rightarrow> violation_key list" where
  "allowlist_UnusedEntries a = sortKeys (keys_where (\<lambda>e. \<not> ae_used e) a)"

subsection \<open>The allowlist as a ledger\<close>

definition allowlist_used_of :: "allowlist \<Rightarrow> violation_key \<Rightarrow> bool option" where
  "allowlist_used_of a k = map_option ae_used (map_of a k)"

text \<open>A query is the k-th in-transaction call of a (scope, op) pair.\<close>

type_synonym allow_query = "string \<times> op \<times> int"

definition allowlist_resolve :: "allowlist \<Rightarrow> allow_query \<Rightarrow> violation_key option" where
  "allowlist_resolve a q =
     (case q of (sc, oper, k) \<Rightarrow>
        case lookup_entry a sc oper of
          None \<Rightarrow> None
        | Some (key, e) \<Rightarrow> if coversCalls (ae_counts e) k then Some key else None)"

definition allowlist_suppress :: "allow_query \<Rightarrow> allowlist \<Rightarrow> bool \<times> allowlist" where
  "allowlist_suppress q a =
     (case q of (sc, oper, k) \<Rightarrow>
        case allowlist_decide sc oper k a of (d, a') \<Rightarrow> (ad_present d \<and> ad_covered d, a'))"

lemma lookup_entry_map: "lookup_entry a sc oper = Some (key, e) \<Longrightarrow> map_of a key = Some e"
  by (auto simp: lookup_entry_def split: option.splits)

lemma map_ok_decide [simp]: "map_ok a \<Longrightarrow> map_ok (snd (allowlist_decide sc oper k a))"
  by (auto simp: allowlist_decide_def split: option.split)

lemma map_ok_Add [simp]: "map_ok a \<Longrightarrow> map_ok (allowlist_Add sc oper reason counts a)"
  by (simp add: allowlist_Add_def Let_def)

lemma map_ok_NewAllowlist [simp]: "map_ok NewAllowlist"
  by (simp add: NewAllowlist_def)

lemma lookup_entry_used:
  assumes "map_of a key = Some e"
  shows "lookup_entry (map_put key (e\<lparr>ae_used := True\<rparr>) a) sc oper =
    (case lookup_entry a sc oper of None \<Rightarrow> None
     | Some (k, e') \<Rightarrow> Some (k, if k = key then e\<lparr>ae_used := True\<rparr> else e'))"
  using assms by (auto simp: lookup_entry_def split: option.split)

lemma allowlist_suppress_verdict: "fst (allowlist_suppress q a) \<longleftrightarrow> allowlist_resolve a q \<noteq> None"
  by (auto simp: allowlist_suppress_def allowlist_resolve_def allowlist_decide_def
      split: prod.split option.split)

lemma allowlist_suppress_state:
  "snd (allowlist_suppress q a) =
     (case allowlist_resolve a q of None \<Rightarrow> a
      | Some k \<Rightarrow> (case map_of a k of None \<Rightarrow> a | Some e \<Rightarrow> map_put k (e\<lparr>ae_used := True\<rparr>) a))"
  by (auto simp: allowlist_suppress_def allowlist_resolve_def allowlist_decide_def
      split: prod.split option.split dest: lookup_entry_map)

lemma allowlist_resolve_registered:
  "allowlist_resolve a q = Some k \<Longrightarrow> \<exists>e. map_of a k = Some e"
  by (auto simp: allowlist_resolve_def split: prod.splits option.splits if_splits dest: lookup_entry_map)

lemma allowlist_resolve_put:
  assumes "map_of a key = Some e"
  shows "allowlist_resolve (map_put key (e\<lparr>ae_used := True\<rparr>) a) = allowlist_resolve a"
  using assms
  by (auto simp: allowlist_resolve_def lookup_entry_used fun_eq_iff split: option.split prod.split
      dest: lookup_entry_map)

interpretation al: ledger map_ok allowlist_used_of allowlist_resolve allowlist_suppress
  allowlist_UnusedEntries
proof
  fix a :: allowlist and q :: allow_query and k :: violation_key
  assume ok: "map_ok a"
  show "fst (allowlist_suppress q a) = (allowlist_resolve a q \<noteq> None)"
    by (rule allowlist_suppress_verdict)
  show "allowlist_used_of (snd (allowlist_suppress q a)) =
      (case allowlist_resolve a q of None \<Rightarrow> allowlist_used_of a
       | Some k \<Rightarrow> (allowlist_used_of a)(k \<mapsto> True))"
    unfolding allowlist_suppress_state
    by (auto simp: allowlist_used_of_def fun_eq_iff split: option.split
        dest: allowlist_resolve_registered)
  show "allowlist_resolve (snd (allowlist_suppress q a)) = allowlist_resolve a"
    unfolding allowlist_suppress_state by (simp add: allowlist_resolve_put split: option.split)
  show "map_ok (snd (allowlist_suppress q a))"
    unfolding allowlist_suppress_state using ok by (simp split: option.split)
  show "allowlist_resolve a q = Some k \<Longrightarrow> allowlist_used_of a k \<noteq> None"
    by (auto simp: allowlist_used_of_def dest: allowlist_resolve_registered)
  show "sorted (allowlist_UnusedEntries a) \<and> distinct (allowlist_UnusedEntries a) \<and>
      set (allowlist_UnusedEntries a) = {k. allowlist_used_of a k = Some False}"
    using ok by (auto simp: allowlist_UnusedEntries_def allowlist_used_of_def distinct_keys_where
        set_keys_where)
qed

subsection \<open>Properties\<close>

text \<open>A CI run: the decisions of a sequence of in-transaction calls, and the list after it.\<close>

fun allowlist_run :: "allow_query list \<Rightarrow> allowlist \<Rightarrow> bool list \<times> allowlist" where
  "allowlist_run [] a = ([], a)"
| "allowlist_run ((sc, oper, k) # qs) a =
     (case allowlist_decide sc oper k a of (d, a') \<Rightarrow>
        case allowlist_run qs a' of (ds, a'') \<Rightarrow> ((ad_present d \<and> ad_covered d) # ds, a''))"

lemma allowlist_suppress_apply:
  "allowlist_suppress (sc, oper, k) a =
     (ad_present (fst (allowlist_decide sc oper k a)) \<and> ad_covered (fst (allowlist_decide sc oper k a)),
      snd (allowlist_decide sc oper k a))"
  by (simp add: allowlist_suppress_def case_prod_unfold)

lemma allowlist_run_ledger: "allowlist_run qs a = al.run qs a"
proof (induction qs arbitrary: a)
  case Nil
  then show ?case by simp
next
  case (Cons q qs)
  obtain sc oper k where "q = (sc, oper, k)" by (cases q)
  with Cons show ?case
    by (cases "allowlist_decide sc oper k a") (simp add: allowlist_suppress_apply)
qed

text \<open>
  C33. Over any run, a call is suppressed exactly when the list as it was configured covers
  it: the marks left by earlier calls never change a later decision. The entries still
  unused at the end are exactly the unused ones that no covered call resolved to, in sorted
  order.
\<close>

theorem allowlist_run_spec:
  assumes "map_ok a"
  shows "fst (allowlist_run qs a) = map (\<lambda>q. allowlist_resolve a q \<noteq> None) qs
    \<and> allowlist_UnusedEntries (snd (allowlist_run qs a)) =
        filter (\<lambda>key. \<forall>q. q \<in> set qs \<longrightarrow> allowlist_resolve a q \<noteq> Some key) (allowlist_UnusedEntries a)"
  using al.run_verdicts[OF assms, of qs] al.unused_run[OF assms, of qs]
  by (auto simp: allowlist_run_ledger al.touched_def intro!: filter_cong)

theorem allowlist_run_spec_witness:
  "let a = allowlist_Add ''S'' (Op ''db'' ''t'') ''why'' [1] (allowlist_Add ''S'' (Op ''mail'' ''m'') ''why'' [] NewAllowlist);
       qs = [(''S'', Op ''db'' ''t'', 1), (''S'', Op ''db'' ''t'', 2)]
   in map_ok a \<and> fst (allowlist_run qs a) = [True, False]
      \<and> allowlist_UnusedEntries (snd (allowlist_run qs a)) = [ViolationKey ''S'' ''mail'' ''m'']"
proof -
  define a where "a = allowlist_Add ''S'' (Op ''db'' ''t'') ''why'' [1] (allowlist_Add ''S'' (Op ''mail'' ''m'') ''why'' [] NewAllowlist)"
  define qs :: "allow_query list" where "qs = [(''S'', Op ''db'' ''t'', 1), (''S'', Op ''db'' ''t'', 2)]"
  have ok: "map_ok a" by (simp add: a_def)
  note ev = a_def allowlist_Add_def NewAllowlist_def
  have res: "allowlist_resolve a (''S'', Op ''db'' ''t'', 1) = Some (ViolationKey ''S'' ''db'' ''t'')"
    "allowlist_resolve a (''S'', Op ''db'' ''t'', 2) = None"
    by (simp_all add: ev allowlist_resolve_def lookup_entry_def coversCalls_def maxCount_def AnyScope_def)
  have "allowlist_UnusedEntries a = [ViolationKey ''S'' ''db'' ''t'', ViolationKey ''S'' ''mail'' ''m'']"
    by (simp add: ev allowlist_UnusedEntries_def sortKeys_def map_put_def less_eq_violation_key_def
        key_less_def)
  then have "fst (allowlist_run qs a) = [True, False]
    \<and> allowlist_UnusedEntries (snd (allowlist_run qs a)) = [ViolationKey ''S'' ''mail'' ''m'']"
    unfolding conjunct1[OF allowlist_run_spec[OF ok, of qs]] conjunct2[OF allowlist_run_spec[OF ok, of qs]]
    by (simp add: qs_def res)
  with ok show ?thesis unfolding a_def qs_def Let_def by blast
qed

text \<open>
  The wildcard scope is consulted only when the exact scope has no entry, an exact entry
  that declines a call is not overruled by a wildcard, and a declined call leaves the list
  unchanged.
\<close>

theorem allowlist_exact_before_wildcard:
  assumes "map_of a (key_for sc oper) = Some e"
  shows "allowlist_decide sc oper k a =
    (\<lparr>ad_covered = coversCalls (ae_counts e) k, ad_counts = ae_counts e, ad_reason = ae_reason e,
      ad_present = True\<rparr>,
     if coversCalls (ae_counts e) k then map_put (key_for sc oper) (e\<lparr>ae_used := True\<rparr>) a else a)"
  using assms by (auto simp: allowlist_decide_def lookup_entry_def key_for_def)

theorem allowlist_exact_before_wildcard_witness:
  "allowlist_decide ''S'' (Op ''db'' ''t'') 2
     (allowlist_Add AnyScope (Op ''db'' ''t'') ''all'' [] (allowlist_Add ''S'' (Op ''db'' ''t'') ''one'' [1] NewAllowlist))
   = (\<lparr>ad_covered = False, ad_counts = [1], ad_reason = ''one'', ad_present = True\<rparr>,
      allowlist_Add AnyScope (Op ''db'' ''t'') ''all'' [] (allowlist_Add ''S'' (Op ''db'' ''t'') ''one'' [1] NewAllowlist))"
proof -
  have "map_of (allowlist_Add AnyScope (Op ''db'' ''t'') ''all'' [] (allowlist_Add ''S'' (Op ''db'' ''t'') ''one'' [1] NewAllowlist))
      (key_for ''S'' (Op ''db'' ''t'')) = Some \<lparr>ae_reason = ''one'', ae_counts = [1], ae_used = False\<rparr>"
    by (simp add: allowlist_Add_def key_for_def AnyScope_def NewAllowlist_def)
  from allowlist_exact_before_wildcard[OF this, of 2] show ?thesis
    by (simp add: coversCalls_def maxCount_def)
qed

end
