(* ===== verification/Baseline.thy ===== *)
theory Baseline
  imports Reports Ledger
begin

text \<open>
  The baseline ratchet (baseline.go): a Go map from \<^verbatim>\<open>ViolationKey\<close> to whether the entry
  suppressed a violation. \<open>BaselineFile\<close> models the file it is saved to.
\<close>

type_synonym baseline = "(violation_key \<times> bool) list"

definition NewBaseline :: baseline where
  "NewBaseline = []"

definition BaselineFromViolations :: "violation list \<Rightarrow> baseline" where
  "BaselineFromViolations vs = foldl (\<lambda>b v. map_put (violation_key_of v) False b) NewBaseline vs"

definition baseline_Add :: "string \<Rightarrow> op \<Rightarrow> baseline \<Rightarrow> baseline" where
  "baseline_Add sc oper b =
     (let k = ViolationKey sc (op_kind oper) (op_name oper) in
      case map_of b k of None \<Rightarrow> map_put k False b | Some u \<Rightarrow> b)"

definition baseline_Entries :: "baseline \<Rightarrow> violation_key list" where
  "baseline_Entries b = sortKeys (keys_where (\<lambda>u. True) b)"

definition baseline_covers :: "violation_key \<Rightarrow> baseline \<Rightarrow> bool \<times> baseline" where
  "baseline_covers k b =
     (case map_of b k of None \<Rightarrow> (False, b) | Some u \<Rightarrow> (True, map_put k True b))"

definition baseline_UnusedEntries :: "baseline \<Rightarrow> violation_key list" where
  "baseline_UnusedEntries b = sortKeys (keys_where (\<lambda>u. \<not> u) b)"

definition baseline_resolve :: "baseline \<Rightarrow> violation_key \<Rightarrow> violation_key option" where
  "baseline_resolve b k = (if map_of b k = None then None else Some k)"

lemma baseline_resolve_put: "map_of b k = Some u \<Longrightarrow> baseline_resolve (map_put k True b) = baseline_resolve b"
  by (auto simp: baseline_resolve_def fun_eq_iff)

interpretation bl: ledger map_ok map_of baseline_resolve baseline_covers baseline_UnusedEntries
proof
  fix b :: baseline and q k :: violation_key
  assume ok: "map_ok b"
  show "fst (baseline_covers q b) = (baseline_resolve b q \<noteq> None)"
    by (simp add: baseline_covers_def baseline_resolve_def split: option.split)
  show "map_of (snd (baseline_covers q b)) =
      (case baseline_resolve b q of None \<Rightarrow> map_of b | Some k \<Rightarrow> (map_of b)(k \<mapsto> True))"
    by (auto simp: baseline_covers_def baseline_resolve_def split: option.split)
  show "baseline_resolve (snd (baseline_covers q b)) = baseline_resolve b"
    by (auto simp: baseline_covers_def baseline_resolve_put split: option.split)
  show "map_ok (snd (baseline_covers q b))"
    using ok by (simp add: baseline_covers_def split: option.split)
  show "baseline_resolve b q = Some k \<Longrightarrow> map_of b k \<noteq> None"
    by (simp add: baseline_resolve_def split: if_splits)
  show "sorted (baseline_UnusedEntries b) \<and> distinct (baseline_UnusedEntries b)
      \<and> set (baseline_UnusedEntries b) = {k. map_of b k = Some False}"
    using ok by (auto simp: baseline_UnusedEntries_def distinct_keys_where set_keys_where)
qed

lemma BaselineFromViolations_foldl:
  "map_ok b \<Longrightarrow> map_ok (foldl (\<lambda>b v. map_put (violation_key_of v) False b) b vs)
     \<and> map_of (foldl (\<lambda>b v. map_put (violation_key_of v) False b) b vs)
        = (\<lambda>k. if k \<in> violation_key_of ` set vs then Some False else map_of b k)"
  by (induction vs arbitrary: b) (auto simp: fun_eq_iff)

lemma BaselineFromViolations_map:
  "map_ok (BaselineFromViolations vs)"
  "map_of (BaselineFromViolations vs) k = (if k \<in> violation_key_of ` set vs then Some False else None)"
  using BaselineFromViolations_foldl[of NewBaseline vs]
  by (simp_all add: BaselineFromViolations_def NewBaseline_def)

fun baseline_run :: "violation_key list \<Rightarrow> baseline \<Rightarrow> bool list \<times> baseline" where
  "baseline_run [] b = ([], b)"
| "baseline_run (k # ks) b =
     (case baseline_covers k b of (hit, b') \<Rightarrow>
        case baseline_run ks b' of (hits, b'') \<Rightarrow> (hit # hits, b''))"

lemma baseline_run_ledger: "baseline_run ks b = bl.run ks b"
proof (induction ks arbitrary: b)
  case Nil
  then show ?case by simp
next
  case (Cons k ks)
  then show ?case by (cases "baseline_covers k b") simp
qed

text \<open>What a run does to any baseline whose entries are all unused.\<close>

lemma baseline_run_spec:
  fixes b :: baseline
  assumes "map_ok b" "map_of b = (\<lambda>k. if k \<in> K then Some False else None)"
  shows "fst (baseline_run ks b) = map (\<lambda>k. k \<in> K) ks
    \<and> baseline_UnusedEntries (snd (baseline_run ks b)) = sorted_list_of_set (K - set ks)"
proof
  have res: "baseline_resolve b k = (if k \<in> K then Some k else None)" for k
    by (simp add: baseline_resolve_def assms(2))
  show "fst (baseline_run ks b) = map (\<lambda>k. k \<in> K) ks"
    unfolding baseline_run_ledger using bl.run_verdicts[OF assms(1), of ks] by (simp add: res)
  have u: "baseline_UnusedEntries b = sorted_list_of_set K"
    using bl.unused_spec[OF assms(1)] by (intro sorted_list_eqI) (auto simp: assms(2) split: if_splits)
  have "baseline_UnusedEntries (snd (baseline_run ks b))
      = filter (\<lambda>k. k \<notin> bl.touched b ks) (baseline_UnusedEntries b)"
    unfolding baseline_run_ledger by (rule bl.unused_run[OF assms(1)])
  moreover have "finite K"
  proof -
    have "K = dom (map_of b)" by (auto simp: assms(2) split: if_splits)
    then show ?thesis by (simp add: finite_dom_map_of)
  qed
  ultimately show "baseline_UnusedEntries (snd (baseline_run ks b)) = sorted_list_of_set (K - set ks)"
    unfolding u bl.touched_def res
    by (intro sorted_list_eqI) (auto simp: sorted_wrt_filter split: if_splits)
qed

text \<open>
  The adoption ratchet: a baseline captured from one run's violations tolerates every
  violation of that run and no other, in any later run; what it reports as unused afterwards
  is, sorted and without duplicates, exactly the captured identities that did not occur again.
\<close>

theorem baseline_ratchet:
  "fst (baseline_run ks (BaselineFromViolations vs)) = map (\<lambda>k. k \<in> violation_key_of ` set vs) ks
    \<and> baseline_UnusedEntries (snd (baseline_run ks (BaselineFromViolations vs)))
        = sorted_list_of_set (violation_key_of ` set vs - set ks)"
  by (rule baseline_run_spec) (simp_all add: BaselineFromViolations_map fun_eq_iff)

text \<open>
  Registering an operation keeps the marks: an entry that already suppressed a violation
  stays used, a new one starts unused, and every other entry is untouched. The entries are
  listed sorted and without duplicates.
\<close>

theorem baseline_Add_keeps_marks:
  assumes "map_ok b"
  shows "map_of (baseline_Add sc oper b) =
      (map_of b)(key_for sc oper \<mapsto> (case map_of b (key_for sc oper) of Some u \<Rightarrow> u | None \<Rightarrow> False))
    \<and> baseline_Entries (baseline_Add sc oper b) =
        sorted_list_of_set (insert (key_for sc oper) (set (baseline_Entries b)))"
proof
  have m: "map_of (baseline_Add sc oper b) =
      (map_of b)(key_for sc oper \<mapsto> (case map_of b (key_for sc oper) of Some u \<Rightarrow> u | None \<Rightarrow> False))"
    by (auto simp: baseline_Add_def key_for_def Let_def fun_eq_iff split: option.split)
  then show "map_of (baseline_Add sc oper b) = \<dots>" .
  have ok: "map_ok (baseline_Add sc oper b)"
    using assms by (simp add: baseline_Add_def Let_def split: option.split)
  have keys: "set (baseline_Entries c) = dom (map_of c) \<and> distinct (baseline_Entries c)
      \<and> sorted (baseline_Entries c)" if "map_ok c" for c
    using that by (auto simp: baseline_Entries_def set_keys_where distinct_keys_where)
  show "baseline_Entries (baseline_Add sc oper b) =
      sorted_list_of_set (insert (key_for sc oper) (set (baseline_Entries b)))"
    by (rule sorted_list_eqI) (use keys[OF ok] keys[OF assms] m in simp_all)
qed

theorem baseline_Add_keeps_marks_witness:
  "map_of (baseline_Add ''S'' (Op ''db'' ''t'') [(ViolationKey ''S'' ''db'' ''t'', True)]) (ViolationKey ''S'' ''db'' ''t'')
     = Some True"
proof -
  have "map_ok [(ViolationKey ''S'' ''db'' ''t'', True)]" by (simp add: map_ok_def)
  from baseline_Add_keeps_marks[OF this, of "''S''" "Op ''db'' ''t''"]
  show ?thesis by (simp add: key_for_def)
qed

end
