(* ===== verification/Utf8.thy ===== *)
theory Utf8
  imports Prelude
begin

text \<open>
  UTF-8 as Go reads and writes it. A Go string is any byte sequence; \<^verbatim>\<open>utf8.DecodeRune\<close>,
  the \<^verbatim>\<open>range\<close> loop and every formatter of the standard library read it rune by rune, and
  one byte that does not start a well-formed encoding is read as the rune U+FFFD of width 1.
  A rune is the natural number of its code point. The JSON writer and reader, the verb
  \<^verbatim>\<open>%q\<close> and the padding of \<^verbatim>\<open>fmt\<close> rest on this theory.
\<close>

definition RuneError :: nat where
  "RuneError = 0xFFFD"

definition cont_byte :: "char \<Rightarrow> bool" where
  "cont_byte c = (0x80 \<le> (of_char c :: nat) \<and> (of_char c :: nat) \<le> 0xBF)"

text \<open>The range of the second byte, which excludes overlong forms, surrogates and runes
  above U+10FFFF.\<close>

definition second_byte :: "nat \<Rightarrow> char \<Rightarrow> bool" where
  "second_byte b c =
     (let lo = (if b = 0xE0 then 0xA0 else if b = 0xF0 then 0x90 else 0x80);
          hi = (if b = 0xED then 0x9F else if b = 0xF4 then 0x8F else 0xBF :: nat)
      in lo \<le> (of_char c :: nat) \<and> (of_char c :: nat) \<le> hi)"

abbreviation payload :: "char \<Rightarrow> nat" where
  "payload c \<equiv> of_char c - 0x80"

text \<open>\<^verbatim>\<open>utf8.DecodeRuneInString\<close>: the rune and its width in bytes.\<close>

definition decode_rune :: "string \<Rightarrow> nat \<times> nat" where
  "decode_rune s =
     (case s of [] \<Rightarrow> (RuneError, 0)
      | c # t \<Rightarrow>
        (let b = of_char c in
         if b < 0x80 then (b, 1)
         else if 0xC2 \<le> b \<and> b \<le> 0xDF then
           (case t of c1 # _ \<Rightarrow>
              if cont_byte c1 then ((b - 0xC0) * 0x40 + payload c1, 2) else (RuneError, 1)
            | _ \<Rightarrow> (RuneError, 1))
         else if 0xE0 \<le> b \<and> b \<le> 0xEF then
           (case t of c1 # c2 # _ \<Rightarrow>
              if second_byte b c1 \<and> cont_byte c2
              then ((b - 0xE0) * 0x1000 + payload c1 * 0x40 + payload c2, 3) else (RuneError, 1)
            | _ \<Rightarrow> (RuneError, 1))
         else if 0xF0 \<le> b \<and> b \<le> 0xF4 then
           (case t of c1 # c2 # c3 # _ \<Rightarrow>
              if second_byte b c1 \<and> cont_byte c2 \<and> cont_byte c3
              then ((b - 0xF0) * 0x40000 + payload c1 * 0x1000 + payload c2 * 0x40 + payload c3, 4)
              else (RuneError, 1)
            | _ \<Rightarrow> (RuneError, 1))
         else (RuneError, 1)))"

text \<open>\<^verbatim>\<open>utf8.AppendRune\<close>: what is not a Unicode scalar value is written as U+FFFD.\<close>

definition scalar :: "nat \<Rightarrow> bool" where
  "scalar r = (r < 0xD800 \<or> 0xE000 \<le> r \<and> r < 0x110000)"

definition encode_rune :: "nat \<Rightarrow> string" where
  "encode_rune r0 =
     (let r = (if scalar r0 then r0 else RuneError) in
      if r < 0x80 then [char_of r]
      else if r < 0x800 then [char_of (0xC0 + r div 0x40), char_of (0x80 + r mod 0x40)]
      else if r < 0x10000 then
        [char_of (0xE0 + r div 0x1000), char_of (0x80 + r div 0x40 mod 0x40), char_of (0x80 + r mod 0x40)]
      else
        [char_of (0xF0 + r div 0x40000), char_of (0x80 + r div 0x1000 mod 0x40),
         char_of (0x80 + r div 0x40 mod 0x40), char_of (0x80 + r mod 0x40)])"

lemma of_char_less_256 [simp]: "(of_char (c :: char) :: nat) < 256"
  by (metis char_of_char mod_less_divisor of_char_of zero_less_numeral)

lemma char_eqI: "(of_char (c :: char) :: nat) = of_char d \<Longrightarrow> c = d"
  by simp

text \<open>The digits of a rune in base 64, which is how the bytes after the first carry it.\<close>

lemma base64_2: "(r :: nat) div 0x40 * 0x40 + r mod 0x40 = r"
  by simp

lemma base64_3: "(r :: nat) div 0x1000 * 0x1000 + r div 0x40 mod 0x40 * 0x40 + r mod 0x40 = r"
proof -
  have "r div 0x40 = r div 0x1000 * 0x40 + r div 0x40 mod 0x40"
    using div_mult_mod_eq[of "r div 0x40" "0x40"] div_mult2_eq[of r "0x40" "0x40"] by simp
  then show ?thesis using div_mult_mod_eq[of r "0x40"] by linarith
qed

lemma base64_4:
  "(r :: nat) div 0x40000 * 0x40000 + r div 0x1000 mod 0x40 * 0x1000 + r div 0x40 mod 0x40 * 0x40 + r mod 0x40 = r"
proof -
  have "r div 0x1000 = r div 0x40000 * 0x40 + r div 0x1000 mod 0x40"
    using div_mult_mod_eq[of "r div 0x1000" "0x40"] div_mult2_eq[of r "0x1000" "0x40"] by simp
  then show ?thesis using base64_3[of r] by linarith
qed

lemma encode_rune_length: "length (encode_rune r) \<in> {1..4}"
  by (simp add: encode_rune_def Let_def)

lemma encode_rune_nonempty [simp]: "encode_rune r \<noteq> []" "[] \<noteq> encode_rune r"
  by (simp_all add: encode_rune_def Let_def)

lemma encode_rune_ascii: "r < 0x80 \<Longrightarrow> encode_rune r = [char_of r]"
  by (simp add: encode_rune_def scalar_def)

text \<open>Decoding from the digits of a rune, one lemma per width.\<close>

lemma decode_width_1: "r < 0x80 \<Longrightarrow> decode_rune (char_of r # t) = (r, 1)"
  by (simp add: decode_rune_def Let_def)

lemma decode_width_2:
  "2 \<le> q \<Longrightarrow> q < 0x20 \<Longrightarrow> m < 0x40
    \<Longrightarrow> decode_rune (char_of (0xC0 + q) # char_of (0x80 + m) # t) = (q * 0x40 + m, 2)"
  by (simp add: decode_rune_def cont_byte_def Let_def)

lemma decode_width_3:
  "q < 0x10 \<Longrightarrow> m1 < 0x40 \<Longrightarrow> m2 < 0x40 \<Longrightarrow> (q = 0 \<Longrightarrow> 0x20 \<le> m1) \<Longrightarrow> (q = 0xD \<Longrightarrow> m1 < 0x20)
    \<Longrightarrow> decode_rune (char_of (0xE0 + q) # char_of (0x80 + m1) # char_of (0x80 + m2) # t)
      = (q * 0x1000 + m1 * 0x40 + m2, 3)"
  by (auto simp: decode_rune_def cont_byte_def second_byte_def Let_def)

lemma decode_width_4:
  "q < 5 \<Longrightarrow> m1 < 0x40 \<Longrightarrow> m2 < 0x40 \<Longrightarrow> m3 < 0x40 \<Longrightarrow> (q = 0 \<Longrightarrow> 0x10 \<le> m1) \<Longrightarrow> (q = 4 \<Longrightarrow> m1 < 0x10)
    \<Longrightarrow> decode_rune (char_of (0xF0 + q) # char_of (0x80 + m1) # char_of (0x80 + m2) # char_of (0x80 + m3) # t)
      = (q * 0x40000 + m1 * 0x1000 + m2 * 0x40 + m3, 4)"
  by (auto simp: decode_rune_def cont_byte_def second_byte_def Let_def)

lemma decode_encode:
  assumes "scalar r"
  shows "decode_rune (encode_rune r @ t) = (r, length (encode_rune r))"
proof -
  consider "r < 0x80" | "0x80 \<le> r" "r < 0x800" | "0x800 \<le> r" "r < 0x10000" | "0x10000 \<le> r" "r < 0x110000"
    using assms by (fastforce simp: scalar_def)
  then show ?thesis
  proof cases
    case 1
    then show ?thesis by (simp add: encode_rune_ascii decode_width_1)
  next
    case 2
    define q where "q = r div 0x40"
    have rr: "q * 0x40 + r mod 0x40 = r" unfolding q_def by (rule base64_2)
    have "2 \<le> q" "q < 0x20" using 2 unfolding q_def by linarith+
    then show ?thesis using 2 assms decode_width_2[of q "r mod 0x40" t] rr
      by (simp add: encode_rune_def Let_def flip: q_def)
  next
    case 3
    define q m where "q = r div 0x1000" and "m = r div 0x40 mod 0x40"
    have rr: "q * 0x1000 + m * 0x40 + r mod 0x40 = r" unfolding q_def m_def by (rule base64_3)
    have "q < 0x10" using 3 unfolding q_def by linarith
    moreover have "m < 0x40" "r mod 0x40 < 0x40" unfolding m_def by simp_all
    moreover have "q = 0 \<Longrightarrow> 0x20 \<le> m" using 3 rr \<open>r mod 0x40 < 0x40\<close> by linarith
    moreover have "q = 0xD \<Longrightarrow> m < 0x20" using assms rr \<open>m < 0x40\<close> unfolding scalar_def by linarith
    ultimately show ?thesis using 3 assms decode_width_3[of q m "r mod 0x40" t] rr
      by (simp add: encode_rune_def Let_def flip: q_def m_def)
  next
    case 4
    define q m1 m2 where "q = r div 0x40000" and "m1 = r div 0x1000 mod 0x40" and "m2 = r div 0x40 mod 0x40"
    have rr: "q * 0x40000 + m1 * 0x1000 + m2 * 0x40 + r mod 0x40 = r"
      unfolding q_def m1_def m2_def by (rule base64_4)
    have "q < 5" using 4 unfolding q_def by linarith
    moreover have lt: "m1 < 0x40" "m2 < 0x40" "r mod 0x40 < 0x40" unfolding m1_def m2_def by simp_all
    moreover have "q = 0 \<Longrightarrow> 0x10 \<le> m1" using 4 rr lt by linarith
    moreover have "q = 4 \<Longrightarrow> m1 < 0x10" using 4 rr by linarith
    ultimately show ?thesis using 4 assms decode_width_4[of q m1 m2 "r mod 0x40" t] rr
      by (simp add: encode_rune_def Let_def flip: q_def m1_def m2_def)
  qed
qed

text \<open>Conversely, a rune that is read with its real width is the encoding that stands there.\<close>

lemma char_of_offset: "k \<le> of_char c \<Longrightarrow> char_of (k + (of_char c - k)) = (c :: char)"
  by simp

lemma digit64: "(m :: nat) < 0x40 \<Longrightarrow> (q * 0x40 + m) div 0x40 = q" "m < 0x40 \<Longrightarrow> (q * 0x40 + m) mod 0x40 = m"
  by simp_all

lemma encode_width_2:
  assumes "0xC2 \<le> (of_char c :: nat)" "(of_char c :: nat) \<le> 0xDF" "cont_byte c1"
  defines "r \<equiv> (of_char c - 0xC0) * 0x40 + payload c1"
  shows "scalar r" "encode_rune r = [c, c1]"
proof -
  have p1: "payload c1 < 0x40" using assms(3) by (auto simp: cont_byte_def)
  have m: "payload c1 < 0x40" "r div 0x40 = of_char c - 0xC0" "r mod 0x40 = payload c1"
    unfolding r_def by (rule p1 digit64[OF p1])+
  have "0x80 \<le> r" "r < 0x800" using assms(1,2) m(1) unfolding r_def by linarith+
  moreover from this show "scalar r" by (simp add: scalar_def)
  ultimately show "encode_rune r = [c, c1]" using assms(1-3) m
    by (simp add: encode_rune_def Let_def char_of_offset cont_byte_def)
qed

lemma encode_width_3:
  assumes "0xE0 \<le> (of_char c :: nat)" "(of_char c :: nat) \<le> 0xEF"
    and "second_byte (of_char c) c1" "cont_byte c2"
  defines "r \<equiv> (of_char c - 0xE0) * 0x1000 + payload c1 * 0x40 + payload c2"
  shows "scalar r" "encode_rune r = [c, c1, c2]"
proof -
  have b: "0x80 \<le> (of_char c1 :: nat)" "0x80 \<le> (of_char c2 :: nat)" "payload c1 < 0x40" "payload c2 < 0x40"
    using assms(3,4) by (auto simp: second_byte_def cont_byte_def Let_def split: if_splits)
  have "r = ((of_char c - 0xE0) * 0x40 + payload c1) * 0x40 + payload c2"
    unfolding r_def by (simp only: distrib_right mult.assoc)
  then have r64: "r div 0x40 = (of_char c - 0xE0) * 0x40 + payload c1" "r mod 0x40 = payload c2"
    by (simp_all only: digit64[OF b(4)])
  have "r div 0x1000 = r div 0x40 div 0x40" by (simp add: div_mult2_eq)
  then have m: "r div 0x1000 = of_char c - 0xE0" "r div 0x40 mod 0x40 = payload c1"
    by (simp_all only: r64(1) digit64[OF b(3)])
  have lim: "of_char c = (0xE0 :: nat) \<longrightarrow> 0x20 \<le> payload c1" "of_char c = (0xED :: nat) \<longrightarrow> payload c1 < 0x20"
    using assms(3) by (auto simp: second_byte_def Let_def)
  have "0x800 \<le> r" using assms(1) lim(1) unfolding r_def
    by (cases "of_char c = (0xE0 :: nat)") linarith+
  moreover have "r < 0x10000" using assms(1,2) b unfolding r_def by linarith
  moreover show sc: "scalar r" using assms(1,2) lim(2) b unfolding r_def scalar_def
    by (cases "of_char c = (0xED :: nat)") linarith+
  ultimately show "encode_rune r = [c, c1, c2]" using assms(1) m r64(2) b
    by (simp add: encode_rune_def Let_def char_of_offset)
qed

lemma encode_width_4:
  assumes "0xF0 \<le> (of_char c :: nat)" "(of_char c :: nat) \<le> 0xF4"
    and "second_byte (of_char c) c1" "cont_byte c2" "cont_byte c3"
  defines "r \<equiv> (of_char c - 0xF0) * 0x40000 + payload c1 * 0x1000 + payload c2 * 0x40 + payload c3"
  shows "scalar r" "encode_rune r = [c, c1, c2, c3]"
proof -
  have b: "0x80 \<le> (of_char c1 :: nat)" "0x80 \<le> (of_char c2 :: nat)" "0x80 \<le> (of_char c3 :: nat)"
      "payload c1 < 0x40" "payload c2 < 0x40" "payload c3 < 0x40"
    using assms(3-5) by (auto simp: second_byte_def cont_byte_def Let_def split: if_splits)
  have "r = (((of_char c - 0xF0) * 0x40 + payload c1) * 0x40 + payload c2) * 0x40 + payload c3"
    unfolding r_def by (simp only: distrib_right mult.assoc)
  then have r64: "r div 0x40 = ((of_char c - 0xF0) * 0x40 + payload c1) * 0x40 + payload c2" "r mod 0x40 = payload c3"
    by (simp_all only: digit64[OF b(6)])
  have "r div 0x1000 = r div 0x40 div 0x40" by (simp add: div_mult2_eq)
  then have r4k: "r div 0x1000 = (of_char c - 0xF0) * 0x40 + payload c1" "r div 0x40 mod 0x40 = payload c2"
    by (simp_all only: r64(1) digit64[OF b(5)])
  have "r div 0x40000 = r div 0x1000 div 0x40" by (simp add: div_mult2_eq)
  then have m: "r div 0x40000 = of_char c - 0xF0" "r div 0x1000 mod 0x40 = payload c1"
    by (simp_all only: r4k(1) digit64[OF b(4)])
  have lim: "of_char c = (0xF0 :: nat) \<longrightarrow> 0x10 \<le> payload c1" "of_char c = (0xF4 :: nat) \<longrightarrow> payload c1 < 0x10"
    using assms(3) by (auto simp: second_byte_def Let_def)
  have "0x10000 \<le> r" using assms(1) lim(1) unfolding r_def
    by (cases "of_char c = (0xF0 :: nat)") linarith+
  moreover have "r < 0x110000" using assms(1,2) lim(2) b unfolding r_def
    by (cases "of_char c = (0xF4 :: nat)") linarith+
  moreover from calculation show "scalar r" by (simp add: scalar_def)
  ultimately show "encode_rune r = [c, c1, c2, c3]" using assms(1) m r4k(2) r64(2) b
    by (simp add: encode_rune_def Let_def char_of_offset)
qed

definition well_formed_head :: "nat \<Rightarrow> nat \<Rightarrow> string \<Rightarrow> bool" where
  "well_formed_head r n s \<longleftrightarrow> scalar r \<and> n = length (encode_rune r) \<and> s = encode_rune r @ drop n s"

lemma decode_rune_cases:
  assumes "decode_rune (c # t) = (r, n)"
  shows "r = RuneError \<and> n = 1 \<and> 0x80 \<le> (of_char c :: nat) \<or> well_formed_head r n (c # t)"
proof -
  let ?b = "of_char c :: nat"
  consider "?b < 0x80" | "0xC2 \<le> ?b" "?b \<le> 0xDF" | "0xE0 \<le> ?b" "?b \<le> 0xEF" | "0xF0 \<le> ?b" "?b \<le> 0xF4"
    | "0x80 \<le> ?b" "\<not> (0xC2 \<le> ?b \<and> ?b \<le> 0xF4)"
    by linarith
  then show ?thesis
  proof cases
    case 1
    with assms have "r = ?b" "n = 1" by (auto simp: decode_rune_def Let_def)
    with 1 have "scalar r" "encode_rune r = [c]" by (simp_all add: encode_rune_ascii scalar_def)
    with \<open>n = 1\<close> show ?thesis by (simp add: well_formed_head_def)
  next
    case 2
    with assms show ?thesis
      using encode_width_2[OF 2]
      by (auto simp: decode_rune_def Let_def well_formed_head_def split: list.splits if_splits)
  next
    case 3
    with assms show ?thesis
      using encode_width_3[OF 3]
      by (auto simp: decode_rune_def Let_def well_formed_head_def split: list.splits if_splits)
  next
    case 4
    with assms show ?thesis
      using encode_width_4[OF 4]
      by (auto simp: decode_rune_def Let_def well_formed_head_def split: list.splits if_splits)
  next
    case 5
    with assms show ?thesis by (auto simp: decode_rune_def Let_def split: if_splits)
  qed
qed

lemma decode_rune_width: "decode_rune (c # t) = (r, n) \<Longrightarrow> 1 \<le> n \<and> n \<le> 4 \<and> scalar r"
  using decode_rune_cases[of c t r n] encode_rune_length[of r]
  by (auto simp: well_formed_head_def RuneError_def scalar_def)

subsection \<open>The runes of a string\<close>

text \<open>The runes a string is read as, each with the bytes it was read from.\<close>

fun runes :: "string \<Rightarrow> (nat \<times> string) list" where
  "runes [] = []"
| "runes (c # s) =
     (case decode_rune (c # s) of (r, n) \<Rightarrow> (r, c # take (n - 1) s) # runes (drop (n - 1) s))"

text \<open>\<^verbatim>\<open>utf8.RuneCountInString\<close> and \<^verbatim>\<open>utf8.ValidString\<close>.\<close>

definition rune_count :: "string \<Rightarrow> nat" where
  "rune_count s = length (runes s)"

abbreviation bad_rune :: "nat \<times> string \<Rightarrow> bool" where
  "bad_rune rb \<equiv> fst rb = RuneError \<and> length (snd rb) = 1"

definition valid_utf8 :: "string \<Rightarrow> bool" where
  "valid_utf8 s = list_all (\<lambda>rb. \<not> bad_rune rb) (runes s)"

text \<open>The conversion \<^verbatim>\<open>string([]rune(s))\<close>: every byte that is no rune becomes U+FFFD.\<close>

definition to_valid_utf8 :: "string \<Rightarrow> string" where
  "to_valid_utf8 s = concat (map (\<lambda>rb. encode_rune (fst rb)) (runes s))"

lemma runes_encode: "scalar r \<Longrightarrow> runes (encode_rune r @ t) = (r, encode_rune r) # runes t"
proof -
  assume "scalar r"
  moreover obtain c u where cu: "encode_rune r = c # u" by (cases "encode_rune r") auto
  ultimately have "decode_rune (c # u @ t) = (r, Suc (length u))"
    using decode_encode[of r t] by simp
  then show ?thesis by (simp add: cu)
qed

lemma runes_ascii: "(of_char c :: nat) < 0x80 \<Longrightarrow> runes (c # t) = (of_char c, [c]) # runes t"
  using runes_encode[of "of_char c" t] by (simp add: encode_rune_ascii scalar_def)

lemma runes_cases:
  assumes "s \<noteq> []"
  obtains r t where "scalar r" "s = encode_rune r @ t" "runes s = (r, encode_rune r) # runes t"
  | c t where "s = c # t" "0x80 \<le> (of_char c :: nat)" "decode_rune s = (RuneError, 1)"
      "runes s = (RuneError, [c]) # runes t"
proof -
  from assms obtain c t where s: "s = c # t" by (cases s) auto
  obtain r n where d: "decode_rune (c # t) = (r, n)" by fastforce
  from decode_rune_cases[OF d] show thesis
  proof
    assume "r = RuneError \<and> n = 1 \<and> 0x80 \<le> (of_char c :: nat)"
    with s d show thesis by (intro that(2)) auto
  next
    assume w: "well_formed_head r n (c # t)"
    then have "s = encode_rune r @ drop n s" and "scalar r" unfolding s well_formed_head_def by blast+
    with that(1)[of r "drop n s"] show thesis using runes_encode[of r "drop n s"] by metis
  qed
qed

lemma runes_induct [case_names Nil Rune Bad]:
  assumes "P []"
    and "\<And>r t. scalar r \<Longrightarrow> P t \<Longrightarrow> runes (encode_rune r @ t) = (r, encode_rune r) # runes t
      \<Longrightarrow> P (encode_rune r @ t)"
    and "\<And>c t. 0x80 \<le> (of_char c :: nat) \<Longrightarrow> decode_rune (c # t) = (RuneError, 1) \<Longrightarrow> P t
      \<Longrightarrow> runes (c # t) = (RuneError, [c]) # runes t \<Longrightarrow> P (c # t)"
  shows "P s"
proof (induction s rule: length_induct)
  case (1 s)
  show ?case
  proof (cases "s = []")
    case False
    then show ?thesis
    proof (cases rule: runes_cases)
      case (1 r t)
      then have "length t < length s" using encode_rune_length[of r] by simp
      with 1 assms(2) "1.IH" show ?thesis by metis
    next
      case (2 c t)
      with assms(3) "1.IH" show ?thesis by simp
    qed
  qed (simp add: assms(1))
qed

lemma concat_runes [simp]: "concat (map snd (runes s)) = s"
  by (induction s rule: runes_induct) auto

lemma valid_utf8_simps [simp]:
  "valid_utf8 []" "to_valid_utf8 [] = []"
  by (simp_all add: valid_utf8_def to_valid_utf8_def)

lemma encode_rune_error: "length (encode_rune RuneError) = 3"
  by (simp add: encode_rune_def RuneError_def scalar_def)

lemma encode_not_bad: "\<not> (r = RuneError \<and> length (encode_rune r) = 1)"
  using encode_rune_error by auto

lemma valid_utf8_encode [simp]: "scalar r \<Longrightarrow> valid_utf8 (encode_rune r @ t) = valid_utf8 t"
  using encode_not_bad[of r] by (simp add: valid_utf8_def runes_encode)

lemma to_valid_utf8_encode [simp]:
  "scalar r \<Longrightarrow> to_valid_utf8 (encode_rune r @ t) = encode_rune r @ to_valid_utf8 t"
  by (simp add: to_valid_utf8_def runes_encode)

lemma valid_utf8_ascii [simp]: "(of_char c :: nat) < 0x80 \<Longrightarrow> valid_utf8 (c # t) = valid_utf8 t"
  using valid_utf8_encode[of "of_char c" t] by (simp add: encode_rune_ascii scalar_def)

lemma to_valid_utf8_ascii [simp]:
  "(of_char c :: nat) < 0x80 \<Longrightarrow> to_valid_utf8 (c # t) = c # to_valid_utf8 t"
  using to_valid_utf8_encode[of "of_char c" t] by (simp add: encode_rune_ascii scalar_def)

lemma to_valid_utf8_bad:
  "decode_rune (c # t) = (RuneError, 1) \<Longrightarrow> to_valid_utf8 (c # t) = encode_rune RuneError @ to_valid_utf8 t"
  "decode_rune (c # t) = (RuneError, 1) \<Longrightarrow> \<not> valid_utf8 (c # t)"
  by (simp_all add: to_valid_utf8_def valid_utf8_def)

lemma scalar_RuneError [simp]: "scalar RuneError"
  by (simp add: scalar_def RuneError_def)

lemma valid_to_valid_utf8 [simp]: "valid_utf8 (to_valid_utf8 s)"
  by (induction s rule: runes_induct) (simp_all add: to_valid_utf8_bad)

text \<open>The conversion changes exactly the strings that are not UTF-8, and makes them longer.\<close>

lemma to_valid_utf8_length:
  "length (to_valid_utf8 s) = length s + 2 * length (filter (\<lambda>rb. bad_rune rb) (runes s))"
proof (induction s rule: runes_induct)
  case (Rune r t)
  with encode_not_bad[of r] show ?case by auto
qed (simp_all add: to_valid_utf8_bad encode_rune_error)

lemma to_valid_utf8_fixed: "valid_utf8 s \<Longrightarrow> to_valid_utf8 s = s"
  by (induction s rule: runes_induct) (simp_all add: to_valid_utf8_bad)

lemma to_valid_utf8_fixed_iff: "to_valid_utf8 s = s \<longleftrightarrow> valid_utf8 s"
  by (metis to_valid_utf8_fixed valid_to_valid_utf8)

lemma valid_utf8_if_ascii: "list_all (\<lambda>c. (of_char c :: nat) < 0x80) s \<Longrightarrow> valid_utf8 s"
  by (induction s) simp_all

text \<open>No byte of a multi-byte rune is ASCII.\<close>

lemma encode_rune_high: "0x80 \<le> r \<Longrightarrow> c \<in> set (encode_rune r) \<Longrightarrow> 0x80 \<le> (of_char c :: nat)"
  by (auto simp: encode_rune_def Let_def RuneError_def scalar_def split: if_splits)

declare runes.simps(2) [simp del]

text \<open>A lower-case hexadecimal digit.\<close>

definition hex_digit :: "nat \<Rightarrow> char" where
  "hex_digit d = (if d < 10 then char_of (48 + d) else char_of (87 + d))"

end
