(* ===== verification/Json.thy ===== *)
theory Json
  imports Utf8
begin

text \<open>
  JSON as \<^verbatim>\<open>encoding/json\<close> writes and reads it, as far as the baseline file uses it:
  \<^verbatim>\<open>json.MarshalIndent\<close> with an indent of two spaces and the default HTML escaping, and the
  parser of \<^verbatim>\<open>json.Unmarshal\<close> with its nesting limit. The parser carries fuel, and
  \<open>parse_terminates\<close> shows that the fuel given by \<open>json_parse\<close> is always enough. The
  printer and the parser are inverse up to the replacement of bytes that are not UTF-8.
\<close>

datatype json_error = BadSyntax | TooDeep | WrongType | OutOfFuel

datatype json =
    JNull
  | JBool bool
  | JNum string
  | JStr string
  | JArr "json list"
  | JObj "(string \<times> json) list"

subsection \<open>Strings\<close>

text \<open>How \<^verbatim>\<open>appendString\<close> writes one rune, read from the bytes \<open>bs\<close>.\<close>

definition json_escape :: "nat \<times> string \<Rightarrow> string" where
  "json_escape rb =
     (case rb of (r, bs) \<Rightarrow>
        if r < 0x80 then
          (if r = 0x22 \<or> r = 0x5C then CHR 0x5C # bs
           else if r = 0x08 then [CHR 0x5C, CHR ''b'']
           else if r = 0x0C then [CHR 0x5C, CHR ''f'']
           else if r = 0x0A then [CHR 0x5C, CHR ''n'']
           else if r = 0x0D then [CHR 0x5C, CHR ''r'']
           else if r = 0x09 then [CHR 0x5C, CHR ''t'']
           else if r < 0x20 \<or> r = 0x3C \<or> r = 0x3E \<or> r = 0x26 then
             [CHR 0x5C, CHR ''u'', CHR ''0'', CHR ''0'', hex_digit (r div 16), hex_digit (r mod 16)]
           else bs)
        else if bad_rune rb then CHR 0x5C # ''ufffd''
        else if r = 0x2028 \<or> r = 0x2029 then CHR 0x5C # ''u202'' @ [hex_digit (r mod 16)]
        else bs)"

definition json_quote :: "string \<Rightarrow> string" where
  "json_quote s = CHR 0x22 # concat (map json_escape (runes s)) @ [CHR 0x22]"

definition hex_val :: "char \<Rightarrow> nat option" where
  "hex_val c =
     (let b = of_char c in
      if 48 \<le> b \<and> b \<le> 57 then Some (b - 48)
      else if 97 \<le> b \<and> b \<le> 102 then Some (b - 87)
      else if 65 \<le> b \<and> b \<le> 70 then Some (b - 55)
      else None)"

text \<open>\<^verbatim>\<open>getu4\<close>: four hexadecimal digits.\<close>

definition hex4 :: "string \<Rightarrow> (nat \<times> string) option" where
  "hex4 s =
     (case s of a # b # c # d # t \<Rightarrow>
        (case (hex_val a, hex_val b, hex_val c, hex_val d) of
           (Some w, Some x, Some y, Some z) \<Rightarrow> Some (((w * 16 + x) * 16 + y) * 16 + z, t)
         | _ \<Rightarrow> None)
      | _ \<Rightarrow> None)"

text \<open>The rune of a \<^verbatim>\<open>\u\<close> escape: two surrogates make one rune, a lone surrogate U+FFFD.\<close>

definition read_u :: "string \<Rightarrow> (nat \<times> string) option" where
  "read_u s =
     (case hex4 s of None \<Rightarrow> None
      | Some (r, t) \<Rightarrow>
        if 0xD800 \<le> r \<and> r < 0xE000 then
          (case t of b # u # t' \<Rightarrow>
             (if b = CHR 0x5C \<and> u = CHR ''u'' then
                (case hex4 t' of
                   Some (r1, t'') \<Rightarrow>
                     if r < 0xDC00 \<and> 0xDC00 \<le> r1 \<and> r1 < 0xE000
                     then Some ((r - 0xD800) * 0x400 + (r1 - 0xDC00) + 0x10000, t'')
                     else Some (RuneError, t)
                 | None \<Rightarrow> Some (RuneError, t))
              else Some (RuneError, t))
           | _ \<Rightarrow> Some (RuneError, t))
        else Some (r, t))"

definition read_escape :: "string \<Rightarrow> (nat \<times> string) option" where
  "read_escape s =
     (case s of [] \<Rightarrow> None
      | e # t \<Rightarrow>
        if e = CHR 0x22 \<or> e = CHR 0x5C \<or> e = CHR ''/'' then Some (of_char e, t)
        else if e = CHR ''b'' then Some (0x08, t)
        else if e = CHR ''f'' then Some (0x0C, t)
        else if e = CHR ''n'' then Some (0x0A, t)
        else if e = CHR ''r'' then Some (0x0D, t)
        else if e = CHR ''t'' then Some (0x09, t)
        else if e = CHR ''u'' then read_u t
        else None)"

lemma hex4_length: "hex4 s = Some (r, t) \<Longrightarrow> length s = length t + 4"
  by (auto simp: hex4_def split: list.splits option.splits)

lemma read_u_length: "read_u s = Some (r, t) \<Longrightarrow> length t < length s"
  by (auto simp: read_u_def split: option.splits list.splits if_splits prod.splits dest!: hex4_length)

lemma read_escape_length: "read_escape s = Some (r, t) \<Longrightarrow> length t < length s"
  by (auto simp: read_escape_def split: list.splits if_splits dest!: read_u_length)

definition add_rune :: "nat \<Rightarrow> json_error + (string \<times> string) \<Rightarrow> json_error + (string \<times> string)" where
  "add_rune r res = (case res of Inl e \<Rightarrow> Inl e | Inr (x, t) \<Rightarrow> Inr (encode_rune r @ x, t))"

text \<open>The value of a string literal after its opening quote, and what follows the closing one.\<close>

function scan_string :: "string \<Rightarrow> json_error + (string \<times> string)" where
  "scan_string [] = Inl BadSyntax"
| "scan_string (c # s) =
     (if c = CHR 0x22 then Inr ([], s)
      else if c = CHR 0x5C then
        (case read_escape s of None \<Rightarrow> Inl BadSyntax
         | Some (r, t) \<Rightarrow> add_rune r (scan_string t))
      else if (of_char c :: nat) < 0x20 then Inl BadSyntax
      else (case decode_rune (c # s) of (r, n) \<Rightarrow> add_rune r (scan_string (drop (n - 1) s))))"
  by pat_completeness auto
termination
  by (relation "measure length") (auto dest: read_escape_length)

declare scan_string.simps(2) [simp del]

lemma hex_val_digit [simp]: "d < 16 \<Longrightarrow> hex_val (hex_digit d) = Some d"
  by (simp add: hex_val_def hex_digit_def Let_def)

lemma hex_val_literals [simp]:
  "hex_val CHR ''0'' = Some 0" "hex_val CHR ''2'' = Some 2"
  "hex_val CHR ''f'' = Some 15" "hex_val CHR ''d'' = Some 13"
  by (simp_all add: hex_val_def Let_def)

lemma scan_plain:
  assumes "scalar r" "0x20 \<le> r" "r \<noteq> 0x22" "r \<noteq> 0x5C"
  shows "scan_string (encode_rune r @ t) = add_rune r (scan_string t)"
proof -
  obtain c u where cu: "encode_rune r = c # u" by (cases "encode_rune r") auto
  have d: "decode_rune (c # u @ t) = (r, Suc (length u))"
    using decode_encode[OF assms(1), of t] by (simp add: cu)
  have "(of_char c :: nat) \<noteq> 0x22 \<and> (of_char c :: nat) \<noteq> 0x5C \<and> 0x20 \<le> (of_char c :: nat)"
  proof (cases "r < 0x80")
    case True
    then have "c = char_of r" using cu by (simp add: encode_rune_ascii)
    with True assms show ?thesis by simp
  next
    case False
    then have "0x80 \<le> (of_char c :: nat)" using encode_rune_high[of r c] cu by simp
    then show ?thesis by simp
  qed
  then have "c \<noteq> CHR 0x22" "c \<noteq> CHR 0x5C" "\<not> (of_char c :: nat) < 0x20" by auto
  with d show ?thesis by (simp add: cu scan_string.simps(2))
qed

lemma scan_escape:
  "read_escape u = Some (r, t) \<Longrightarrow> scan_string (CHR 0x5C # u) = add_rune r (scan_string t)"
  by (simp add: scan_string.simps(2))

lemma char_of_quote: "char_of (34 :: nat) = CHR 0x22" "char_of (92 :: nat) = CHR 0x5C"
  by (rule char_eqI, simp)+

lemma scan_json_escape:
  assumes "scalar r"
  shows "scan_string (json_escape (r, encode_rune r) @ t) = add_rune r (scan_string t)"
proof -
  consider "r < 0x80" | "r \<ge> 0x80" "r = 0x2028 \<or> r = 0x2029" | "r \<ge> 0x80" "r \<noteq> 0x2028" "r \<noteq> 0x2029"
    by linarith
  then show ?thesis
  proof cases
    case 1
    then have e: "encode_rune r = [char_of r]" by (rule encode_rune_ascii)
    show ?thesis
    proof (cases "r \<noteq> 0x22 \<and> r \<noteq> 0x5C \<and> 0x20 \<le> r \<and> r \<noteq> 0x3C \<and> r \<noteq> 0x3E \<and> r \<noteq> 0x26")
      case True
      then show ?thesis using scan_plain[OF assms, of t] 1 by (simp add: json_escape_def e)
    next
      case False
      with 1 show ?thesis
        by (auto simp: json_escape_def e read_escape_def char_of_quote read_u_def hex4_def less_mult_imp_div_less
            intro!: scan_escape)
    qed
  next
    case 2
    have "read_escape (CHR ''u'' # CHR ''2'' # CHR ''0'' # CHR ''2'' # hex_digit (r mod 16) # t) = Some (r, t)"
      using 2 by (auto simp: read_escape_def read_u_def hex4_def)
    with 2 encode_not_bad[of r] show ?thesis by (auto simp: json_escape_def intro!: scan_escape)
  next
    case 3
    then show ?thesis using scan_plain[OF assms, of t] encode_not_bad[of r]
      by (auto simp: json_escape_def)
  qed
qed

lemma scan_bad_escape:
  "scan_string (json_escape (RuneError, [c]) @ t) = add_rune RuneError (scan_string t)"
proof -
  have "read_escape (CHR ''u'' # ''fffd'' @ t) = Some (RuneError, t)"
    by (simp add: read_escape_def read_u_def hex4_def RuneError_def)
  then show ?thesis using scan_escape[of "CHR ''u'' # ''fffd'' @ t" RuneError t]
    by (simp add: json_escape_def RuneError_def)
qed

text \<open>What is written as a string literal is read back as that string, made valid.\<close>

lemma scan_quoted:
  "scan_string (concat (map json_escape (runes s)) @ CHR 0x22 # t) = Inr (to_valid_utf8 s, t)"
proof (induction s rule: runes_induct)
  case Nil
  then show ?case by (simp add: scan_string.simps(2))
next
  case (Rune r s)
  then show ?case by (simp add: scan_json_escape add_rune_def)
next
  case (Bad c s)
  then show ?case by (simp add: scan_bad_escape to_valid_utf8_bad add_rune_def)
qed

subsection \<open>Printing\<close>

text \<open>A line break and the indent of a nesting level: two spaces per level.\<close>

definition newline :: "nat \<Rightarrow> string" where
  "newline n = CHR 0x0A # replicate (2 * n) CHR '' ''"

fun separated :: "string \<Rightarrow> string list \<Rightarrow> string" where
  "separated sep [] = []"
| "separated sep [x] = x"
| "separated sep (x # y # ys) = x @ sep @ separated sep (y # ys)"

text \<open>\<^verbatim>\<open>json.MarshalIndent(v, "", "  ")\<close> at a nesting level.\<close>

fun json_indent :: "nat \<Rightarrow> json \<Rightarrow> string" where
  "json_indent n JNull = ''null''"
| "json_indent n (JBool b) = (if b then ''true'' else ''false'')"
| "json_indent n (JNum l) = l"
| "json_indent n (JStr s) = json_quote s"
| "json_indent n (JArr vs) =
     (if vs = [] then ''[]''
      else ''['' @ newline (n + 1) @ separated ('','' @ newline (n + 1)) (map (json_indent (n + 1)) vs)
        @ newline n @ '']'')"
| "json_indent n (JObj kvs) =
     (if kvs = [] then ''{}''
      else ''{'' @ newline (n + 1)
        @ separated ('','' @ newline (n + 1)) (map (\<lambda>(k, v). json_quote k @ '': '' @ json_indent (n + 1) v) kvs)
        @ newline n @ ''}'')"

subsection \<open>Parsing\<close>

definition is_space :: "char \<Rightarrow> bool" where
  "is_space c = (c = CHR '' '' \<or> c = CHR 0x09 \<or> c = CHR 0x0D \<or> c = CHR 0x0A)"

definition skip_space :: "string \<Rightarrow> string" where
  "skip_space s = dropWhile is_space s"

definition is_digit :: "char \<Rightarrow> bool" where
  "is_digit c = (48 \<le> (of_char c :: nat) \<and> (of_char c :: nat) \<le> 57)"

definition scan_digits :: "string \<Rightarrow> (string \<times> string) option" where
  "scan_digits s = (if takeWhile is_digit s = [] then None else Some (takeWhile is_digit s, dropWhile is_digit s))"

text \<open>A number: an optional minus, an integer part without leading zeros, a fraction, an exponent.\<close>

definition scan_number :: "string \<Rightarrow> (string \<times> string) option" where
  "scan_number s =
     (case (case s of c # t \<Rightarrow> if c = CHR ''-'' then ([c], t) else ([], s) | [] \<Rightarrow> ([], [])) of (sg, s1) \<Rightarrow>
      case (case s1 of c # t \<Rightarrow> if c = CHR ''0'' then Some ([c], t) else scan_digits s1 | [] \<Rightarrow> None) of
        None \<Rightarrow> None
      | Some (i, s2) \<Rightarrow>
      case (case s2 of c # t \<Rightarrow> if c = CHR ''.'' then map_option (apfst ((#) c)) (scan_digits t) else Some ([], s2)
            | [] \<Rightarrow> Some ([], [])) of
        None \<Rightarrow> None
      | Some (f, s3) \<Rightarrow>
      case (case s3 of c # t \<Rightarrow>
              if c = CHR ''e'' \<or> c = CHR ''E'' then
                (case t of sg # u \<Rightarrow>
                   if sg = CHR ''+'' \<or> sg = CHR ''-'' then map_option (apfst (\<lambda>d. c # sg # d)) (scan_digits u)
                   else map_option (apfst ((#) c)) (scan_digits t)
                 | [] \<Rightarrow> None)
              else Some ([], s3)
            | [] \<Rightarrow> Some ([], [])) of
        None \<Rightarrow> None
      | Some (e, s4) \<Rightarrow> Some (sg @ i @ f @ e, s4))"

lemma scan_digits_length: "scan_digits s = Some (d, t) \<Longrightarrow> length t < length s"
proof -
  assume "scan_digits s = Some (d, t)"
  then have "t = dropWhile is_digit s" "takeWhile is_digit s \<noteq> []" by (auto simp: scan_digits_def split: if_splits)
  then show ?thesis by (metis append_self_conv2 length_dropWhile_le order_le_less takeWhile_dropWhile_id
        append_eq_append_conv)
qed

lemma scan_number_length: "scan_number s = Some (l, t) \<Longrightarrow> length t < length s"
  by (auto simp: scan_number_def split: list.splits if_splits option.splits prod.splits dest!: scan_digits_length)

lemma scan_string_length: "scan_string s = Inr (x, t) \<Longrightarrow> length t < length s"
proof (induction s arbitrary: x t rule: scan_string.induct)
  case (2 c s)
  then show ?case
    by (fastforce simp: scan_string.simps(2)[of c s] add_rune_def dest: read_escape_length
        split: if_splits option.splits sum.splits prod.splits)
qed simp

text \<open>\<^verbatim>\<open>maxNestingDepth\<close> of the scanner; \<open>d\<close> counts the open arrays and objects.\<close>

definition max_nesting :: nat where
  "max_nesting = 10000"

type_synonym 'a parsed = "json_error + ('a \<times> string)"

fun parse_literal :: "string \<Rightarrow> json parsed" where
  "parse_literal s =
     (if has_prefix s ''true'' then Inr (JBool True, drop 4 s)
      else if has_prefix s ''false'' then Inr (JBool False, drop 5 s)
      else if has_prefix s ''null'' then Inr (JNull, drop 4 s)
      else (case scan_number s of None \<Rightarrow> Inl BadSyntax | Some (l, t) \<Rightarrow> Inr (JNum l, t)))"

declare parse_literal.simps [simp del]

fun parse_value :: "nat \<Rightarrow> nat \<Rightarrow> string \<Rightarrow> json parsed"
  and parse_elems :: "nat \<Rightarrow> nat \<Rightarrow> string \<Rightarrow> json list parsed"
  and parse_members :: "nat \<Rightarrow> nat \<Rightarrow> string \<Rightarrow> (string \<times> json) list parsed" where
  "parse_value 0 d s = Inl OutOfFuel"
| "parse_value (Suc f) d s =
     (case skip_space s of [] \<Rightarrow> Inl BadSyntax
      | c # t \<Rightarrow>
        if c = CHR 0x22 then
          (case scan_string t of Inl e \<Rightarrow> Inl e | Inr (x, r) \<Rightarrow> Inr (JStr x, r))
        else if c = CHR ''['' then
          (if max_nesting \<le> d then Inl TooDeep
           else if has_prefix (skip_space t) '']'' then Inr (JArr [], tl (skip_space t))
           else (case parse_elems f (Suc d) t of Inl e \<Rightarrow> Inl e | Inr (vs, r) \<Rightarrow> Inr (JArr vs, r)))
        else if c = CHR ''{'' then
          (if max_nesting \<le> d then Inl TooDeep
           else if has_prefix (skip_space t) ''}'' then Inr (JObj [], tl (skip_space t))
           else (case parse_members f (Suc d) t of Inl e \<Rightarrow> Inl e | Inr (kvs, r) \<Rightarrow> Inr (JObj kvs, r)))
        else parse_literal (c # t))"
| "parse_elems 0 d s = Inl OutOfFuel"
| "parse_elems (Suc f) d s =
     (case parse_value f d s of Inl e \<Rightarrow> Inl e
      | Inr (v, r) \<Rightarrow>
        (case skip_space r of [] \<Rightarrow> Inl BadSyntax
         | c # t \<Rightarrow>
           if c = CHR '','' then
             (case parse_elems f d t of Inl e \<Rightarrow> Inl e | Inr (vs, u) \<Rightarrow> Inr (v # vs, u))
           else if c = CHR '']'' then Inr ([v], t)
           else Inl BadSyntax))"
| "parse_members 0 d s = Inl OutOfFuel"
| "parse_members (Suc f) d s =
     (case skip_space s of [] \<Rightarrow> Inl BadSyntax
      | q # s1 \<Rightarrow>
        if q \<noteq> CHR 0x22 then Inl BadSyntax
        else (case scan_string s1 of Inl e \<Rightarrow> Inl e
          | Inr (k, s2) \<Rightarrow>
            (case skip_space s2 of [] \<Rightarrow> Inl BadSyntax
             | c # s3 \<Rightarrow>
               if c \<noteq> CHR '':'' then Inl BadSyntax
               else (case parse_value f d s3 of Inl e \<Rightarrow> Inl e
                 | Inr (v, r) \<Rightarrow>
                   (case skip_space r of [] \<Rightarrow> Inl BadSyntax
                    | c # t \<Rightarrow>
                      if c = CHR '','' then
                        (case parse_members f d t of Inl e \<Rightarrow> Inl e | Inr (kvs, u) \<Rightarrow> Inr ((k, v) # kvs, u))
                      else if c = CHR ''}'' then Inr ([(k, v)], t)
                      else Inl BadSyntax)))))"

text \<open>A whole document: one value, and nothing but white space after it.\<close>

definition json_parse :: "string \<Rightarrow> json_error + json" where
  "json_parse data =
     (case parse_value (2 * length data + 2) 0 data of Inl e \<Rightarrow> Inl e
      | Inr (v, r) \<Rightarrow> if skip_space r = [] then Inr v else Inl BadSyntax)"

subsection \<open>The parser always decides\<close>

lemma skip_space_length: "length (skip_space s) \<le> length s"
  by (simp add: skip_space_def length_dropWhile_le)

lemma skip_space_Cons: "skip_space s = c # t \<Longrightarrow> length t < length s"
  using skip_space_length[of s] by simp

lemma parse_literal_length: "parse_literal s = Inr (v, t) \<Longrightarrow> s \<noteq> [] \<Longrightarrow> length t < length s"
  by (auto simp: parse_literal.simps split: if_splits option.splits dest: scan_number_length)

lemma parse_literal_decides: "parse_literal s \<noteq> Inl OutOfFuel"
  by (auto simp: parse_literal.simps split: option.splits)

lemma add_rune_decides: "add_rune r res = Inl e \<Longrightarrow> res = Inl e"
  by (auto simp: add_rune_def split: sum.splits)

lemma scan_string_decides: "scan_string s \<noteq> Inl OutOfFuel"
proof (induction s rule: scan_string.induct)
  case (2 c s)
  then show ?case
    by (fastforce simp: scan_string.simps(2) dest!: add_rune_decides split: option.splits prod.splits if_splits)
qed simp

lemma parse_members_step:
  assumes "parse_members (Suc f) d s = Inr (kvs, t)"
  obtains s1 k s2 s3 v r c u where "skip_space s = CHR 0x22 # s1" "scan_string s1 = Inr (k, s2)"
    "skip_space s2 = CHR '':'' # s3" "parse_value f d s3 = Inr (v, r)" "skip_space r = c # u"
    "c = CHR '','' \<and> (\<exists>kvs'. parse_members f d u = Inr (kvs', t)) \<or> c = CHR ''}'' \<and> u = t"
  using assms by (auto split: list.splits if_splits sum.splits prod.splits)

lemma parse_length:
  "parse_value f d s = Inr (v, t) \<Longrightarrow> length t < length s"
  "parse_elems f d s = Inr (vs, t) \<Longrightarrow> length t < length s"
  "parse_members f d s = Inr (kvs, t) \<Longrightarrow> length t < length s"
proof (induction f d s and f d s and f d s arbitrary: v t and vs t and kvs t
    rule: parse_value_parse_elems_parse_members.induct)
  case (2 f d s)
  have tl: "length (tl (skip_space u)) \<le> length u" for u
    using skip_space_length[of u] by simp
  obtain c u where cu: "skip_space s = c # u" using "2.prems" by (cases "skip_space s") auto
  then have len: "length u < length s" by (rule skip_space_Cons)
  consider "c = CHR 0x22" | "c = CHR ''[''" | "c = CHR ''{''" | "c \<noteq> CHR 0x22" "c \<noteq> CHR ''[''" "c \<noteq> CHR ''{''"
    by blast
  then show ?case
  proof cases
    case 1
    with "2.prems" cu len show ?thesis
      by (auto split: sum.splits prod.splits dest!: scan_string_length)
  next
    case 2
    with "2.prems" cu len show ?thesis
      using "2.IH"(1)[OF cu] tl[of u] by (fastforce split: sum.splits prod.splits if_splits)
  next
    case 3
    with "2.prems" cu len show ?thesis
      using "2.IH"(2)[OF cu] tl[of u] by (fastforce split: sum.splits prod.splits if_splits)
  next
    case 4
    with "2.prems" cu have "length t < length (c # u)" by (auto dest: parse_literal_length)
    with len show ?thesis by simp
  qed
next
  case (4 f d s)
  then show ?case by (fastforce split: sum.splits list.splits if_splits prod.splits dest: skip_space_Cons)
next
  case (6 f d s)
  from "6.prems" show ?case
  proof (rule parse_members_step)
    fix s1 k s2 s3 v r c u
    assume st: "skip_space s = CHR 0x22 # s1" "scan_string s1 = Inr (k, s2)"
      "skip_space s2 = CHR '':'' # s3" "parse_value f d s3 = Inr (v, r)" "skip_space r = c # u"
      and last: "c = CHR '','' \<and> (\<exists>kvs'. parse_members f d u = Inr (kvs', t)) \<or> c = CHR ''}'' \<and> u = t"
    have "length r < length s3" by (rule "6.IH"(1)[OF st(1) _ st(2) refl st(3) _ st(4)]) simp_all
    moreover have "length t \<le> length u"
      using last "6.IH"(2)[OF st(1) _ st(2) refl st(3) _ st(4) refl st(5)] by auto
    moreover have "length s1 < length s" "length s2 < length s1" "length s3 < length s2" "length u < length r"
      using st by (auto dest: skip_space_Cons scan_string_length)
    ultimately show "length t < length s" by linarith
  qed
qed simp_all

text \<open>Each call consumes a byte every second step, so twice the length is enough fuel.\<close>

lemma parse_decides:
  "2 * length s < f \<Longrightarrow> parse_value f d s \<noteq> Inl OutOfFuel"
  "2 * length s + 1 < f \<Longrightarrow> parse_elems f d s \<noteq> Inl OutOfFuel"
  "2 * length s + 1 < f \<Longrightarrow> parse_members f d s \<noteq> Inl OutOfFuel"
proof (induction f d s and f d s and f d s rule: parse_value_parse_elems_parse_members.induct)
  case (2 f d s)
  show ?case
  proof (cases "skip_space s")
    case (Cons c t)
    then have "2 * length t + 1 < f" using "2.prems" skip_space_Cons[OF Cons] by simp
    then show ?thesis
      using Cons "2.IH"[OF Cons] scan_string_decides[of t] parse_literal_decides[of "c # t"]
      by (auto split: sum.splits prod.splits)
  qed simp
next
  case (4 f d s)
  then have v: "parse_value f d s \<noteq> Inl OutOfFuel" by simp
  show ?case
  proof (cases "parse_value f d s")
    case (Inr vr)
    obtain v r where vr: "vr = (v, r)" by (cases vr)
    show ?thesis
    proof (cases "skip_space r")
      case (Cons c t)
      then have "2 * length t + 1 < f"
        using "4.prems" skip_space_Cons[OF Cons] parse_length(1)[OF Inr[unfolded vr]] by simp
      then show ?thesis using Inr Cons "4.IH"(2)[OF Inr[unfolded vr] refl Cons] by (auto simp: vr split: sum.splits)
    qed (simp add: Inr vr)
  qed (use v in auto)
next
  case (6 f d s)
  show ?case
  proof (rule notI, goal_cases)
    case 1
    then obtain s1 k s2 s3 where st: "skip_space s = CHR 0x22 # s1" "scan_string s1 = Inr (k, s2)"
        "skip_space s2 = CHR '':'' # s3"
      using scan_string_decides by (auto split: list.splits if_splits sum.splits)
    have len: "2 * length s3 + 1 < f"
      using "6.prems" st by (auto dest!: skip_space_Cons scan_string_length)
    then have v: "parse_value f d s3 \<noteq> Inl OutOfFuel"
      by (intro "6.IH"(1)[OF st(1) _ st(2) refl st(3)]) simp_all
    with 1 st obtain v r u where r: "parse_value f d s3 = Inr (v, r)" "skip_space r = CHR '','' # u"
        "parse_members f d u = Inl OutOfFuel"
      by (auto split: list.splits if_splits sum.splits)
    have "2 * length u + 1 < f" using len skip_space_Cons[OF r(2)] parse_length(1)[OF r(1)] by simp
    then show False using "6.IH"(2)[OF st(1) _ st(2) refl st(3) _ r(1) refl r(2)] r(3) by simp
  qed
qed simp_all

lemma parse_terminates: "json_parse data \<noteq> Inl OutOfFuel"
  using parse_decides(1)[of data "2 * length data + 2" 0]
  by (auto simp: json_parse_def split: sum.splits)

subsection \<open>Printing, then parsing\<close>

text \<open>Values without numbers whose nesting is within the limit, below \<open>d\<close> open containers.\<close>

fun printable :: "nat \<Rightarrow> json \<Rightarrow> bool" where
  "printable d (JNum l) = False"
| "printable d (JArr vs) = (d < max_nesting \<and> list_all (printable (Suc d)) vs)"
| "printable d (JObj kvs) = (d < max_nesting \<and> list_all (\<lambda>(k, v). printable (Suc d) v) kvs)"
| "printable d v = True"

fun clean :: "json \<Rightarrow> json" where
  "clean (JStr s) = JStr (to_valid_utf8 s)"
| "clean (JArr vs) = JArr (map clean vs)"
| "clean (JObj kvs) = JObj (map (\<lambda>(k, v). (to_valid_utf8 k, clean v)) kvs)"
| "clean v = v"

lemma skip_space_simps [simp]:
  "skip_space [] = []" "is_space c \<Longrightarrow> skip_space (c # s) = skip_space s"
  "\<not> is_space c \<Longrightarrow> skip_space (c # s) = c # s"
  by (simp_all add: skip_space_def)

lemma is_space_literals [simp]:
  "is_space CHR '' ''" "is_space CHR 0x0A" "\<not> is_space CHR 0x22" "\<not> is_space CHR '':''" "\<not> is_space CHR '',''"
  "\<not> is_space CHR ''[''" "\<not> is_space CHR '']''" "\<not> is_space CHR ''{''" "\<not> is_space CHR ''}''"
  "\<not> is_space CHR ''n''" "\<not> is_space CHR ''t''" "\<not> is_space CHR ''f''"
  by (simp_all add: is_space_def)

lemma skip_newline [simp]: "skip_space (newline n @ s) = skip_space s"
proof -
  have "skip_space (replicate m CHR '' '' @ s) = skip_space s" for m by (induction m) simp_all
  then show ?thesis by (simp add: newline_def)
qed

definition parses_back :: "nat \<Rightarrow> nat \<Rightarrow> json \<Rightarrow> bool" where
  "parses_back n d v \<longleftrightarrow>
     (\<forall>f s t. skip_space s = json_indent n v @ t \<longrightarrow> 2 * length s < f \<longrightarrow> parse_value f d s = Inr (clean v, t))"

lemma parses_backD:
  "parses_back n d v \<Longrightarrow> skip_space s = json_indent n v @ t \<Longrightarrow> 2 * length s < f
    \<Longrightarrow> parse_value f d s = Inr (clean v, t)"
  by (simp add: parses_back_def)

lemma parses_backI:
  assumes "\<And>g s t. skip_space s = json_indent n v @ t \<Longrightarrow> parse_value (Suc g) d s = Inr (clean v, t)"
  shows "parses_back n d v"
  unfolding parses_back_def
proof (intro allI impI)
  fix f s t assume "skip_space s = json_indent n v @ t" "2 * length s < f"
  with assms show "parse_value f d s = Inr (clean v, t)" by (cases f) auto
qed

lemma printable_starts: "printable d v \<Longrightarrow> skip_space (json_indent n v @ t) = json_indent n v @ t"
  by (cases v) (auto simp: json_quote_def)

lemma printable_no_bracket:
  "printable d v \<Longrightarrow> \<not> has_prefix (json_indent n v @ t) '']'' \<and> \<not> has_prefix (json_indent n v @ t) ''}''"
  by (cases v) (auto simp: json_quote_def)

lemma parse_elems_back:
  assumes "vs \<noteq> []" "list_all (printable d) vs" "list_all (parses_back n d) vs"
    and "skip_space s = separated ('','' @ newline n) (map (json_indent n) vs) @ newline m @ CHR '']'' # t"
    and "2 * length s + 1 < f"
  shows "parse_elems f d s = Inr (map clean vs, t)"
  using assms
proof (induction vs arbitrary: s f rule: induct_list012)
  case (2 v)
  then obtain g where "f = Suc g" by (cases f) auto
  with 2 parses_backD[of n d v s "newline m @ CHR '']'' # t" g] show ?case by simp
next
  case (3 v v' vs)
  then obtain g where f: "f = Suc g" by (cases f) auto
  define u where "u = newline n @ separated ('','' @ newline n) (map (json_indent n) (v' # vs)) @ newline m @ CHR '']'' # t"
  have s: "skip_space s = json_indent n v @ CHR '','' # u" using 3 by (simp add: u_def)
  have "printable d v'" using 3 by simp
  from printable_starts[OF this, of n] have
    "skip_space u = separated ('','' @ newline n) (map (json_indent n) (v' # vs)) @ newline m @ CHR '']'' # t"
    unfolding u_def by (cases vs) simp_all
  moreover have "2 * length u + 1 < g"
    using skip_space_length[of s] "3.prems"(5) unfolding s f by simp
  ultimately have "parse_elems g d u = Inr (map clean (v' # vs), t)"
    using 3 by (intro "3.IH"(2)) auto
  moreover have "parse_value g d s = Inr (clean v, CHR '','' # u)"
    using 3 s f by (intro parses_backD[of n d v]) simp_all
  ultimately show ?case by (simp add: f)
qed simp

abbreviation indent_member :: "nat \<Rightarrow> string \<times> json \<Rightarrow> string" where
  "indent_member n \<equiv> \<lambda>(k, v). json_quote k @ '': '' @ json_indent n v"

abbreviation clean_member :: "string \<times> json \<Rightarrow> string \<times> json" where
  "clean_member \<equiv> \<lambda>(k, v). (to_valid_utf8 k, clean v)"

lemma parse_member_back:
  assumes "printable d v" "parses_back n d v" "skip_space s = indent_member n (k, v) @ t" "2 * length s < f"
  obtains s1 s2 s3 where "skip_space s = CHR 0x22 # s1" "scan_string s1 = Inr (to_valid_utf8 k, s2)"
    "skip_space s2 = CHR '':'' # s3" "parse_value f d s3 = Inr (clean v, t)"
proof -
  define s3 where "s3 = CHR '' '' # json_indent n v @ t"
  define s1 where "s1 = concat (map json_escape (runes k)) @ CHR 0x22 # CHR '':'' # s3"
  have s: "skip_space s = CHR 0x22 # s1" using assms(3) by (simp add: json_quote_def s1_def s3_def)
  have "length s3 < length s" using skip_space_length[of s] unfolding s s1_def by simp
  moreover have "skip_space s3 = json_indent n v @ t"
    using printable_starts[OF assms(1), of n t] by (simp add: s3_def)
  ultimately have "parse_value f d s3 = Inr (clean v, t)"
    using assms(2,4) by (intro parses_backD) auto
  with s scan_quoted[of k "CHR '':'' # s3"] show thesis
    by (intro that[of s1 "CHR '':'' # s3" s3]) (simp_all add: s1_def)
qed

lemma parse_members_back:
  assumes "kvs \<noteq> []" "list_all (\<lambda>(k, v). printable d v \<and> parses_back n d v) kvs"
    and "skip_space s = separated ('','' @ newline n) (map (indent_member n) kvs) @ newline m @ CHR ''}'' # t"
    and "2 * length s + 1 < f"
  shows "parse_members f d s = Inr (map clean_member kvs, t)"
  using assms
proof (induction kvs arbitrary: s f rule: induct_list012)
  case (2 kv)
  then obtain g k v where [simp]: "f = Suc g" "kv = (k, v)" by (cases f; cases kv) auto
  from 2 have "skip_space s = indent_member n (k, v) @ newline m @ CHR ''}'' # t" by simp
  from parse_member_back[OF _ _ this, of d g] 2 show ?case by fastforce
next
  case (3 kv kv' kvs)
  then obtain g k v k' v' where [simp]: "f = Suc g" "kv = (k, v)" "kv' = (k', v')"
    by (cases f; cases kv; cases kv') auto
  define u where "u = newline n @ separated ('','' @ newline n) (map (indent_member n) (kv' # kvs))
    @ newline m @ CHR ''}'' # t"
  have s: "skip_space s = indent_member n (k, v) @ CHR '','' # u" using 3 by (simp add: u_def)
  have "skip_space u = separated ('','' @ newline n) (map (indent_member n) (kv' # kvs)) @ newline m @ CHR ''}'' # t"
    unfolding u_def by (cases kvs) (simp_all add: json_quote_def)
  moreover have "2 * length u + 1 < g"
    using skip_space_length[of s] "3.prems"(4) unfolding s by simp
  ultimately have "parse_members g d u = Inr (map clean_member (kv' # kvs), t)"
    using 3 by (intro "3.IH"(2)) auto
  moreover obtain s1 s2 s3 where "skip_space s = CHR 0x22 # s1" "scan_string s1 = Inr (to_valid_utf8 k, s2)"
      "skip_space s2 = CHR '':'' # s3" "parse_value g d s3 = Inr (clean v, CHR '','' # u)"
    using parse_member_back[OF _ _ s, of d g] 3 by auto
  ultimately show ?case by simp
qed simp

lemma parse_value_back: "printable d v \<Longrightarrow> parses_back n d v"
proof (induction v arbitrary: n d)
  case (JStr x)
  show ?case
  proof (rule parses_backI)
    fix g s t assume "skip_space s = json_indent n (JStr x) @ t"
    then show "parse_value (Suc g) d s = Inr (clean (JStr x), t)"
      using scan_quoted[of x t] by (simp add: json_quote_def)
  qed
next
  case (JArr vs)
  have all: "list_all (printable (Suc d)) vs" "list_all (parses_back (Suc n) (Suc d)) vs" "d < max_nesting"
    using JArr by (auto simp: list_all_iff)
  show ?case unfolding parses_back_def
  proof (intro allI impI)
    fix f s t assume s: "skip_space s = json_indent n (JArr vs) @ t" and f: "2 * length s < f"
    show "parse_value f d s = Inr (clean (JArr vs), t)"
    proof (cases vs)
      case Nil
      with s f all(3) show ?thesis by (cases f) auto
    next
      case (Cons v vs')
      define u where "u = newline (Suc n) @ separated ('','' @ newline (Suc n)) (map (json_indent (Suc n)) vs)
        @ newline n @ CHR '']'' # t"
      have su: "skip_space s = CHR ''['' # u" using s Cons by (simp add: u_def)
      have ku: "skip_space u = separated ('','' @ newline (Suc n)) (map (json_indent (Suc n)) vs)
          @ newline n @ CHR '']'' # t"
        using all(1) printable_starts[of "Suc d" v "Suc n"] unfolding u_def Cons by (cases vs') simp_all
      have "\<not> has_prefix (skip_space u) '']''"
        unfolding ku using all(1) printable_no_bracket[of "Suc d" v "Suc n"] unfolding Cons by (cases vs') simp_all
      moreover obtain g where g: "f = Suc g" "2 * length u + 1 < g"
        using f skip_space_length[of s] unfolding su by (cases f) auto
      then have "parse_elems g (Suc d) u = Inr (map clean vs, t)"
        using parse_elems_back[OF _ all(1,2) ku] Cons by simp
      ultimately show ?thesis using su g all(3) by simp
    qed
  qed
next
  case (JObj kvs)
  have all: "list_all (\<lambda>(k, v). printable (Suc d) v \<and> parses_back (Suc n) (Suc d) v) kvs" "d < max_nesting"
    using JObj by (auto simp: list_all_iff)
  show ?case unfolding parses_back_def
  proof (intro allI impI)
    fix f s t assume s: "skip_space s = json_indent n (JObj kvs) @ t" and f: "2 * length s < f"
    show "parse_value f d s = Inr (clean (JObj kvs), t)"
    proof (cases kvs)
      case Nil
      with s f all(2) show ?thesis by (cases f) auto
    next
      case (Cons kv kvs')
      define u where "u = newline (Suc n) @ separated ('','' @ newline (Suc n)) (map (indent_member (Suc n)) kvs)
        @ newline n @ CHR ''}'' # t"
      have su: "skip_space s = CHR ''{'' # u" using s Cons by (simp add: u_def)
      have ku: "skip_space u = separated ('','' @ newline (Suc n)) (map (indent_member (Suc n)) kvs)
          @ newline n @ CHR ''}'' # t"
        unfolding u_def Cons by (cases kv; cases kvs') (simp_all add: json_quote_def)
      have "\<not> has_prefix (skip_space u) ''}''"
        unfolding ku Cons by (cases kv; cases kvs') (simp_all add: json_quote_def)
      moreover obtain g where g: "f = Suc g" "2 * length u + 1 < g"
        using f skip_space_length[of s] unfolding su by (cases f) auto
      then have "parse_members g (Suc d) u = Inr (map clean_member kvs, t)"
        using parse_members_back[OF _ all(1) ku] Cons by simp
      ultimately show ?thesis using su g all(2) by simp
    qed
  qed
qed (rule parses_backI, auto simp: parse_literal.simps)+

theorem json_parse_printed:
  "printable 0 v \<Longrightarrow> skip_space t = [] \<Longrightarrow> json_parse (json_indent 0 v @ t) = Inr (clean v)"
  using parses_backD[OF parse_value_back[of 0 v 0], of "json_indent 0 v @ t" t] printable_starts[of 0 v 0 t]
  by (simp add: json_parse_def del: parse_value.simps)

end
