(* ===== verification/BaselineFile.thy ===== *)
theory BaselineFile
  imports Baseline Json
begin

text \<open>
  The baseline file (baseline.go): the two structs of its JSON form, \<^verbatim>\<open>Baseline.Save\<close> and
  \<^verbatim>\<open>LoadBaseline\<close>. The operating system is outside: \<^verbatim>\<open>os.WriteFile\<close> and \<^verbatim>\<open>os.ReadFile\<close> are
  arguments, with errors of any type. What \<^verbatim>\<open>json.Unmarshal\<close> does with these structs is
  modelled in full: field names match without regard to case, unknown fields are ignored,
  \<^verbatim>\<open>null\<close> leaves a string or a struct as it is and empties a slice, a value of another type is
  an error, and a repeated \<^verbatim>\<open>entries\<close> field decodes into the slots the first one left.
\<close>

record baseline_entry =
  be_Scope :: string
  be_Kind :: string
  be_Name :: string

record baseline_file =
  bf_Comment :: string
  bf_Entries :: "baseline_entry list"

definition baselineFileComment :: string where
  "baselineFileComment = ''txnpure baseline: (scope, op) pairs that already ran side effects inside transactions when txnpure was adopted. Their violations are tolerated until fixed; new violations still fail. Remove entries as call sites get fixed (the ratchet only goes down); regenerate deliberately with Baseline.Save, never automatically.''"

definition entry_of_key :: "violation_key \<Rightarrow> baseline_entry" where
  "entry_of_key k = \<lparr>be_Scope = vk_scope k, be_Kind = vk_kind k, be_Name = vk_name k\<rparr>"

definition key_of_entry :: "baseline_entry \<Rightarrow> violation_key" where
  "key_of_entry e = ViolationKey (be_Scope e) (be_Kind e) (be_Name e)"

lemma key_of_entry_of_key [simp]: "key_of_entry (entry_of_key k) = k"
  by (simp add: key_of_entry_def entry_of_key_def)

subsection \<open>Writing\<close>

definition entry_json :: "baseline_entry \<Rightarrow> json" where
  "entry_json e = JObj [(''scope'', JStr (be_Scope e)), (''kind'', JStr (be_Kind e)), (''name'', JStr (be_Name e))]"

definition file_json :: "baseline_file \<Rightarrow> json" where
  "file_json f = JObj [(''comment'', JStr (bf_Comment f)), (''entries'', JArr (map entry_json (bf_Entries f)))]"

text \<open>\<^verbatim>\<open>json.MarshalIndent\<close> cannot fail on these structs, which hold only strings.\<close>

definition MarshalIndent :: "baseline_file \<Rightarrow> json_error + bytes" where
  "MarshalIndent f = Inr (json_indent 0 (file_json f))"

datatype 'e save_error = MarshalFailed json_error | WriteFailed 'e

type_synonym ('e, 'w) write_file = "string \<Rightarrow> bytes \<Rightarrow> nat \<Rightarrow> 'w \<Rightarrow> 'e option \<times> 'w"

definition baseline_Save :: "('e, 'w) write_file \<Rightarrow> baseline \<Rightarrow> string \<Rightarrow> 'w \<Rightarrow> 'e save_error option \<times> 'w" where
  "baseline_Save write b path w =
     (let keys = baseline_Entries b;
          entries = map entry_of_key keys;
          f = \<lparr>bf_Comment = baselineFileComment, bf_Entries = entries\<rparr>
      in case MarshalIndent f of
           Inl e \<Rightarrow> (Some (MarshalFailed e), w)
         | Inr data \<Rightarrow>
             (case write path (data @ [CHR 0x0A]) 420 w of
                (Some e, w') \<Rightarrow> (Some (WriteFailed e), w')
              | (None, w') \<Rightarrow> (None, w')))"

subsection \<open>Reading\<close>

fun fold_result :: "('a \<Rightarrow> 's \<Rightarrow> 'e + 's) \<Rightarrow> 'a list \<Rightarrow> 's \<Rightarrow> 'e + 's" where
  "fold_result f [] s = Inr s"
| "fold_result f (x # xs) s = (case f x s of Inl e \<Rightarrow> Inl e | Inr s' \<Rightarrow> fold_result f xs s')"

text \<open>A key names a field when it is equal to it up to Unicode case folding: besides the
  capital letters, U+017F folds to \<^verbatim>\<open>s\<close> and U+212A to \<^verbatim>\<open>k\<close>.\<close>

definition fold_matches :: "char \<Rightarrow> nat \<Rightarrow> bool" where
  "fold_matches c r =
     (r = of_char c \<or> r + 32 = of_char c \<or> c = CHR ''s'' \<and> r = 0x17F \<or> c = CHR ''k'' \<and> r = 0x212A)"

definition names_field :: "string \<Rightarrow> string \<Rightarrow> bool" where
  "names_field field key = list_all2 fold_matches field (map fst (runes key))"

definition decode_string :: "json \<Rightarrow> string \<Rightarrow> json_error + string" where
  "decode_string v old = (case v of JStr s \<Rightarrow> Inr s | JNull \<Rightarrow> Inr old | _ \<Rightarrow> Inl WrongType)"

definition decode_entry_field :: "string \<times> json \<Rightarrow> baseline_entry \<Rightarrow> json_error + baseline_entry" where
  "decode_entry_field kv e =
     (if names_field ''scope'' (fst kv) then map_sum id (\<lambda>s. e\<lparr>be_Scope := s\<rparr>) (decode_string (snd kv) (be_Scope e))
      else if names_field ''kind'' (fst kv) then map_sum id (\<lambda>s. e\<lparr>be_Kind := s\<rparr>) (decode_string (snd kv) (be_Kind e))
      else if names_field ''name'' (fst kv) then map_sum id (\<lambda>s. e\<lparr>be_Name := s\<rparr>) (decode_string (snd kv) (be_Name e))
      else Inr e)"

definition decode_entry :: "json \<Rightarrow> baseline_entry \<Rightarrow> json_error + baseline_entry" where
  "decode_entry v e =
     (case v of JNull \<Rightarrow> Inr e | JObj kvs \<Rightarrow> fold_result decode_entry_field kvs e | _ \<Rightarrow> Inl WrongType)"

definition zero_entry :: baseline_entry where
  "zero_entry = \<lparr>be_Scope = [], be_Kind = [], be_Name = []\<rparr>"

text \<open>Element \<open>i\<close> is decoded into slot \<open>i\<close> of the backing array, fresh slots are zero.\<close>

fun decode_slots :: "nat \<Rightarrow> baseline_entry list \<Rightarrow> json list \<Rightarrow> json_error + baseline_entry list" where
  "decode_slots i slots [] = Inr slots"
| "decode_slots i slots (v # vs) =
     (case decode_entry v (if i < length slots then slots ! i else zero_entry) of
        Inl err \<Rightarrow> Inl err
      | Inr e \<Rightarrow> decode_slots (Suc i) (if i < length slots then slots[i := e] else slots @ [e]) vs)"

text \<open>The struct while it is decoded: the comment, the slots and the length of the slice.\<close>

record decoding =
  dc_Comment :: string
  dc_Slots :: "baseline_entry list"
  dc_Len :: nat

definition decode_entries :: "json \<Rightarrow> decoding \<Rightarrow> json_error + decoding" where
  "decode_entries v st =
     (case v of
        JNull \<Rightarrow> Inr (st\<lparr>dc_Slots := [], dc_Len := 0\<rparr>)
      | JArr vs \<Rightarrow>
          (if vs = [] then Inr (st\<lparr>dc_Slots := [], dc_Len := 0\<rparr>)
           else map_sum id (\<lambda>slots. st\<lparr>dc_Slots := slots, dc_Len := length vs\<rparr>) (decode_slots 0 (dc_Slots st) vs))
      | _ \<Rightarrow> Inl WrongType)"

definition decode_file_field :: "string \<times> json \<Rightarrow> decoding \<Rightarrow> json_error + decoding" where
  "decode_file_field kv st =
     (if names_field ''comment'' (fst kv) then map_sum id (\<lambda>s. st\<lparr>dc_Comment := s\<rparr>) (decode_string (snd kv) (dc_Comment st))
      else if names_field ''entries'' (fst kv) then decode_entries (snd kv) st
      else Inr st)"

definition decode_file :: "json \<Rightarrow> json_error + baseline_file" where
  "decode_file v =
     (let st = \<lparr>dc_Comment = [], dc_Slots = [], dc_Len = 0\<rparr> in
      map_sum id (\<lambda>st. \<lparr>bf_Comment = dc_Comment st, bf_Entries = take (dc_Len st) (dc_Slots st)\<rparr>)
        (case v of JNull \<Rightarrow> Inr st | JObj kvs \<Rightarrow> fold_result decode_file_field kvs st | _ \<Rightarrow> Inl WrongType))"

definition json_Unmarshal :: "bytes \<Rightarrow> json_error + baseline_file" where
  "json_Unmarshal data = (case json_parse data of Inl e \<Rightarrow> Inl e | Inr v \<Rightarrow> decode_file v)"

datatype 'e load_error = ReadFailed 'e | ParseFailed string json_error

type_synonym ('e, 'w) read_file = "string \<Rightarrow> 'w \<Rightarrow> 'e + bytes"

definition LoadBaseline :: "('e, 'w) read_file \<Rightarrow> string \<Rightarrow> 'w \<Rightarrow> 'e load_error + baseline" where
  "LoadBaseline read path w =
     (case read path w of
        Inl e \<Rightarrow> Inl (ReadFailed e)
      | Inr data \<Rightarrow>
          (case json_Unmarshal data of
             Inl e \<Rightarrow> Inl (ParseFailed path e)
           | Inr f \<Rightarrow> Inr (foldl (\<lambda>b e. map_put (key_of_entry e) False b) NewBaseline (bf_Entries f))))"

subsection \<open>The file is read back\<close>

definition clean_entry :: "baseline_entry \<Rightarrow> baseline_entry" where
  "clean_entry e = \<lparr>be_Scope = to_valid_utf8 (be_Scope e), be_Kind = to_valid_utf8 (be_Kind e),
     be_Name = to_valid_utf8 (be_Name e)\<rparr>"

definition clean_key :: "violation_key \<Rightarrow> violation_key" where
  "clean_key k = ViolationKey (to_valid_utf8 (vk_scope k)) (to_valid_utf8 (vk_kind k)) (to_valid_utf8 (vk_name k))"

definition valid_key :: "violation_key \<Rightarrow> bool" where
  "valid_key k = (valid_utf8 (vk_scope k) \<and> valid_utf8 (vk_kind k) \<and> valid_utf8 (vk_name k))"

lemma clean_key_fixed_iff: "clean_key k = k \<longleftrightarrow> valid_key k"
  by (cases k) (auto simp: clean_key_def valid_key_def to_valid_utf8_fixed_iff)

lemma valid_clean_key [simp]: "valid_key (clean_key k)"
  by (simp add: clean_key_def valid_key_def)

lemma key_of_clean_entry: "key_of_entry (clean_entry (entry_of_key k)) = clean_key k"
  by (simp add: key_of_entry_def clean_entry_def entry_of_key_def clean_key_def)

text \<open>The names of the fields name their own fields and no other.\<close>

lemma names_field_own [simp]:
  "names_field ''scope'' ''scope''" "names_field ''kind'' ''kind''" "names_field ''name'' ''name''"
  "names_field ''comment'' ''comment''" "names_field ''entries'' ''entries''"
  by (simp_all add: names_field_def runes_ascii fold_matches_def)

lemma names_field_other [simp]:
  "\<not> names_field ''scope'' ''kind''" "\<not> names_field ''scope'' ''name''" "\<not> names_field ''kind'' ''name''"
  "\<not> names_field ''comment'' ''entries''"
  by (simp_all add: names_field_def runes_ascii fold_matches_def)

lemma decode_entry_clean: "decode_entry (clean (entry_json e)) zero_entry = Inr (clean_entry e)"
  by (simp add: entry_json_def decode_entry_def decode_entry_field_def decode_string_def zero_entry_def
      clean_entry_def)

lemma decode_slots_clean:
  "decode_slots (length acc) acc (map clean (map entry_json es)) = Inr (acc @ map clean_entry es)"
proof (induction es arbitrary: acc)
  case (Cons e es)
  from Cons[of "acc @ [clean_entry e]"] show ?case by (simp add: decode_entry_clean)
qed simp

lemma decode_file_clean:
  "decode_file (clean (file_json f)) =
     Inr \<lparr>bf_Comment = to_valid_utf8 (bf_Comment f), bf_Entries = map clean_entry (bf_Entries f)\<rparr>"
proof -
  have "decode_slots 0 [] (map clean (map entry_json (bf_Entries f))) = Inr (map clean_entry (bf_Entries f))"
    using decode_slots_clean[of "[]" "bf_Entries f"] by simp
  then show ?thesis
    by (simp add: file_json_def decode_file_def decode_file_field_def decode_string_def decode_entries_def
        Let_def)
qed

lemma file_json_printable: "printable 0 (file_json f)"
  by (simp add: file_json_def entry_json_def max_nesting_def list_all_iff)

lemma Unmarshal_Marshal:
  assumes "MarshalIndent f = Inr data" "skip_space t = []"
  shows "json_Unmarshal (data @ t)
    = Inr \<lparr>bf_Comment = to_valid_utf8 (bf_Comment f), bf_Entries = map clean_entry (bf_Entries f)\<rparr>"
proof -
  have "data = json_indent 0 (file_json f)" using assms(1) by (simp add: MarshalIndent_def)
  with json_parse_printed[OF file_json_printable assms(2), of f] show ?thesis
    by (simp only: json_Unmarshal_def sum.case decode_file_clean)
qed

lemma foldl_put_keys:
  "map_ok b \<Longrightarrow> map_ok (foldl (\<lambda>b e. map_put (g e) False b) b es)
     \<and> map_of (foldl (\<lambda>b e. map_put (g e) False b) b es)
        = (\<lambda>k. if k \<in> g ` set es then Some False else map_of b k)"
  by (induction es arbitrary: b) (auto simp: fun_eq_iff)

text \<open>The bytes of a saved baseline.\<close>

definition saved_bytes :: "baseline \<Rightarrow> bytes" where
  "saved_bytes b = json_indent 0 (file_json
     \<lparr>bf_Comment = baselineFileComment, bf_Entries = map entry_of_key (baseline_Entries b)\<rparr>) @ [CHR 0x0A]"

lemma baseline_Save_eq:
  "baseline_Save write b path w =
     (case write path (saved_bytes b) 420 w of
        (None, w') \<Rightarrow> (None, w') | (Some e, w') \<Rightarrow> (Some (WriteFailed e), w'))"
  by (simp add: baseline_Save_def MarshalIndent_def saved_bytes_def Let_def split: option.split)

lemma LoadBaseline_saved:
  assumes "map_ok b" "read path w = Inr (saved_bytes b)"
  shows "case LoadBaseline read path w of Inl e \<Rightarrow> False
    | Inr b' \<Rightarrow> map_ok b' \<and> map_of b' = (\<lambda>k. if k \<in> clean_key ` dom (map_of b) then Some False else None)"
proof -
  define es where "es = map clean_entry (map entry_of_key (baseline_Entries b))"
  have "json_Unmarshal (saved_bytes b) = Inr \<lparr>bf_Comment = to_valid_utf8 baselineFileComment, bf_Entries = es\<rparr>"
    unfolding saved_bytes_def es_def
    using Unmarshal_Marshal[OF MarshalIndent_def, of "[CHR 0x0A]"
        "\<lparr>bf_Comment = baselineFileComment, bf_Entries = map entry_of_key (baseline_Entries b)\<rparr>"] by simp
  then have "LoadBaseline read path w = Inr (foldl (\<lambda>b e. map_put (key_of_entry e) False b) NewBaseline es)"
    by (simp add: LoadBaseline_def assms(2))
  moreover have "key_of_entry ` set es = clean_key ` dom (map_of b)"
    using assms(1) by (auto simp: es_def image_image key_of_clean_entry baseline_Entries_def set_keys_where dom_def)
  moreover note foldl_put_keys[of NewBaseline key_of_entry es]
  ultimately show ?thesis by (simp add: NewBaseline_def fun_eq_iff)
qed

lemma entries_dom: "map_ok b \<Longrightarrow> set (baseline_Entries b) = dom (map_of b)"
  by (auto simp: baseline_Entries_def set_keys_where)

lemma entries_sorted: "map_ok b \<Longrightarrow> baseline_Entries b = sorted_list_of_set (dom (map_of b))"
  by (rule sorted_list_eqI) (auto simp: baseline_Entries_def distinct_keys_where set_keys_where)

lemma unused_entries_all:
  assumes "map_ok b" "map_of b = (\<lambda>k. if k \<in> K then Some False else None)"
  shows "baseline_UnusedEntries b = baseline_Entries b"
  unfolding baseline_UnusedEntries_def baseline_Entries_def sortKeys_def
  by (rule sorted_distinct_set_unique)
    (use assms in \<open>auto simp: distinct_keys_where set_keys_where\<close>)

lemma dom_const: "dom (\<lambda>k. if k \<in> K then Some x else None) = K"
  by (auto simp: dom_def)

text \<open>What loading a saved baseline gives, with the law of the file system: what a successful
  write left is what a read returns.\<close>

lemma saved_then_loaded:
  assumes "map_ok b"
    and "\<And>data w w'. write path data 420 w = (None, w') \<Longrightarrow> read path w' = Inr data"
    and "baseline_Save write b path w = (None, w')"
  obtains b' where "LoadBaseline read path w' = Inr b'" "map_ok b'"
    "map_of b' = (\<lambda>k. if k \<in> clean_key ` dom (map_of b) then Some False else None)"
proof -
  have "write path (saved_bytes b) 420 w = (None, w')"
    using assms(3) by (auto simp: baseline_Save_eq split: prod.splits option.splits)
  then have "read path w' = Inr (saved_bytes b)" by (rule assms(2))
  with LoadBaseline_saved[of b read path w', OF assms(1)] show thesis
    using that by (auto split: sum.splits)
qed

lemma map_sum_id_Inl [simp]: "map_sum id f x = Inl e \<longleftrightarrow> x = Inl e"
  by (cases x) auto

lemma fold_result_error: "fold_result f xs s = Inl e \<Longrightarrow> \<exists>x s. f x s = Inl e"
  by (induction xs arbitrary: s) (auto split: sum.splits)

lemma decode_string_decides: "decode_string v old \<noteq> Inl OutOfFuel"
  by (simp add: decode_string_def split: json.split)

lemma decode_entry_decides: "decode_entry v e \<noteq> Inl OutOfFuel"
  by (auto simp: decode_entry_def decode_entry_field_def decode_string_decides
      split: json.split if_splits dest!: fold_result_error)

lemma decode_slots_decides: "decode_slots i slots vs \<noteq> Inl OutOfFuel"
proof (induction vs arbitrary: i slots)
  case (Cons v vs)
  let ?e = "if i < length slots then slots ! i else zero_entry"
  show ?case using decode_entry_decides[of v ?e] Cons by (simp only: decode_slots.simps split: sum.split) blast
qed simp

lemma Unmarshal_decides: "json_Unmarshal data \<noteq> Inl OutOfFuel"
  using parse_terminates[of data]
  by (auto simp: json_Unmarshal_def decode_file_def decode_file_field_def decode_entries_def Let_def
      decode_string_decides decode_slots_decides split: sum.split json.splits if_splits dest!: fold_result_error)

text \<open>
  C19. Saving a baseline and loading the file gives back its entries, sorted, without
  duplicates and all marked unused, whatever they were marked when the file was written; a
  name that is not UTF-8 comes back with U+FFFD in the place of its bad bytes. So the entries
  are the same exactly when all their names are UTF-8. The hypothesis on the file system is
  that a read returns what the last successful write left.
\<close>

theorem baseline_save_load_roundtrip:
  assumes "map_ok b"
    and "\<And>data w w'. write path data 420 w = (None, w') \<Longrightarrow> read path w' = Inr data"
    and "baseline_Save write b path w = (None, w')"
  shows "case LoadBaseline read path w' of Inl e \<Rightarrow> False
    | Inr b' \<Rightarrow> baseline_Entries b' = sorted_list_of_set (clean_key ` set (baseline_Entries b))
        \<and> baseline_UnusedEntries b' = baseline_Entries b'
        \<and> (baseline_Entries b' = baseline_Entries b) = list_all valid_key (baseline_Entries b)"
proof -
  from assms obtain b' where b': "LoadBaseline read path w' = Inr b'" "map_ok b'"
      "map_of b' = (\<lambda>k. if k \<in> clean_key ` dom (map_of b) then Some False else None)"
    by (rule saved_then_loaded)
  have dom: "dom (map_of b') = clean_key ` dom (map_of b)" unfolding b'(3) by (rule dom_const)
  have e: "baseline_Entries b' = sorted_list_of_set (clean_key ` set (baseline_Entries b))"
    unfolding entries_sorted[OF b'(2)] entries_dom[OF assms(1)] dom ..
  have "baseline_Entries b' = baseline_Entries b \<longleftrightarrow> clean_key ` dom (map_of b) = dom (map_of b)"
    by (metis b'(2) assms(1) dom entries_dom entries_sorted)
  also have "\<dots> \<longleftrightarrow> (\<forall>k \<in> dom (map_of b). valid_key k)"
    using clean_key_fixed_iff valid_clean_key by (metis (mono_tags, lifting) image_cong image_iff image_ident)
  also have "\<dots> \<longleftrightarrow> list_all valid_key (baseline_Entries b)"
    by (simp add: list_all_iff entries_dom[OF assms(1)])
  finally show ?thesis using b'(1) e unused_entries_all[OF b'(2,3)] by simp
qed

definition demo_write :: "(string, string \<Rightarrow> bytes option) write_file" where
  "demo_write path data mode w = (None, w(path := Some data))"

definition demo_read :: "(string, string \<Rightarrow> bytes option) read_file" where
  "demo_read path w = (case w path of None \<Rightarrow> Inl ''no such file'' | Some data \<Rightarrow> Inr data)"

theorem baseline_save_load_roundtrip_witness:
  "case LoadBaseline demo_read ''f'' (snd (baseline_Save demo_write [(ViolationKey ''S'' ''db'' ''x<y'', True)] ''f'' (\<lambda>p. None)))
     of Inl e \<Rightarrow> False
      | Inr b' \<Rightarrow> baseline_UnusedEntries b' = [ViolationKey ''S'' ''db'' ''x<y'']"
proof -
  define b where "b = [(ViolationKey ''S'' ''db'' ''x<y'', True)]"
  define w' where "w' = snd (baseline_Save demo_write b ''f'' (\<lambda>p. None))"
  have saved: "baseline_Save demo_write b ''f'' (\<lambda>p. None) = (None, w')"
    by (simp add: w'_def baseline_Save_eq demo_write_def)
  have "map_ok b" by (simp add: b_def map_ok_def)
  note law = baseline_save_load_roundtrip[of b demo_write "''f''" demo_read, OF this _ saved]
  have "baseline_Entries b = [ViolationKey ''S'' ''db'' ''x<y'']"
    by (simp add: b_def baseline_Entries_def sortKeys_def)
  moreover have "valid_key (ViolationKey ''S'' ''db'' ''x<y'')" by (simp add: valid_key_def)
  ultimately show ?thesis unfolding w'_def[symmetric] b_def[symmetric] using law
    by (auto simp: demo_write_def demo_read_def split: sum.splits)
qed

text \<open>
  C20. The whole adoption flow: a baseline captured from the violations of one run, saved,
  loaded in a later run and installed there tolerates exactly the violations that were
  captured, whatever happens in between, and afterwards lists as unused exactly those that
  did not occur again. All names are UTF-8.
\<close>

theorem adoption_flow:
  assumes "\<And>data w w'. write path data 420 w = (None, w') \<Longrightarrow> read path w' = Inr data"
    and "baseline_Save write (BaselineFromViolations vs) path w = (None, w')"
    and "\<forall>v \<in> set vs. valid_key (violation_key_of v)"
  shows "case LoadBaseline read path w' of Inl e \<Rightarrow> False
    | Inr b \<Rightarrow> fst (baseline_run ks b) = map (\<lambda>k. k \<in> violation_key_of ` set vs) ks
        \<and> baseline_UnusedEntries (snd (baseline_run ks b))
            = sorted_list_of_set (violation_key_of ` set vs - set ks)"
proof -
  let ?K = "violation_key_of ` set vs"
  have dom: "dom (map_of (BaselineFromViolations vs)) = ?K"
    unfolding BaselineFromViolations_map(2)[abs_def] by (rule dom_const)
  have K: "clean_key ` ?K = ?K"
    unfolding image_image using assms(3) by (intro image_cong) (simp_all add: clean_key_fixed_iff)
  obtain b where b: "LoadBaseline read path w' = Inr b" "map_ok b"
      "map_of b = (\<lambda>k. if k \<in> ?K then Some False else None)"
  proof (rule saved_then_loaded)
    show "map_ok (BaselineFromViolations vs)" by (rule BaselineFromViolations_map(1))
    show "baseline_Save write (BaselineFromViolations vs) path w = (None, w')" by (rule assms(2))
  qed (use assms(1) in \<open>simp_all add: dom K\<close>)
  show ?thesis using baseline_run_spec[OF b(2,3), of ks] by (simp add: b(1))
qed

theorem adoption_flow_witness:
  "let vs = [\<lparr>v_Op = Op ''db'' ''orders'', v_Scope = ''S'', v_OpenTxs = 1, v_Call = 1, v_AllowedCalls = [],
        v_Stack = [], v_Attrs = [], v_Time = 0\<rparr>];
     w' = snd (baseline_Save demo_write (BaselineFromViolations vs) ''f'' (\<lambda>p. None))
   in case LoadBaseline demo_read ''f'' w' of Inl e \<Rightarrow> False
      | Inr b \<Rightarrow> fst (baseline_run [ViolationKey ''S'' ''db'' ''orders'', ViolationKey ''S'' ''db'' ''users''] b) = [True, False]"
proof -
  define vs where "vs = [\<lparr>v_Op = Op ''db'' ''orders'', v_Scope = ''S'', v_OpenTxs = 1, v_Call = 1, v_AllowedCalls = [],
        v_Stack = [], v_Attrs = [], v_Time = (0 :: time)\<rparr>]"
  define w' where "w' = snd (baseline_Save demo_write (BaselineFromViolations vs) ''f'' (\<lambda>p. None))"
  have saved: "baseline_Save demo_write (BaselineFromViolations vs) ''f'' (\<lambda>p. None) = (None, w')"
    by (simp add: w'_def baseline_Save_eq demo_write_def)
  have valid: "\<forall>v \<in> set vs. valid_key (violation_key_of v)"
    by (simp add: vs_def valid_key_def violation_key_of_def)
  have "case LoadBaseline demo_read ''f'' w' of Inl e \<Rightarrow> False
      | Inr b \<Rightarrow> fst (baseline_run [ViolationKey ''S'' ''db'' ''orders'', ViolationKey ''S'' ''db'' ''users''] b) = [True, False]"
    using adoption_flow[of demo_write "''f''" demo_read, OF _ saved valid,
        of "[ViolationKey ''S'' ''db'' ''orders'', ViolationKey ''S'' ''db'' ''users'']"]
    by (auto simp: demo_write_def demo_read_def vs_def violation_key_of_def split: sum.splits)
  then show ?thesis by (simp add: Let_def vs_def w'_def)
qed

text \<open>
  An identity with a name that is not UTF-8 is tolerated by the baseline in memory and
  no longer by the baseline loaded from the file that baseline was saved to: Go strings may
  hold any bytes, and the JSON writer replaces the bad ones.
\<close>

theorem saved_baseline_loses_bad_names:
  assumes "map_ok b" and "map_of b k \<noteq> None" and "\<not> valid_key k"
    and "\<And>data w w'. write path data 420 w = (None, w') \<Longrightarrow> read path w' = Inr data"
    and "baseline_Save write b path w = (None, w')"
  shows "fst (baseline_covers k b)
    \<and> (case LoadBaseline read path w' of Inl e \<Rightarrow> False | Inr b' \<Rightarrow> \<not> fst (baseline_covers k b'))"
proof
  show "fst (baseline_covers k b)" using assms(2) by (auto simp: baseline_covers_def)
  from assms(1,4,5) obtain b' where b': "LoadBaseline read path w' = Inr b'" "map_ok b'"
      "map_of b' = (\<lambda>k. if k \<in> clean_key ` dom (map_of b) then Some False else None)"
    by (rule saved_then_loaded)
  have "k \<notin> clean_key ` dom (map_of b)" using assms(3) by auto
  with b' show "case LoadBaseline read path w' of Inl e \<Rightarrow> False | Inr b' \<Rightarrow> \<not> fst (baseline_covers k b')"
    by (simp add: baseline_covers_def)
qed

theorem saved_baseline_loses_bad_names_witness:
  "let b = [(ViolationKey ''S'' ''db'' [CHR 0xFF], False)];
       w' = snd (baseline_Save demo_write b ''f'' (\<lambda>p. None))
   in fst (baseline_covers (ViolationKey ''S'' ''db'' [CHR 0xFF]) b)
      \<and> (case LoadBaseline demo_read ''f'' w' of Inl e \<Rightarrow> False
         | Inr b' \<Rightarrow> \<not> fst (baseline_covers (ViolationKey ''S'' ''db'' [CHR 0xFF]) b'))"
proof -
  define b where "b = [(ViolationKey ''S'' ''db'' [CHR 0xFF], False)]"
  define w' where "w' = snd (baseline_Save demo_write b ''f'' (\<lambda>p. None))"
  have saved: "baseline_Save demo_write b ''f'' (\<lambda>p. None) = (None, w')"
    by (simp add: w'_def baseline_Save_eq demo_write_def)
  have bad: "\<not> valid_key (ViolationKey ''S'' ''db'' [CHR 0xFF])"
    by (simp add: valid_key_def to_valid_utf8_bad(2) decode_rune_def Let_def)
  have "map_ok b" "map_of b (ViolationKey ''S'' ''db'' [CHR 0xFF]) \<noteq> None"
    by (simp_all add: b_def map_ok_def)
  from saved_baseline_loses_bad_names[of b _ demo_write "''f''" demo_read, OF this bad _ saved]
  show ?thesis by (simp add: Let_def demo_write_def demo_read_def b_def w'_def)
qed

text \<open>
  C34. Loading a baseline always ends with a baseline or with an error, and never invents
  one: the error is the one of the read (a missing file is such an error), or says that the
  bytes are not JSON of the right shape. The parser decides every input, and the baseline it
  yields has distinct entries, all of them unused.
\<close>

theorem LoadBaseline_decides:
  "case LoadBaseline read path w of
     Inl e \<Rightarrow> (case read path w of Inl err \<Rightarrow> e = ReadFailed err
        | Inr data \<Rightarrow> (\<exists>je. e = ParseFailed path je \<and> json_Unmarshal data = Inl je \<and> je \<noteq> OutOfFuel))
   | Inr b \<Rightarrow> (case read path w of Inl err \<Rightarrow> False
        | Inr data \<Rightarrow> (\<exists>f. json_Unmarshal data = Inr f
            \<and> baseline_UnusedEntries b = sorted_list_of_set (key_of_entry ` set (bf_Entries f))
            \<and> baseline_Entries b = baseline_UnusedEntries b))"
proof (cases "read path w")
  case (Inl err)
  then show ?thesis by (simp add: LoadBaseline_def)
next
  case (Inr data)
  show ?thesis
  proof (cases "json_Unmarshal data")
    case (Inl je)
    with Unmarshal_decides[of data] Inr show ?thesis by (auto simp: LoadBaseline_def)
  next
    case (Inr f)
    define b where "b = foldl (\<lambda>b e. map_put (key_of_entry e) False b) NewBaseline (bf_Entries f)"
    have ok: "map_ok b" and m: "map_of b = (\<lambda>k. if k \<in> key_of_entry ` set (bf_Entries f) then Some False else None)"
      using foldl_put_keys[of NewBaseline key_of_entry "bf_Entries f"] by (simp_all add: b_def NewBaseline_def fun_eq_iff)
    have "dom (map_of b) = key_of_entry ` set (bf_Entries f)" unfolding m by (rule dom_const)
    then show ?thesis using Inr \<open>read path w = Inr data\<close> entries_sorted[OF ok] unused_entries_all[OF ok m]
      by (simp add: LoadBaseline_def flip: b_def)
  qed
qed

end
