(* ===== verification/Float64.thy ===== *)
theory Float64
  imports Prelude Complex_Main "HOL-Library.Log_Nat"
begin

text \<open>
  Go's \<^verbatim>\<open>float64\<close>: IEEE 754 double precision with rounding to nearest, ties to even. A
  finite value is the rational it stands for, \<open>Infty\<close> says whether it is negative, and the two zeros are one value; the sign of a
  zero shows in this program only as \<^verbatim>\<open>-0.00\<close> where \<^verbatim>\<open>0.00\<close> is printed. Arithmetic computes
  the exact result and rounds it once. The facts proved here are those the benchmark gate
  needs: rounding is monotone, and a value minus itself is never above a bound that is not
  negative.
\<close>

datatype float64 = NaN | Infty bool | Fin rat

subsection \<open>Rounding\<close>

text \<open>The binary exponent of a positive rational: \<open>2 powi ilog2 x \<le> x < 2 powi (ilog2 x + 1)\<close>.\<close>

definition ilog2 :: "rat \<Rightarrow> int" where
  "ilog2 x =
     (case quotient_of x of (p, q) \<Rightarrow>
        let k = bitlen p - bitlen q in if 2 powi k \<le> x then k else k - 1)"

definition round_even :: "rat \<Rightarrow> int" where
  "round_even x =
     (let f = \<lfloor>x\<rfloor>; d = x - of_int f in
      if d < 1 / 2 then f else if 1 / 2 < d then f + 1 else if even f then f else f + 1)"

text \<open>The weight of the last of the 53 bits; below the normal range it stays at \<open>2 powi -1074\<close>.\<close>

definition ulp_exp :: "rat \<Rightarrow> int" where
  "ulp_exp x = max (- 1074) (ilog2 x - 52)"

definition round_mag :: "rat \<Rightarrow> rat" where
  "round_mag x = (if x = 0 then 0 else of_int (round_even (x / 2 powi ulp_exp x)) * 2 powi ulp_exp x)"

text \<open>Magnitudes from \<open>2 powi 1024\<close> on are infinite.\<close>

definition float_limit :: rat where
  "float_limit = 2 powi 1024"

definition round64 :: "rat \<Rightarrow> float64" where
  "round64 x =
     (let y = round_mag \<bar>x\<bar> in
      if float_limit \<le> y then Infty (x < 0) else Fin (if x < 0 then - y else y))"

lemma float_limit_pos [simp]: "0 < float_limit" "\<not> float_limit \<le> 0"
  by (simp_all add: float_limit_def)

lemma round64_0 [simp]: "round64 0 = Fin 0"
  by (simp add: round64_def round_mag_def)

subsection \<open>Arithmetic and comparison\<close>

fun f_add :: "float64 \<Rightarrow> float64 \<Rightarrow> float64" where
  "f_add (Fin x) (Fin y) = round64 (x + y)"
| "f_add (Infty a) (Fin y) = Infty a"
| "f_add (Fin x) (Infty b) = Infty b"
| "f_add (Infty a) (Infty b) = (if a = b then Infty a else NaN)"
| "f_add _ _ = NaN"

fun f_neg :: "float64 \<Rightarrow> float64" where
  "f_neg (Fin x) = Fin (- x)"
| "f_neg (Infty a) = Infty (\<not> a)"
| "f_neg NaN = NaN"

definition f_sub :: "float64 \<Rightarrow> float64 \<Rightarrow> float64" where
  "f_sub a b = f_add a (f_neg b)"

fun f_mul :: "float64 \<Rightarrow> float64 \<Rightarrow> float64" where
  "f_mul (Fin x) (Fin y) = round64 (x * y)"
| "f_mul (Infty a) (Fin y) = (if y = 0 then NaN else Infty (a \<noteq> (y < 0)))"
| "f_mul (Fin x) (Infty b) = (if x = 0 then NaN else Infty (b \<noteq> (x < 0)))"
| "f_mul (Infty a) (Infty b) = Infty (a \<noteq> b)"
| "f_mul _ _ = NaN"

fun f_div :: "float64 \<Rightarrow> float64 \<Rightarrow> float64" where
  "f_div (Fin x) (Fin y) = (if y = 0 then (if x = 0 then NaN else Infty (x < 0)) else round64 (x / y))"
| "f_div (Infty a) (Fin y) = Infty (a \<noteq> (y < 0))"
| "f_div (Fin x) (Infty b) = Fin 0"
| "f_div _ _ = NaN"

text \<open>The operator \<^verbatim>\<open><\<close>, which is false when an operand is not a number, and \<^verbatim>\<open>==\<close> with zero.\<close>

fun f_less :: "float64 \<Rightarrow> float64 \<Rightarrow> bool" where
  "f_less (Fin x) (Fin y) = (x < y)"
| "f_less (Infty a) (Fin y) = a"
| "f_less (Fin x) (Infty b) = (\<not> b)"
| "f_less (Infty a) (Infty b) = (a \<and> \<not> b)"
| "f_less _ _ = False"

text \<open>The order of \<^verbatim>\<open>sort.Float64s\<close>, which puts what is not a number first.\<close>

instantiation float64 :: linorder
begin

definition less_float64 :: "float64 \<Rightarrow> float64 \<Rightarrow> bool" where
  "less_float64 a b = (f_less a b \<or> a = NaN \<and> b \<noteq> NaN)"

definition less_eq_float64 :: "float64 \<Rightarrow> float64 \<Rightarrow> bool" where
  "less_eq_float64 a b = (a = b \<or> a < b)"

instance
proof
  fix x y z :: float64
  show "(x < y) = (x \<le> y \<and> \<not> y \<le> x)"
    by (cases x; cases y) (auto simp: less_float64_def less_eq_float64_def)
  show "x \<le> x" by (simp add: less_eq_float64_def)
  show "x \<le> y \<Longrightarrow> y \<le> z \<Longrightarrow> x \<le> z"
    by (cases x; cases y; cases z) (auto simp: less_float64_def less_eq_float64_def)
  show "x \<le> y \<Longrightarrow> y \<le> x \<Longrightarrow> x = y"
    by (cases x; cases y) (auto simp: less_float64_def less_eq_float64_def)
  show "x \<le> y \<or> y \<le> x"
    by (cases x; cases y) (auto simp: less_float64_def less_eq_float64_def)
qed

end

lemma f_less_order: "f_less a b \<longleftrightarrow> a < b \<and> a \<noteq> NaN"
  by (cases a; cases b) (auto simp: less_float64_def)

lemma float_le_simps [simp]:
  "NaN \<le> v" "Fin x \<le> Fin y \<longleftrightarrow> x \<le> y" "Fin x \<le> Infty b \<longleftrightarrow> \<not> b" "Infty a \<le> Fin y \<longleftrightarrow> a"
  "Infty a \<le> Infty b \<longleftrightarrow> (b \<longrightarrow> a)" "\<not> Infty a \<le> NaN" "\<not> Fin x \<le> NaN"
  by (cases v; auto simp: less_eq_float64_def less_float64_def)+

lemma not_less_NaN [simp]: "\<not> v < NaN"
  by (cases v) (simp_all add: less_float64_def)

lemma f_less_trans_le: "f_less a b \<Longrightarrow> b \<le> c \<Longrightarrow> f_less a c"
  by (auto simp: f_less_order)

lemma f_less_le_trans: "a \<le> b \<Longrightarrow> f_less b c \<Longrightarrow> a \<noteq> NaN \<Longrightarrow> f_less a c"
  by (auto simp: f_less_order)

lemma f_less_asym: "f_less a b \<Longrightarrow> \<not> f_less b a" and f_less_irrefl [simp]: "\<not> f_less a a"
  by (auto simp: f_less_order)

lemma f_sub_self: "f_sub a a = Fin 0 \<or> f_sub a a = NaN"
  by (cases a) (simp_all add: f_sub_def)

subsection \<open>Rounding is monotone\<close>

abbreviation p2 :: "int \<Rightarrow> rat" where
  "p2 k \<equiv> 2 powi k"

lemma p2_add: "p2 (a + b) = p2 a * p2 b"
  by (simp add: power_int_add)

lemma p2_pos [simp]: "0 < p2 k"
  by (simp add: zero_less_power_int)

lemma p2_mono: "a \<le> b \<Longrightarrow> p2 a \<le> p2 b"
  by (rule power_int_increasing) simp_all

lemma p2_less_imp: "p2 a < p2 b \<Longrightarrow> a < b"
  by (meson leD not_le_imp_less p2_mono)

lemma bitlen_p2:
  assumes "0 < x"
  shows "p2 (bitlen x - 1) \<le> of_int x" "of_int x < p2 (bitlen x)"
proof -
  have "1 \<le> bitlen x" using assms bitlen_nonneg[of x] bitlen_eq_zero_iff[of x] by linarith
  then have b: "p2 (bitlen x - 1) = of_int (2 ^ nat (bitlen x - 1))" "p2 (bitlen x) = of_int (2 ^ nat (bitlen x))"
    by (simp_all add: power_int_nonneg_exp)
  show "p2 (bitlen x - 1) \<le> of_int x" "of_int x < p2 (bitlen x)"
    unfolding b of_int_le_iff of_int_less_iff using bitlen_bounds[OF assms] by simp_all
qed

lemma ilog2_bounds:
  assumes "0 < x"
  shows "p2 (ilog2 x) \<le> x" "x < p2 (ilog2 x + 1)"
proof -
  obtain p q where pq: "quotient_of x = (p, q)" by fastforce
  have q: "0 < q" using pq by (rule quotient_of_denom_pos)
  have x: "x = of_int p / of_int q" using pq by (rule quotient_of_div)
  have p: "0 < p" using assms q by (simp add: x zero_less_divide_iff)
  define k where "k = bitlen p - bitlen q"
  have "of_int p < p2 (bitlen p)" "p2 (bitlen q - 1) \<le> of_int q" using p q by (auto intro: bitlen_p2)
  then have "x < p2 (bitlen p) / p2 (bitlen q - 1)"
    unfolding x using p by (intro frac_less) simp_all
  also have "\<dots> = p2 (bitlen p - (bitlen q - 1))" by (simp flip: power_int_diff)
  also have "bitlen p - (bitlen q - 1) = k + 1" by (simp add: k_def)
  finally have up: "x < p2 (k + 1)" .
  have "p2 (bitlen p - 1) \<le> of_int p" "of_int q < p2 (bitlen q)" using p q by (auto intro: bitlen_p2)
  then have "p2 (bitlen p - 1) / p2 (bitlen q) \<le> x"
    unfolding x using p q by (intro frac_le) simp_all
  moreover have "p2 (bitlen p - 1) / p2 (bitlen q) = p2 (bitlen p - 1 - bitlen q)" by (simp flip: power_int_diff)
  moreover have "bitlen p - 1 - bitlen q = k - 1" by (simp add: k_def)
  ultimately have lo: "p2 (k - 1) \<le> x" by simp
  show "p2 (ilog2 x) \<le> x" "x < p2 (ilog2 x + 1)"
    using up lo by (auto simp: ilog2_def pq Let_def simp flip: k_def)
qed

lemma ilog2_mono: "0 < x \<Longrightarrow> x \<le> y \<Longrightarrow> ilog2 x \<le> ilog2 y"
proof -
  assume "0 < x" "x \<le> y"
  then have "p2 (ilog2 x) < p2 (ilog2 y + 1)"
    using ilog2_bounds(1)[of x] ilog2_bounds(2)[of y] by linarith
  then have "ilog2 x < ilog2 y + 1" by (rule p2_less_imp)
  then show ?thesis by simp
qed

lemma round_even_cases: "round_even x = \<lfloor>x\<rfloor> \<and> x - of_int \<lfloor>x\<rfloor> \<le> 1 / 2 \<or> round_even x = \<lfloor>x\<rfloor> + 1 \<and> 1 / 2 \<le> x - of_int \<lfloor>x\<rfloor>"
  by (auto simp: round_even_def Let_def)

lemma round_even_of_int [simp]: "round_even (of_int n) = n"
  by (simp add: round_even_def Let_def)

lemma round_even_mono: "x \<le> y \<Longrightarrow> round_even x \<le> round_even y"
proof -
  assume xy: "x \<le> y"
  then have f: "\<lfloor>x\<rfloor> \<le> \<lfloor>y\<rfloor>" by (rule floor_mono)
  show ?thesis
  proof (cases "\<lfloor>x\<rfloor> = \<lfloor>y\<rfloor>")
    case True
    then show ?thesis using xy by (auto simp: round_even_def Let_def)
  next
    case False
    with f have "\<lfloor>x\<rfloor> + 1 \<le> \<lfloor>y\<rfloor>" by simp
    then show ?thesis using round_even_cases[of x] round_even_cases[of y] by linarith
  qed
qed

lemma round_even_le_int: "x \<le> of_int n \<Longrightarrow> round_even x \<le> n"
  and round_even_ge_int: "of_int n \<le> x \<Longrightarrow> n \<le> round_even x"
  by (metis round_even_mono round_even_of_int)+

text \<open>A rounded magnitude stays within the binade of the exact one, borders included.\<close>

lemma ulp_exp_mono: "0 < x \<Longrightarrow> x \<le> y \<Longrightarrow> ulp_exp x \<le> ulp_exp y"
  using ilog2_mono[of x y] by (simp add: ulp_exp_def)

lemma round_mag_nonneg [simp]: "0 \<le> x \<Longrightarrow> 0 \<le> round_mag x"
  using round_even_ge_int[of 0 "x / p2 (ulp_exp x)"] by (simp add: round_mag_def)

lemma round_mag_upper:
  assumes "0 < x"
  shows "round_mag x \<le> p2 (ulp_exp x + 53)"
proof -
  have "x < p2 (ilog2 x + 1)" using assms by (rule ilog2_bounds)
  also have "\<dots> \<le> p2 (ulp_exp x + 53)" by (rule p2_mono) (simp add: ulp_exp_def)
  finally have "x / p2 (ulp_exp x) \<le> p2 53" by (simp add: p2_add divide_le_eq mult.commute)
  also have "p2 53 = of_int (2 ^ 53)" by simp
  finally have "round_even (x / p2 (ulp_exp x)) \<le> 2 ^ 53" by (rule round_even_le_int)
  then have "(of_int (round_even (x / p2 (ulp_exp x))) :: rat) \<le> of_int (2 ^ 53)" by (simp only: of_int_le_iff)
  also have "of_int (2 ^ 53) = p2 53" by simp
  finally have "of_int (round_even (x / p2 (ulp_exp x))) * p2 (ulp_exp x) \<le> p2 53 * p2 (ulp_exp x)"
    by (rule mult_right_mono) (simp add: less_imp_le)
  then show ?thesis using assms by (simp add: round_mag_def p2_add mult.commute)
qed

lemma round_mag_lower:
  assumes "0 < x" "ulp_exp x = ilog2 x - 52"
  shows "p2 (ilog2 x) \<le> round_mag x"
proof -
  have "ilog2 x = 52 + ulp_exp x" using assms(2) by simp
  then have e: "p2 (ilog2 x) = p2 52 * p2 (ulp_exp x)" by (simp only: p2_add)
  have "p2 52 \<le> x / p2 (ulp_exp x)" using ilog2_bounds(1)[OF assms(1)] by (simp add: e pos_le_divide_eq)
  moreover have "p2 52 = of_int (2 ^ 52)" by simp
  ultimately have "2 ^ 52 \<le> round_even (x / p2 (ulp_exp x))" by (metis round_even_ge_int)
  then have "of_int (2 ^ 52) \<le> (of_int (round_even (x / p2 (ulp_exp x))) :: rat)" by (simp only: of_int_le_iff)
  moreover have "of_int (2 ^ 52) = p2 52" by simp
  ultimately have "p2 52 * p2 (ulp_exp x) \<le> of_int (round_even (x / p2 (ulp_exp x))) * p2 (ulp_exp x)"
    by (intro mult_right_mono) (simp_all add: less_imp_le)
  then show ?thesis using assms(1) by (simp add: round_mag_def e)
qed

lemma round_mag_mono:
  assumes "0 \<le> x" "x \<le> y"
  shows "round_mag x \<le> round_mag y"
proof (cases "x = 0")
  case True
  then show ?thesis using assms by (simp add: round_mag_def[of 0])
next
  case False
  with assms have x: "0 < x" and y: "0 < y" by simp_all
  show ?thesis
  proof (cases "ulp_exp x = ulp_exp y")
    case True
    have "round_even (x / p2 (ulp_exp y)) \<le> round_even (y / p2 (ulp_exp y))"
      using assms(2) by (intro round_even_mono divide_right_mono) (simp_all add: less_imp_le)
    then have "(of_int (round_even (x / p2 (ulp_exp y))) :: rat) * p2 (ulp_exp y)
        \<le> of_int (round_even (y / p2 (ulp_exp y))) * p2 (ulp_exp y)"
      by (intro mult_right_mono) (simp_all add: less_imp_le)
    then show ?thesis using x y True by (simp add: round_mag_def)
  next
    case False
    with ulp_exp_mono[OF x assms(2)] have lt: "ulp_exp x < ulp_exp y" by simp
    then have norm: "ulp_exp y = ilog2 y - 52" by (auto simp: ulp_exp_def max_def split: if_splits)
    have "round_mag x \<le> p2 (ulp_exp x + 53)" by (rule round_mag_upper[OF x])
    also have "\<dots> \<le> p2 (ilog2 y)" using lt norm by (intro p2_mono) simp
    also have "\<dots> \<le> round_mag y" by (rule round_mag_lower[OF y norm])
    finally show ?thesis .
  qed
qed

lemma round64_mono:
  assumes "x \<le> y"
  shows "round64 x \<le> round64 y"
proof -
  consider "0 \<le> x" | "x < 0" "0 \<le> y" | "y < 0" by linarith
  then show ?thesis
  proof cases
    case 1
    with assms round_mag_mono[of x y] show ?thesis by (auto simp: round64_def Let_def)
  next
    case 2
    then have "0 \<le> round_mag (- x)" "0 \<le> round_mag y" by simp_all
    then have "- round_mag (- x) \<le> round_mag y" by linarith
    with 2 show ?thesis by (auto simp: round64_def Let_def)
  next
    case 3
    with assms round_mag_mono[of "- y" "- x"] show ?thesis by (auto simp: round64_def Let_def)
  qed
qed

lemma round64_not_NaN [simp]: "round64 x \<noteq> NaN"
  by (simp add: round64_def Let_def)

text \<open>Whole numbers below \<open>2 ^ 53\<close> are represented exactly.\<close>

lemma round64_of_nat:
  assumes "n < 2 ^ 53"
  shows "round64 (of_nat n) = Fin (of_nat n)"
proof (cases "n = 0")
  case False
  define x :: rat where "x = of_nat n"
  have "(of_nat n :: rat) < of_nat (2 ^ 53)" using assms by (simp only: of_nat_less_iff)
  then have x: "0 < x" "x < p2 53" using False by (simp_all add: x_def)
  then have "p2 (ilog2 x) < p2 53" using ilog2_bounds(1)[of x] by linarith
  then have "ilog2 x < 53" by (rule p2_less_imp)
  then have e: "ulp_exp x \<le> 0" by (simp add: ulp_exp_def)
  have "x / p2 (ulp_exp x) = x * p2 (- ulp_exp x)" by (simp add: power_int_minus divide_inverse)
  also have "\<dots> = of_int (int n * 2 ^ nat (- ulp_exp x))" using e by (simp add: x_def power_int_nonneg_exp)
  finally have "of_int (round_even (x / p2 (ulp_exp x))) = x / p2 (ulp_exp x)" by (metis round_even_of_int)
  then have "round_mag x = x" using x by (simp add: round_mag_def)
  moreover have "p2 53 \<le> float_limit" unfolding float_limit_def by (rule p2_mono) simp
  with x(2) have "\<not> float_limit \<le> x" by (meson leD less_le_trans)
  ultimately show ?thesis using x(1) by (simp add: round64_def Let_def abs_if flip: x_def)
qed simp

end
