(* ===== verification/Strconv.thy ===== *)
theory Strconv
  imports Utf8 Float64
begin

text \<open>
  The text functions of the standard library that the benchmark gate calls: reading a
  number (\<^verbatim>\<open>strconv.ParseFloat\<close>), writing one (the verb \<^verbatim>\<open>%f\<close> with its flags), padding
  (\<^verbatim>\<open>%-55s\<close>), splitting a line into words (\<^verbatim>\<open>strings.Fields\<close>) and a stream into lines
  (\<^verbatim>\<open>bufio.Scanner\<close>).
\<close>

subsection \<open>Words and lines\<close>

text \<open>\<^verbatim>\<open>unicode.IsSpace\<close>.\<close>

definition space_rune :: "nat \<Rightarrow> bool" where
  "space_rune r =
     (0x09 \<le> r \<and> r \<le> 0x0D \<or> r = 0x20 \<or> r = 0x85 \<or> r = 0xA0 \<or> r = 0x1680 \<or> 0x2000 \<le> r \<and> r \<le> 0x200A
      \<or> r = 0x2028 \<or> r = 0x2029 \<or> r = 0x202F \<or> r = 0x205F \<or> r = 0x3000)"

fun words_of :: "(nat \<times> string) list \<Rightarrow> string \<Rightarrow> string list" where
  "words_of [] cur = (if cur = [] then [] else [cur])"
| "words_of ((r, bs) # rs) cur =
     (if space_rune r then (if cur = [] then words_of rs [] else cur # words_of rs [])
      else words_of rs (cur @ bs))"

definition Fields :: "string \<Rightarrow> string list" where
  "Fields s = words_of (runes s) []"

text \<open>
  \<^verbatim>\<open>bufio.Scanner\<close> with its default buffer: lines without their line break and without one
  carriage return before it; a line of 65536 bytes or more does not fit and stops the scan
  with an error.
\<close>

definition MaxScanTokenSize :: nat where
  "MaxScanTokenSize = 65536"

definition dropCR :: "string \<Rightarrow> string" where
  "dropCR l = (if l \<noteq> [] \<and> last l = CHR 0x0D then butlast l else l)"

lemma length_tl_dropWhile: "length (tl (dropWhile P s)) \<le> length s"
  using length_dropWhile_le[of P s] by simp

lemma length_tl_dropWhile_Cons: "length (tl (dropWhile P (c # s))) < length (c # s)"
  using length_tl_dropWhile[of P s] by (auto simp: le_imp_less_Suc)

function scan_lines :: "string \<Rightarrow> string list \<times> bool" where
  "scan_lines [] = ([], False)"
| "scan_lines (c # s) =
     (let l = takeWhile (\<lambda>d. d \<noteq> CHR 0x0A) (c # s);
          r = dropWhile (\<lambda>d. d \<noteq> CHR 0x0A) (c # s)
      in if MaxScanTokenSize \<le> length l then ([], True)
         else apfst ((#) (dropCR l)) (scan_lines (tl r)))"
  by pat_completeness auto
termination
  by (relation "measure length") (simp_all only: wf_measure in_measure length_tl_dropWhile_Cons)

subsection \<open>Reading a floating-point number\<close>

definition is_dec :: "char \<Rightarrow> bool" where
  "is_dec c = (48 \<le> (of_char c :: nat) \<and> (of_char c :: nat) \<le> 57)"

text \<open>\<^verbatim>\<open>lower\<close>, which sets one bit of an ASCII byte.\<close>

definition lower_byte :: "char \<Rightarrow> nat" where
  "lower_byte c = (let b = of_char c in if 65 \<le> b \<and> b \<le> 90 then b + 32 else b)"

definition digit_of :: "bool \<Rightarrow> char \<Rightarrow> nat option" where
  "digit_of hex c =
     (if is_dec c then Some (of_char c - 48)
      else if hex \<and> 97 \<le> lower_byte c \<and> lower_byte c \<le> 102 then Some (lower_byte c - 87)
      else None)"

record mantissa =
  mt_Value :: nat
  mt_Frac :: nat
  mt_Dot :: bool
  mt_Digits :: bool
  mt_Under :: bool

text \<open>The digits of the mantissa, with at most one dot and any underscores.\<close>

fun read_mantissa :: "bool \<Rightarrow> mantissa \<Rightarrow> string \<Rightarrow> mantissa \<times> string" where
  "read_mantissa hex m [] = (m, [])"
| "read_mantissa hex m (c # s) =
     (if c = CHR ''_'' then read_mantissa hex (m\<lparr>mt_Under := True\<rparr>) s
      else if c = CHR ''.'' then
        (if mt_Dot m then (m, c # s) else read_mantissa hex (m\<lparr>mt_Dot := True\<rparr>) s)
      else case digit_of hex c of
        None \<Rightarrow> (m, c # s)
      | Some d \<Rightarrow>
          read_mantissa hex
            (m\<lparr>mt_Value := mt_Value m * (if hex then 16 else 10) + d,
               mt_Frac := (if mt_Dot m then mt_Frac m + 1 else 0), mt_Digits := True\<rparr>) s)"

text \<open>The exponent digits; from 10000 on they are skipped. The flag tells of an underscore.\<close>

fun read_exp :: "nat \<Rightarrow> bool \<Rightarrow> string \<Rightarrow> nat \<times> bool \<times> string" where
  "read_exp e u [] = (e, u, [])"
| "read_exp e u (c # s) =
     (if c = CHR ''_'' then read_exp e True s
      else if is_dec c then read_exp (if e < 10000 then e * 10 + (of_char c - 48) else e) u s
      else (e, u, c # s))"

text \<open>\<^verbatim>\<open>underscoreOK\<close>: the last byte seen is a digit, an underscore or neither.\<close>

datatype seen = SeenStart | SeenDigit | SeenUnder | SeenOther

fun underscore_loop :: "bool \<Rightarrow> seen \<Rightarrow> string \<Rightarrow> bool" where
  "underscore_loop hex saw [] = (saw \<noteq> SeenUnder)"
| "underscore_loop hex saw (c # s) =
     (if digit_of hex c \<noteq> None then underscore_loop hex SeenDigit s
      else if c = CHR ''_'' then saw = SeenDigit \<and> underscore_loop hex SeenUnder s
      else saw \<noteq> SeenUnder \<and> underscore_loop hex SeenOther s)"

definition drop_sign :: "string \<Rightarrow> string" where
  "drop_sign s = (case s of c # t \<Rightarrow> if c = CHR ''+'' \<or> c = CHR ''-'' then t else s | [] \<Rightarrow> [])"

definition underscoreOK :: "string \<Rightarrow> bool" where
  "underscoreOK s =
     (case drop_sign s of
        z # x # t \<Rightarrow>
          if z = CHR ''0'' \<and> lower_byte x \<in> {98, 111, 120}
          then underscore_loop (lower_byte x = 120) SeenDigit t
          else underscore_loop False SeenStart (z # x # t)
      | t \<Rightarrow> underscore_loop False SeenStart t)"

text \<open>\<^verbatim>\<open>readFloat\<close> on a whole string: the exact value, or nothing when it is not a number.\<close>

definition read_float :: "string \<Rightarrow> rat option" where
  "read_float s =
     (let neg = has_prefix s ''-''; t = drop_sign s;
          hex = (case t of z # x # u \<Rightarrow> z = CHR ''0'' \<and> lower_byte x = 120 \<and> u \<noteq> [] | _ \<Rightarrow> False);
          (m, r) = read_mantissa hex \<lparr>mt_Value = 0, mt_Frac = 0, mt_Dot = False, mt_Digits = False, mt_Under = False\<rparr>
            (if hex then drop 2 t else t);
          value = (\<lambda>e usc. if usc \<and> \<not> underscoreOK s then None
            else Some ((if neg then -1 else 1) * of_nat (mt_Value m)
              * (if hex then 2 powi (e - 4 * int (mt_Frac m)) else 10 powi (e - int (mt_Frac m)))))
      in if \<not> mt_Digits m then None
         else case r of
           [] \<Rightarrow> if hex then None else value 0 (mt_Under m)
         | c # u \<Rightarrow>
             if lower_byte c \<noteq> (if hex then 112 else 101) then None
             else let esign = (if has_prefix u ''-'' then -1 else 1); w = drop_sign u in
               case w of [] \<Rightarrow> None
               | d # _ \<Rightarrow>
                   if \<not> is_dec d then None
                   else case read_exp 0 (mt_Under m) w of
                     (e, usc, rest) \<Rightarrow> if rest = [] then value (esign * int e) usc else None)"

text \<open>The words for infinity and not-a-number, in any case.\<close>

definition lower_string :: "string \<Rightarrow> nat list" where
  "lower_string s = map lower_byte s"

definition special_float :: "string \<Rightarrow> float64 option" where
  "special_float s =
     (if lower_string (drop_sign s) = map of_char ''inf'' \<or> lower_string (drop_sign s) = map of_char ''infinity''
      then Some (Infty (has_prefix s ''-''))
      else if lower_string s = map of_char ''nan'' then Some NaN
      else None)"

text \<open>\<^verbatim>\<open>strconv.ParseFloat(s, 64)\<close>; a value that rounds to infinity is a range error.\<close>

definition ParseFloat :: "string \<Rightarrow> float64 option" where
  "ParseFloat s =
     (case special_float s of Some f \<Rightarrow> Some f
      | None \<Rightarrow>
        (case read_float s of None \<Rightarrow> None
         | Some x \<Rightarrow> (case round64 x of Fin y \<Rightarrow> Some (Fin y) | _ \<Rightarrow> None)))"

subsection \<open>Writing numbers and padding\<close>

definition zero_pad :: "nat \<Rightarrow> string \<Rightarrow> string" where
  "zero_pad n s = replicate (n - length s) CHR ''0'' @ s"

text \<open>The digits of \<^verbatim>\<open>%.<prec>f\<close> for a magnitude: the exact value, rounded half to even.\<close>

definition fixed_digits :: "nat \<Rightarrow> rat \<Rightarrow> string" where
  "fixed_digits prec x =
     (let ds = zero_pad (prec + 1) (nat_digits (nat (round_even (x * 10 ^ prec)))); k = length ds - prec
      in if prec = 0 then ds else take k ds @ ''.'' @ drop k ds)"

fun format_fixed :: "bool \<Rightarrow> nat \<Rightarrow> float64 \<Rightarrow> string" where
  "format_fixed signed prec NaN = (if signed then ''+NaN'' else ''NaN'')"
| "format_fixed signed prec (Infty neg) = (if neg then ''-Inf'' else ''+Inf'')"
| "format_fixed signed prec (Fin x) =
     (if x < 0 then ''-'' else if signed then ''+'' else []) @ fixed_digits prec \<bar>x\<bar>"

text \<open>Padding counts runes: spaces to the left, or to the right with the flag \<^verbatim>\<open>-\<close>.\<close>

definition pad_left :: "nat \<Rightarrow> string \<Rightarrow> string" where
  "pad_left w s = replicate (w - rune_count s) CHR '' '' @ s"

definition pad_right :: "nat \<Rightarrow> string \<Rightarrow> string" where
  "pad_right w s = s @ replicate (w - rune_count s) CHR '' ''"

text \<open>\<^verbatim>\<open>%<w>.<prec>f\<close> and \<^verbatim>\<open>%+<w>.<prec>f\<close>.\<close>

definition fmt_f :: "bool \<Rightarrow> nat \<Rightarrow> nat \<Rightarrow> float64 \<Rightarrow> string" where
  "fmt_f signed w prec x = pad_left w (format_fixed signed prec x)"

end
