(* ===== verification/Benchgate.thy ===== *)
theory Benchgate
  imports Strconv
begin

text \<open>
  The benchmark gate (internal/benchgate/main.go), a command that compares two outputs of
  \<^verbatim>\<open>go test -bench\<close> and fails when the second one regressed. Numbers are \<^verbatim>\<open>float64\<close>, maps
  are association lists with distinct keys. What the operating system provides is an
  argument: opening a path gives an error or the bytes of the file with the error that ends
  the reading, if any. The flags are parsed by the \<^verbatim>\<open>flag\<close> package; the model of \<^verbatim>\<open>main\<close>
  starts from their values and the remaining arguments.
\<close>

record samples =
  sm_ns :: "float64 list"
  sm_bytes :: "float64 list"
  sm_allocs :: "float64 list"

definition no_samples :: samples where
  "no_samples = \<lparr>sm_ns = [], sm_bytes = [], sm_allocs = []\<rparr>"

type_synonym benchmarks = "(string \<times> samples) list"

subsection \<open>Reading benchmark output\<close>

text \<open>\<^verbatim>\<open>strings.LastIndexByte\<close>.\<close>

fun last_index_byte :: "string \<Rightarrow> char \<Rightarrow> nat option" where
  "last_index_byte [] c = None"
| "last_index_byte (d # s) c =
     (case last_index_byte s c of Some i \<Rightarrow> Some (Suc i) | None \<Rightarrow> if d = c then Some 0 else None)"

definition stripProcs :: "string \<Rightarrow> string" where
  "stripProcs name =
     (case last_index_byte name CHR ''-'' of None \<Rightarrow> name
      | Some i \<Rightarrow>
        if i = 0 then name
        else if list_all (\<lambda>rb. 48 \<le> fst rb \<and> fst rb \<le> 57) (runes (drop (i + 1) name)) then take i name
        else name)"

text \<open>The loop over the pairs of neighbouring fields, from the third field on: a number
  followed by a known unit is a sample.\<close>

definition add_sample :: "string \<Rightarrow> string \<Rightarrow> samples \<Rightarrow> samples" where
  "add_sample x unit s =
     (case ParseFloat x of None \<Rightarrow> s
      | Some v \<Rightarrow>
        if unit = ''ns/op'' then s\<lparr>sm_ns := sm_ns s @ [v]\<rparr>
        else if unit = ''B/op'' then s\<lparr>sm_bytes := sm_bytes s @ [v]\<rparr>
        else if unit = ''allocs/op'' then s\<lparr>sm_allocs := sm_allocs s @ [v]\<rparr>
        else s)"

fun collect_samples :: "string list \<Rightarrow> samples \<Rightarrow> samples" where
  "collect_samples (x # unit # rest) s = collect_samples (unit # rest) (add_sample x unit s)"
| "collect_samples ws s = s"

definition parse_line :: "string \<Rightarrow> benchmarks \<Rightarrow> benchmarks" where
  "parse_line line out =
     (let ws = Fields line in
      if length ws < 4 \<or> \<not> has_prefix (ws ! 0) ''Benchmark'' then out
      else let name = stripProcs (ws ! 0);
               s = (case map_of out name of None \<Rightarrow> no_samples | Some s \<Rightarrow> s)
           in map_put name (collect_samples (drop 2 ws) s) out)"

definition parse_lines :: "string list \<Rightarrow> benchmarks \<Rightarrow> benchmarks" where
  "parse_lines ls out = foldl (\<lambda>out l. parse_line l out) out ls"

datatype 'e parse_error = OpenFailed 'e | LineTooLong | ReadError 'e

text \<open>A reader delivers bytes, then an error or (\<open>None\<close>) the end of the file.\<close>

type_synonym 'e reader = "bytes \<times> 'e option"

definition parse :: "'e reader \<Rightarrow> benchmarks \<times> 'e parse_error option" where
  "parse r =
     (case r of (data, err) \<Rightarrow>
      case scan_lines data of (ls, too_long) \<Rightarrow>
        (parse_lines ls [],
         if too_long then Some LineTooLong else map_option ReadError err))"

type_synonym 'e open_file = "string \<Rightarrow> 'e + 'e reader"

definition parseFile :: "'e open_file \<Rightarrow> string \<Rightarrow> 'e parse_error + benchmarks" where
  "parseFile open_file path =
     (case open_file path of Inl e \<Rightarrow> Inl (OpenFailed e)
      | Inr r \<Rightarrow> (case parse r of (m, None) \<Rightarrow> Inr m | (m, Some e) \<Rightarrow> Inl e))"

subsection \<open>Comparing\<close>

definition sortedKeys :: "(string \<times> 'v) list \<Rightarrow> string list" where
  "sortedKeys m = sort (map fst m)"

definition median :: "float64 list \<Rightarrow> float64" where
  "median v =
     (if v = [] then Fin 0
      else let s = sort v; n = length s in
        if n mod 2 = 1 then s ! (n div 2)
        else f_div (f_add (s ! (n div 2 - 1)) (s ! (n div 2))) (Fin 2))"

definition maxOf :: "float64 list \<Rightarrow> float64" where
  "maxOf v = foldl (\<lambda>m x. if f_less m x then x else m) (Fin 0) v"

definition pct :: "float64 \<Rightarrow> float64 \<Rightarrow> float64" where
  "pct base head = (if base = Fin 0 then Fin 0 else f_mul (f_div (f_sub head base) base) (Fin 100))"

datatype verdict = Ok | AllocsIncreased | BytesIncreased | TimeRegressed

definition verdict_of :: "float64 \<Rightarrow> float64 \<Rightarrow> samples \<Rightarrow> samples \<Rightarrow> verdict" where
  "verdict_of threshold flr b h =
     (let bNs = median (sm_ns b); hNs = median (sm_ns h) in
      if f_less (maxOf (sm_allocs b)) (maxOf (sm_allocs h)) then AllocsIncreased
      else if f_less (maxOf (sm_bytes b)) (maxOf (sm_bytes h)) then BytesIncreased
      else if f_less (f_mul bNs (f_add (Fin 1) threshold)) hNs \<and> f_less flr (f_sub hNs bNs) then TimeRegressed
      else Ok)"

fun verdict_text :: "float64 \<Rightarrow> verdict \<Rightarrow> string" where
  "verdict_text threshold Ok = ''ok''"
| "verdict_text threshold AllocsIncreased = ''FAIL allocs/op increased''"
| "verdict_text threshold BytesIncreased = ''FAIL B/op increased''"
| "verdict_text threshold TimeRegressed =
     ''FAIL ns/op regressed beyond +'' @ fmt_f False 0 0 (f_mul threshold (Fin 100)) @ ''%''"

definition line_end :: string where
  "line_end = [CHR 0x0A]"

definition new_line :: "string \<Rightarrow> samples \<Rightarrow> string" where
  "new_line name h =
     ''NEW   '' @ pad_right 55 name @ '' '' @ fmt_f False 10 2 (median (sm_ns h)) @ '' ns/op ''
       @ fmt_f False 8 0 (maxOf (sm_bytes h)) @ '' B/op '' @ fmt_f False 6 0 (maxOf (sm_allocs h))
       @ '' allocs/op'' @ line_end"

definition compared_line :: "float64 \<Rightarrow> string \<Rightarrow> samples \<Rightarrow> samples \<Rightarrow> verdict \<Rightarrow> string" where
  "compared_line threshold name b h verdict =
     (let bNs = median (sm_ns b); hNs = median (sm_ns h) in
      pad_right 61 name @ '' '' @ fmt_f False 10 2 bNs @ '' -> '' @ fmt_f False 10 2 hNs
        @ '' ns/op ('' @ fmt_f True 6 1 (pct bNs hNs) @ ''%)  ''
        @ fmt_f False 3 0 (maxOf (sm_allocs b)) @ '' -> '' @ fmt_f False 3 0 (maxOf (sm_allocs h))
        @ '' allocs/op  '' @ verdict_text threshold verdict @ line_end)"

fun compare_head :: "float64 \<Rightarrow> float64 \<Rightarrow> benchmarks \<Rightarrow> benchmarks \<Rightarrow> string list \<Rightarrow> string \<times> nat" where
  "compare_head threshold flr base head [] = ([], 0)"
| "compare_head threshold flr base head (name # names) =
     (case compare_head threshold flr base head names of (rest, failures) \<Rightarrow>
        let h = the (map_of head name) in
        case map_of base name of
          None \<Rightarrow> (new_line name h @ rest, failures)
        | Some b \<Rightarrow>
            let verdict = verdict_of threshold flr b h in
            (compared_line threshold name b h verdict @ rest,
             if verdict = Ok then failures else failures + 1))"

definition gone_lines :: "benchmarks \<Rightarrow> string list \<Rightarrow> string" where
  "gone_lines head names =
     concat (map (\<lambda>name. ''GONE  '' @ name @ line_end) (filter (\<lambda>name. map_of head name = None) names))"

definition compare :: "benchmarks \<Rightarrow> benchmarks \<Rightarrow> float64 \<Rightarrow> float64 \<Rightarrow> string \<times> nat" where
  "compare base head threshold flr =
     (case compare_head threshold flr base head (sortedKeys head) of (report, failures) \<Rightarrow>
        (report @ gone_lines head (sortedKeys base), failures))"

subsection \<open>The command\<close>

text \<open>What a run leaves behind: the exit code, the standard output, and what the line on the
  standard error says.\<close>

datatype 'e complaint = NoComplaint | UsageComplaint | ParseComplaint "'e parse_error"

record 'e outcome =
  oc_exit :: int
  oc_out :: string
  oc_err :: "'e complaint"

definition benchgate_main :: "'e open_file \<Rightarrow> float64 \<Rightarrow> float64 \<Rightarrow> string list \<Rightarrow> 'e outcome" where
  "benchgate_main open_file threshold flr args =
     (if length args \<noteq> 2 then \<lparr>oc_exit = 2, oc_out = [], oc_err = UsageComplaint\<rparr>
      else case parseFile open_file (args ! 0) of
        Inl e \<Rightarrow> \<lparr>oc_exit = 2, oc_out = [], oc_err = ParseComplaint e\<rparr>
      | Inr base \<Rightarrow>
          (case parseFile open_file (args ! 1) of
             Inl e \<Rightarrow> \<lparr>oc_exit = 2, oc_out = [], oc_err = ParseComplaint e\<rparr>
           | Inr head \<Rightarrow>
               (case compare base head threshold flr of (report, failures) \<Rightarrow>
                  if 0 < failures
                  then \<lparr>oc_exit = 1,
                    oc_out = report @ line_end @ ''benchgate: '' @ itoa (int failures)
                      @ '' regression(s) against base. If the regression is intended and justified, adjust the benchmark or budget in the same PR and say why.'' @ line_end,
                    oc_err = NoComplaint\<rparr>
                  else \<lparr>oc_exit = 0, oc_out = report @ line_end @ ''benchgate: no regressions.'' @ line_end,
                    oc_err = NoComplaint\<rparr>)))"

subsection \<open>Maxima, medians and the verdict\<close>

lemma Max_drop_smaller:
  fixes m x :: "'a::linorder"
  assumes "finite S" "x \<le> m"
  shows "Max (insert m (insert x S)) = Max (insert m S)" "Max (insert x (insert m S)) = Max (insert m S)"
proof -
  show m: "Max (insert m (insert x S)) = Max (insert m S)"
    using assms by (cases "S = {}") (auto simp: max_def)
  then show "Max (insert x (insert m S)) = Max (insert m S)" by (simp only: insert_commute[of x m])
qed

lemma maxOf_fold:
  "m \<noteq> NaN \<Longrightarrow> foldl (\<lambda>m x. if f_less m x then x else m) m v = Max (insert m {x \<in> set v. x \<noteq> NaN})"
proof (induction v arbitrary: m)
  case (Cons x v)
  let ?S = "{x \<in> set v. x \<noteq> NaN}"
  show ?case
  proof (cases "f_less m x")
    case True
    then have "m < x" "x \<noteq> NaN" by (auto simp: f_less_order)
    moreover from this have "Max (insert m (insert x ?S)) = Max (insert x ?S)"
      by (intro Max_drop_smaller) simp_all
    moreover have "{y \<in> set (x # v). y \<noteq> NaN} = insert x ?S" using \<open>x \<noteq> NaN\<close> by auto
    ultimately show ?thesis using True Cons.IH[of x] by simp
  next
    case False
    show ?thesis
    proof (cases "x = NaN")
      case True
      then have "{y \<in> set (x # v). y \<noteq> NaN} = ?S" by auto
      then show ?thesis using False Cons by simp
    next
      case nan: False
      with False Cons.prems have "x \<le> m" by (auto simp: f_less_order)
      then have "Max (insert m (insert x ?S)) = Max (insert m ?S)"
        by (intro Max_drop_smaller) simp_all
      moreover have "{y \<in> set (x # v). y \<noteq> NaN} = insert x ?S" using nan by auto
      ultimately show ?thesis using False Cons by simp
    qed
  qed
qed simp

lemma maxOf_Max: "maxOf v = Max (insert (Fin 0) {x \<in> set v. x \<noteq> NaN})"
  by (simp add: maxOf_def maxOf_fold)

lemma maxOf_not_NaN: "maxOf v \<noteq> NaN"
proof -
  have "Fin 0 \<le> maxOf v" by (simp add: maxOf_Max)
  then show ?thesis by auto
qed

text \<open>One maximum is above another when some sample is positive and above every sample there.\<close>

definition rises_above :: "float64 list \<Rightarrow> float64 list \<Rightarrow> bool" where
  "rises_above base head = list_ex (\<lambda>x. f_less (Fin 0) x \<and> list_all (\<lambda>y. y = NaN \<or> f_less y x) base) head"

lemma maxOf_less: "f_less (maxOf b) (maxOf h) \<longleftrightarrow> rises_above b h"
proof -
  have "f_less (maxOf b) (maxOf h) \<longleftrightarrow> maxOf b < maxOf h" by (simp add: f_less_order maxOf_not_NaN)
  also have "\<dots> \<longleftrightarrow> (\<exists>x \<in> insert (Fin 0) {x \<in> set h. x \<noteq> NaN}. maxOf b < x)"
    unfolding maxOf_Max[of h] by (rule Max_gr_iff) simp_all
  also have "\<dots> \<longleftrightarrow> (\<exists>x \<in> set h. x \<noteq> NaN \<and> maxOf b < x)"
    using Max_ge[of "insert (Fin 0) {x \<in> set b. x \<noteq> NaN}" "Fin 0"] unfolding maxOf_Max[of b] by auto
  also have "\<dots> \<longleftrightarrow> (\<exists>x \<in> set h. f_less (Fin 0) x \<and> (\<forall>y \<in> set b. y = NaN \<or> f_less y x))"
  proof (rule bex_cong[OF refl])
    fix x
    have "maxOf b < x \<longleftrightarrow> (\<forall>y \<in> insert (Fin 0) {y \<in> set b. y \<noteq> NaN}. y < x)"
      unfolding maxOf_Max by (rule Max_less_iff) simp_all
    then show "x \<noteq> NaN \<and> maxOf b < x \<longleftrightarrow> f_less (Fin 0) x \<and> (\<forall>y \<in> set b. y = NaN \<or> f_less y x)"
      by (auto simp: f_less_order)
  qed
  also have "\<dots> \<longleftrightarrow> rises_above b h"
    unfolding rises_above_def list_ex_iff list_all_iff ..
  finally show ?thesis .
qed

text \<open>When a benchmark regressed, without the order in which the code looks at the reasons.\<close>

definition regressed :: "float64 \<Rightarrow> float64 \<Rightarrow> samples \<Rightarrow> samples \<Rightarrow> bool" where
  "regressed threshold flr b h =
     (rises_above (sm_allocs b) (sm_allocs h) \<or> rises_above (sm_bytes b) (sm_bytes h)
      \<or> f_less (f_mul (median (sm_ns b)) (f_add (Fin 1) threshold)) (median (sm_ns h))
        \<and> f_less flr (f_sub (median (sm_ns h)) (median (sm_ns b))))"

lemma verdict_regressed: "verdict_of threshold flr b h \<noteq> Ok \<longleftrightarrow> regressed threshold flr b h"
  by (simp add: verdict_of_def regressed_def maxOf_less Let_def)

definition regressions :: "float64 \<Rightarrow> float64 \<Rightarrow> benchmarks \<Rightarrow> benchmarks \<Rightarrow> string set" where
  "regressions threshold flr base head =
     {name. case (map_of base name, map_of head name) of
        (Some b, Some h) \<Rightarrow> regressed threshold flr b h | _ \<Rightarrow> False}"

lemma compare_head_failures:
  "set names \<subseteq> dom (map_of head) \<Longrightarrow>
    snd (compare_head threshold flr base head names)
      = length (filter (\<lambda>name. name \<in> regressions threshold flr base head) names)"
proof (induction names)
  case (Cons name names)
  then obtain h where "map_of head name = Some h" by auto
  with Cons show ?case
    by (cases "compare_head threshold flr base head names"; cases "map_of base name")
      (auto simp: regressions_def Let_def simp flip: verdict_regressed)
qed simp

lemma sortedKeys_props:
  "sorted (sortedKeys m)" "set (sortedKeys m) = dom (map_of m)" "map_ok m \<Longrightarrow> distinct (sortedKeys m)"
  by (simp_all add: sortedKeys_def dom_map_of_conv_image_fst map_ok_def)

lemma compare_failures:
  assumes "map_ok head"
  shows "snd (compare base head threshold flr) = card (regressions threshold flr base head)"
proof -
  have "snd (compare base head threshold flr) = snd (compare_head threshold flr base head (sortedKeys head))"
    by (simp add: compare_def split: prod.split)
  also have "\<dots> = length (filter (\<lambda>name. name \<in> regressions threshold flr base head) (sortedKeys head))"
    by (rule compare_head_failures) (simp add: sortedKeys_props)
  also have "\<dots> = card (set (filter (\<lambda>name. name \<in> regressions threshold flr base head) (sortedKeys head)))"
    using assms by (intro distinct_card[symmetric]) (simp add: sortedKeys_props)
  also have "set (filter (\<lambda>name. name \<in> regressions threshold flr base head) (sortedKeys head))
      = regressions threshold flr base head"
    by (auto simp: sortedKeys_props regressions_def split: option.splits)
  finally show ?thesis .
qed

subsection \<open>What reading collects\<close>

text \<open>The benchmark a line of output belongs to, and the samples that line carries.\<close>

definition line_benchmark :: "string \<Rightarrow> string option" where
  "line_benchmark l =
     (let ws = Fields l in
      if 4 \<le> length ws \<and> has_prefix (ws ! 0) ''Benchmark'' then Some (stripProcs (ws ! 0)) else None)"

definition line_samples :: "string \<Rightarrow> samples" where
  "line_samples l = collect_samples (drop 2 (Fields l)) no_samples"

definition join_samples :: "samples \<Rightarrow> samples \<Rightarrow> samples" where
  "join_samples s t =
     \<lparr>sm_ns = sm_ns s @ sm_ns t, sm_bytes = sm_bytes s @ sm_bytes t, sm_allocs = sm_allocs s @ sm_allocs t\<rparr>"

lemma join_no_samples [simp]: "join_samples s no_samples = s" "join_samples no_samples s = s"
  by (simp_all add: join_samples_def no_samples_def)

lemma join_samples_assoc: "join_samples (join_samples a b) c = join_samples a (join_samples b c)"
  by (simp add: join_samples_def)

lemma add_sample_join: "add_sample x unit s = join_samples s (add_sample x unit no_samples)"
  by (simp add: add_sample_def join_samples_def no_samples_def split: option.split)

lemma collect_samples_join: "collect_samples ws s = join_samples s (collect_samples ws no_samples)"
proof (induction ws arbitrary: s rule: induct_list012)
  case (3 x unit rest)
  have "collect_samples (x # unit # rest) s = join_samples (add_sample x unit s) (collect_samples (unit # rest) no_samples)"
    using "3.IH"(2)[of "add_sample x unit s"] by simp
  also have "\<dots> = join_samples s (join_samples (add_sample x unit no_samples) (collect_samples (unit # rest) no_samples))"
    by (subst add_sample_join) (rule join_samples_assoc)
  also have "\<dots> = join_samples s (collect_samples (x # unit # rest) no_samples)"
    using "3.IH"(2)[of "add_sample x unit no_samples"] by simp
  finally show ?case .
qed simp_all

definition samples_of :: "string \<Rightarrow> string list \<Rightarrow> samples option" where
  "samples_of name ls =
     (let mine = filter (\<lambda>l. line_benchmark l = Some name) ls in
      if mine = [] then None else Some (foldl join_samples no_samples (map line_samples mine)))"

lemma parse_line_map:
  "map_of (parse_line l out) =
     (case line_benchmark l of None \<Rightarrow> map_of out
      | Some name \<Rightarrow> (map_of out)(name \<mapsto>
          join_samples (case map_of out name of None \<Rightarrow> no_samples | Some s \<Rightarrow> s) (line_samples l)))"
proof (cases "line_benchmark l")
  case None
  then show ?thesis by (auto simp: parse_line_def line_benchmark_def Let_def split: if_splits)
next
  case (Some name)
  then have "parse_line l out = map_put name (collect_samples (drop 2 (Fields l))
      (case map_of out name of None \<Rightarrow> no_samples | Some s \<Rightarrow> s)) out"
    by (auto simp: parse_line_def line_benchmark_def Let_def split: if_splits)
  then show ?thesis using Some
    by (simp add: line_samples_def collect_samples_join[of _ "case map_of out name of None \<Rightarrow> no_samples | Some s \<Rightarrow> s"])
qed

lemma parse_line_ok [simp]: "map_ok out \<Longrightarrow> map_ok (parse_line l out)"
  by (simp add: parse_line_def Let_def)

lemma parse_lines_ok [simp]: "map_ok out \<Longrightarrow> map_ok (parse_lines ls out)"
  unfolding parse_lines_def by (induction ls arbitrary: out) simp_all

lemma parse_lines_samples: "map_of (parse_lines ls []) name = samples_of name ls"
proof (induction ls rule: rev_induct)
  case Nil
  then show ?case by (simp add: parse_lines_def samples_of_def)
next
  case (snoc l ls)
  have "parse_lines (ls @ [l]) [] = parse_line l (parse_lines ls [])" by (simp add: parse_lines_def)
  with snoc show ?case
    by (auto simp: parse_line_map samples_of_def Let_def split: option.split)
qed

text \<open>
  Reading a benchmark output collects, for every benchmark, the samples of exactly the
  lines that belong to it, in the order of the lines, whatever stands between them; a
  benchmark without such a line is absent. The only errors are the reader's own and a line
  that does not fit the scanner's buffer.
\<close>

theorem parse_collects_samples:
  "map_of (fst (parse (data, err))) name = samples_of name (fst (scan_lines data))
    \<and> map_ok (fst (parse (data, err)))
    \<and> (snd (parse (data, err)) = None) = (\<not> snd (scan_lines data) \<and> err = None)"
  by (auto simp: parse_def parse_lines_samples split: prod.split)

subsection \<open>What the gate decides\<close>

text \<open>
  C25. The number of failures is the number of regressed benchmarks present in both runs:
  some positive allocation count above every count of the base, some positive byte count above
  every byte count of the base (samples that are not a number are passed over), or a median time
  beyond the threshold and the floor. Benchmarks of one run only never count.
\<close>

theorem compare_counts_regressions:
  assumes "map_ok head"
  shows "snd (compare base head threshold flr) = card (regressions threshold flr base head)"
  by (rule compare_failures[OF assms])

theorem compare_counts_regressions_witness:
  "snd (compare [(''A'', \<lparr>sm_ns = [Fin 9], sm_bytes = [], sm_allocs = [Fin 2]\<rparr>)]
      [(''A'', \<lparr>sm_ns = [Fin 9], sm_bytes = [], sm_allocs = [Fin 3]\<rparr>),
       (''B'', \<lparr>sm_ns = [Fin 9], sm_bytes = [], sm_allocs = [Fin 3]\<rparr>)] (Fin 1) (Fin 5)) = 1"
proof -
  let ?base = "[(''A'', \<lparr>sm_ns = [Fin 9], sm_bytes = [], sm_allocs = [Fin 2]\<rparr>)]"
  let ?head = "[(''A'', \<lparr>sm_ns = [Fin 9], sm_bytes = [], sm_allocs = [Fin 3]\<rparr>),
    (''B'', \<lparr>sm_ns = [Fin 9], sm_bytes = [], sm_allocs = [Fin 3]\<rparr>)]"
  have "regressions (Fin 1) (Fin 5) ?base ?head = {''A''}"
    by (auto simp: regressions_def regressed_def rises_above_def split: if_splits)
  moreover have "map_ok ?head" by (simp add: map_ok_def)
  ultimately show ?thesis using compare_counts_regressions[of ?head ?base "Fin 1" "Fin 5"] by simp
qed

definition same_samples :: "samples \<Rightarrow> samples \<Rightarrow> bool" where
  "same_samples s t =
     (mset (sm_ns s) = mset (sm_ns t) \<and> mset (sm_bytes s) = mset (sm_bytes t) \<and> mset (sm_allocs s) = mset (sm_allocs t))"

definition same_run :: "benchmarks \<Rightarrow> benchmarks \<Rightarrow> bool" where
  "same_run m m' = (map_ok m \<and> map_ok m' \<and> (\<forall>name. rel_option same_samples (map_of m name) (map_of m' name)))"

lemma median_mset: "mset v = mset w \<Longrightarrow> median v = median w"
proof -
  assume eq: "mset v = mset w"
  then have "sort v = sort w" by (metis mset_sort properties_for_sort sorted_sort)
  moreover have "v = [] \<longleftrightarrow> w = []" using eq by auto
  ultimately show ?thesis by (simp add: median_def)
qed

lemma maxOf_mset: "mset v = mset w \<Longrightarrow> maxOf v = maxOf w"
  unfolding maxOf_Max by (metis set_mset_mset)

lemma same_samples_eqs:
  assumes "same_samples s t"
  shows "median (sm_ns s) = median (sm_ns t)" "maxOf (sm_bytes s) = maxOf (sm_bytes t)"
    "maxOf (sm_allocs s) = maxOf (sm_allocs t)"
  using assms by (auto simp: same_samples_def intro: median_mset maxOf_mset)

lemma same_run_cases:
  assumes "same_run m m'"
  obtains "map_of m name = None" "map_of m' name = None"
  | s t where "map_of m name = Some s" "map_of m' name = Some t" "same_samples s t"
  using assms unfolding same_run_def by (metis option.rel_cases)

lemma same_run_keys: "same_run m m' \<Longrightarrow> sortedKeys m = sortedKeys m'"
proof -
  assume r: "same_run m m'"
  have "dom (map_of m) = dom (map_of m')"
  proof (rule set_eqI)
    fix name show "name \<in> dom (map_of m) \<longleftrightarrow> name \<in> dom (map_of m')"
      using r by (rule same_run_cases[of m m' name]) auto
  qed
  then show ?thesis using r
    by (intro sorted_distinct_set_unique) (simp_all add: same_run_def sortedKeys_props)
qed

lemma compare_head_same:
  assumes "same_run base base'" "same_run head head'" "set names \<subseteq> dom (map_of head)"
  shows "compare_head threshold flr base head names = compare_head threshold flr base' head' names"
  using assms(3)
proof (induction names)
  case (Cons name names)
  then have "map_of head name \<noteq> None" by auto
  then obtain h h' where h: "map_of head name = Some h" "map_of head' name = Some h'" "same_samples h h'"
    using same_run_cases[OF assms(2), of name] by metis
  from assms(1) show ?case
  proof (cases rule: same_run_cases[of base base' name])
    case 1
    then show ?thesis using Cons h same_samples_eqs[OF h(3)] by (simp add: new_line_def)
  next
    case (2 b b')
    then show ?thesis using Cons h same_samples_eqs[OF h(3)] same_samples_eqs[OF 2(3)]
      by (simp add: verdict_of_def compared_line_def Let_def)
  qed
qed simp

text \<open>
  The order in which \<^verbatim>\<open>go test\<close> prints its samples does not matter: two outputs with the
  same samples per benchmark, in any order, give the same report and the same failures.
\<close>

theorem compare_ignores_sample_order:
  assumes "same_run base base'" "same_run head head'"
  shows "compare base head threshold flr = compare base' head' threshold flr"
proof -
  have "compare_head threshold flr base head (sortedKeys head) = compare_head threshold flr base' head' (sortedKeys head')"
    unfolding same_run_keys[OF assms(2), symmetric] using assms
    by (rule compare_head_same) (simp add: sortedKeys_props)
  moreover have "(map_of head name = None) = (map_of head' name = None)" for name
    using assms(2) by (rule same_run_cases[of head head' name]) auto
  then have "gone_lines head (sortedKeys base) = gone_lines head' (sortedKeys base')"
    by (simp add: gone_lines_def same_run_keys[OF assms(1)])
  ultimately show ?thesis by (simp add: compare_def)
qed

theorem compare_ignores_sample_order_witness:
  "compare [(''A'', \<lparr>sm_ns = [Fin 1, Fin 2, Fin 4], sm_bytes = [], sm_allocs = []\<rparr>)]
      [(''A'', \<lparr>sm_ns = [Fin 3], sm_bytes = [], sm_allocs = []\<rparr>)] (Fin 1) (Fin 5)
   = compare [(''A'', \<lparr>sm_ns = [Fin 4, Fin 1, Fin 2], sm_bytes = [], sm_allocs = []\<rparr>)]
      [(''A'', \<lparr>sm_ns = [Fin 3], sm_bytes = [], sm_allocs = []\<rparr>)] (Fin 1) (Fin 5)"
  by (rule compare_ignores_sample_order) (auto simp: same_run_def same_samples_def map_ok_def)

text \<open>
  A run that repeats the samples of the base, in any order, never fails the gate,
  whatever the threshold, as long as the floor is not negative.
\<close>

theorem repeated_run_is_clean:
  assumes "same_run base head" "\<not> f_less flr (Fin 0)"
  shows "snd (compare base head threshold flr) = 0"
proof -
  have "regressions threshold flr base head = {}"
  proof (rule equals0I)
    fix name assume n: "name \<in> regressions threshold flr base head"
    from assms(1) show False
    proof (cases rule: same_run_cases[of base head name])
      case (2 b h)
      with n have "verdict_of threshold flr b h \<noteq> Ok" by (simp add: regressions_def verdict_regressed)
      then show False
        using assms(2) same_samples_eqs[OF 2(3)] f_sub_self[of "median (sm_ns h)"]
        by (auto simp: verdict_of_def Let_def split: if_splits)
    qed (use n in \<open>simp add: regressions_def\<close>)
  qed
  moreover have "map_ok head" using assms(1) by (simp add: same_run_def)
  ultimately show ?thesis by (simp add: compare_failures)
qed

theorem repeated_run_is_clean_witness:
  "snd (compare [(''A'', \<lparr>sm_ns = [Fin 9, Infty False], sm_bytes = [], sm_allocs = [Fin 2]\<rparr>)]
      [(''A'', \<lparr>sm_ns = [Infty False, Fin 9], sm_bytes = [], sm_allocs = [Fin 2]\<rparr>)] (Fin (- 3)) (Fin 0)) = 0"
  by (rule repeated_run_is_clean) (auto simp: same_run_def same_samples_def map_ok_def)

lemma regressions_finite: "finite (regressions threshold flr base head)"
  by (rule finite_subset[of _ "dom (map_of head)"]) (auto simp: regressions_def finite_dom_map_of split: option.splits)

lemma parseFile_ok: "parseFile open_file h = Inr head \<Longrightarrow> map_ok head"
  by (auto simp: parseFile_def parse_def split: sum.splits prod.splits option.splits)

lemma benchgate_main_two:
  "case (parseFile open_file b, parseFile open_file h) of
      (Inr base, Inr head) \<Rightarrow>
        oc_exit (benchgate_main open_file threshold flr [b, h]) = (if regressions threshold flr base head = {} then 0 else 1)
        \<and> oc_out (benchgate_main open_file threshold flr [b, h]) \<noteq> []
        \<and> oc_err (benchgate_main open_file threshold flr [b, h]) = NoComplaint
    | (Inl e, _) \<Rightarrow> benchgate_main open_file threshold flr [b, h] = \<lparr>oc_exit = 2, oc_out = [], oc_err = ParseComplaint e\<rparr>
    | (Inr base, Inl e) \<Rightarrow> benchgate_main open_file threshold flr [b, h] = \<lparr>oc_exit = 2, oc_out = [], oc_err = ParseComplaint e\<rparr>"
proof (cases "parseFile open_file b")
  case base: (Inr base)
  show ?thesis
  proof (cases "parseFile open_file h")
    case head: (Inr head)
    have "0 < snd (compare base head threshold flr) \<longleftrightarrow> regressions threshold flr base head \<noteq> {}"
      unfolding compare_failures[OF parseFile_ok[OF head]]
      using regressions_finite[of threshold flr base head] by (simp add: card_gt_0_iff)
    then show ?thesis using base head
      by (cases "compare base head threshold flr") (auto simp: benchgate_main_def line_end_def)
  qed (simp add: base benchgate_main_def)
qed (simp add: benchgate_main_def)

text \<open>
  C24. The exit code of the command: 2 exactly when the arguments are not two files that can
  be read, and then nothing is printed on the standard output; otherwise 1 exactly when some
  benchmark of both files regressed, and 0 exactly when none did.
\<close>

theorem benchgate_exit_code:
  "let oc = benchgate_main open_file threshold flr args in
    (case args of
       [b, h] \<Rightarrow>
         (case (parseFile open_file b, parseFile open_file h) of
            (Inr base, Inr head) \<Rightarrow>
              oc_exit oc = (if regressions threshold flr base head = {} then 0 else 1)
              \<and> oc_out oc \<noteq> [] \<and> oc_err oc = NoComplaint
          | (Inl e, _) \<Rightarrow> oc_exit oc = 2 \<and> oc_out oc = [] \<and> oc_err oc = ParseComplaint e
          | (Inr base, Inl e) \<Rightarrow> oc_exit oc = 2 \<and> oc_out oc = [] \<and> oc_err oc = ParseComplaint e)
     | _ \<Rightarrow> oc_exit oc = 2 \<and> oc_out oc = [] \<and> oc_err oc = UsageComplaint)"
proof -
  consider b h where "args = [b, h]" | "length args \<noteq> 2"
    by (cases args rule: list.exhaust) (auto simp: length_Suc_conv numeral_2_eq_2)
  then show ?thesis
  proof cases
    case (1 b h)
    then show ?thesis using benchgate_main_two[where open_file = open_file and b = b and h = h and threshold = threshold and flr = flr]
      by (auto simp: Let_def split: sum.splits)
  next
    case 2
    then have "benchgate_main open_file threshold flr args = \<lparr>oc_exit = 2, oc_out = [], oc_err = UsageComplaint\<rparr>"
      by (simp add: benchgate_main_def)
    with 2 show ?thesis by (auto simp: Let_def split: list.split)
  qed
qed

subsection \<open>Counts and names\<close>

lemma digit_of_dec: "is_dec c \<Longrightarrow> digit_of hex c = Some (of_char c - 48)"
  by (simp add: digit_of_def)

lemma is_dec_not: "is_dec c \<Longrightarrow> c \<noteq> CHR ''_'' \<and> c \<noteq> CHR ''.'' \<and> c \<noteq> CHR ''+'' \<and> c \<noteq> CHR ''-'' \<and> c \<noteq> CHR ''x'' \<and> c \<noteq> CHR ''X''"
  by (auto simp: is_dec_def)

definition dec_value :: "string \<Rightarrow> nat" where
  "dec_value ds = foldl (\<lambda>v c. v * 10 + (of_char c - 48)) 0 ds"

lemma read_mantissa_dec:
  "list_all is_dec ds \<Longrightarrow> \<not> mt_Dot m \<Longrightarrow> mt_Frac m = 0
    \<Longrightarrow> read_mantissa False m ds
      = (m\<lparr>mt_Value := foldl (\<lambda>v c. v * 10 + (of_char c - 48)) (mt_Value m) ds, mt_Digits := (mt_Digits m \<or> ds \<noteq> [])\<rparr>, [])"
proof (induction ds arbitrary: m)
  case (Cons c ds)
  then show ?case using is_dec_not[of c] by (simp add: digit_of_dec)
qed simp

lemma read_float_dec:
  assumes "list_all is_dec ds" "ds \<noteq> []"
  shows "read_float ds = Some (of_nat (dec_value ds))"
proof -
  obtain c t where ds: "ds = c # t" using assms(2) by (cases ds) auto
  have c: "is_dec c" using assms(1) ds by simp
  have s: "drop_sign ds = ds" "\<not> has_prefix ds ''-''" using is_dec_not[OF c] by (auto simp: ds drop_sign_def)
  have x: "lower_byte d \<noteq> 120" if "is_dec d" for d using that by (simp add: lower_byte_def is_dec_def Let_def)
  have h: "\<not> (case ds of z # x # u \<Rightarrow> z = CHR ''0'' \<and> lower_byte x = 120 \<and> u \<noteq> [] | _ \<Rightarrow> False)"
    using assms(1) x by (auto simp: ds split: list.splits)
  show ?thesis unfolding read_float_def Let_def s using assms h
    by (simp add: s read_mantissa_dec dec_value_def)
qed

lemma is_dec_char [simp]: "(d :: nat) < 10 \<Longrightarrow> is_dec (char_of (48 + d))"
  by (simp add: is_dec_def)

lemma nat_digits_dec: "list_all is_dec (nat_digits n) \<and> nat_digits n \<noteq> []"
proof (induction n rule: nat_digits.induct)
  case (1 n)
  then show ?case by (subst (1 2) nat_digits.simps) auto
qed

lemma dec_value_nat_digits: "dec_value (nat_digits n) = n"
proof (induction n rule: nat_digits.induct)
  case (1 n)
  then show ?case by (subst nat_digits.simps) (auto simp: dec_value_def)
qed

lemma ParseFloat_dec:
  assumes "list_all is_dec ds" "ds \<noteq> []" "dec_value ds < 2 ^ 53"
  shows "ParseFloat ds = Some (Fin (of_nat (dec_value ds)))"
proof -
  obtain c t where ds: "ds = c # t" using assms(2) by (cases ds) auto
  have c: "is_dec c" using assms(1) ds by simp
  then have "special_float ds = None"
    using is_dec_not[OF c] by (auto simp: special_float_def lower_string_def ds drop_sign_def lower_byte_def is_dec_def Let_def)
  then show ?thesis by (simp add: ParseFloat_def read_float_dec[OF assms(1,2)] round64_of_nat[OF assms(3)])
qed

text \<open>
  A count that fits a double's 53 bits is read exactly as it was printed, so the gate's
  comparison of allocation and byte counts is a comparison of the integers themselves.
\<close>

theorem counts_read_exactly:
  assumes "n < 2 ^ 53"
  shows "ParseFloat (itoa (int n)) = Some (Fin (of_nat n))
    \<and> add_sample (itoa (int n)) ''allocs/op'' s = s\<lparr>sm_allocs := sm_allocs s @ [Fin (of_nat n)]\<rparr>"
proof -
  have "ParseFloat (itoa (int n)) = Some (Fin (of_nat n))"
    using ParseFloat_dec[of "nat_digits n"] nat_digits_dec[of n] assms by (simp add: itoa_def dec_value_nat_digits)
  then show ?thesis by (simp add: add_sample_def)
qed

theorem counts_read_exactly_witness: "ParseFloat (itoa (int 216)) = Some (Fin (of_nat 216))"
  using counts_read_exactly[of 216 no_samples] by simp

lemma last_index_byte_app:
  "last_index_byte (p @ s) c = (case last_index_byte s c of Some i \<Rightarrow> Some (length p + i) | None \<Rightarrow> last_index_byte p c)"
  by (induction p) (auto split: option.split)

lemma last_index_byte_none: "c \<notin> set s \<Longrightarrow> last_index_byte s c = None"
  by (induction s) auto

lemma runes_dec: "list_all is_dec ds \<Longrightarrow> runes ds = map (\<lambda>c. (of_char c, [c])) ds"
proof (induction ds)
  case (Cons c ds)
  then have "(of_char c :: nat) < 0x80" by (simp add: is_dec_def)
  with Cons show ?case by (simp add: runes_ascii)
qed simp

lemma stripProcs_digits:
  assumes "p \<noteq> []" "list_all is_dec ds"
  shows "stripProcs (p @ CHR ''-'' # ds) = p"
proof -
  have "CHR ''-'' \<notin> set ds" using assms(2) is_dec_not by (auto simp: list_all_iff)
  then have "last_index_byte (p @ CHR ''-'' # ds) CHR ''-'' = Some (length p)"
    by (simp add: last_index_byte_app last_index_byte_none)
  then show ?thesis using assms by (auto simp: stripProcs_def runes_dec is_dec_def list_all_iff)
qed

lemma demo_fields:
  "Fields ''BenchmarkE/n-8 1 1 allocs/op'' = [''BenchmarkE/n-8'', ''1'', ''1'', ''allocs/op'']"
  "Fields ''BenchmarkE/n-8 1 40 allocs/op'' = [''BenchmarkE/n-8'', ''1'', ''40'', ''allocs/op'']"
  "Fields ''BenchmarkE/n-9 1 50 allocs/op'' = [''BenchmarkE/n-9'', ''1'', ''50'', ''allocs/op'']"
  by (simp_all add: Fields_def runes_ascii space_rune_def)

lemma demo_names: "stripProcs ''BenchmarkE/n-8'' = ''BenchmarkE/n''" "stripProcs ''BenchmarkE/n-9'' = ''BenchmarkE/n''"
  using stripProcs_digits[of "''BenchmarkE/n''" "''8''"] stripProcs_digits[of "''BenchmarkE/n''" "''9''"]
  by (simp_all add: is_dec_def)

lemma demo_counts: "ParseFloat ''1'' = Some (Fin 1)" "ParseFloat ''40'' = Some (Fin 40)" "ParseFloat ''50'' = Some (Fin 50)"
  using ParseFloat_dec[of "''1''"] ParseFloat_dec[of "''40''"] ParseFloat_dec[of "''50''"]
  by (simp_all add: is_dec_def dec_value_def)

lemma demo_runs:
  "parse_lines [''BenchmarkE/n-8 1 1 allocs/op'', ''BenchmarkE/n-9 1 50 allocs/op''] []
     = [(''BenchmarkE/n'', \<lparr>sm_ns = [], sm_bytes = [], sm_allocs = [Fin 1, Fin 50]\<rparr>)]"
  "parse_lines [''BenchmarkE/n-8 1 40 allocs/op'', ''BenchmarkE/n-9 1 50 allocs/op''] []
     = [(''BenchmarkE/n'', \<lparr>sm_ns = [], sm_bytes = [], sm_allocs = [Fin 40, Fin 50]\<rparr>)]"
  by (simp_all add: parse_lines_def parse_line_def demo_fields demo_names demo_counts add_sample_def
      no_samples_def map_put_def)

text \<open>
  C39. A benchmark name is cut at its last dash whenever only digits follow, whether they are
  the number of processors or part of the name: \<^verbatim>\<open>go test\<close> appends no suffix when
  \<^verbatim>\<open>GOMAXPROCS\<close> is 1, and then two sub-benchmarks that differ in a trailing number are read as
  one. A regression of one of them can hide behind the other: here the first benchmark goes
  from 1 to 40 allocations and the gate reports nothing.
\<close>

theorem numbered_benchmarks_merge:
  assumes "p \<noteq> []" and "list_all is_dec ds"
  shows "stripProcs (p @ CHR ''-'' # ds) = p
    \<and> snd (compare (parse_lines [''BenchmarkE/n-8 1 1 allocs/op'', ''BenchmarkE/n-9 1 50 allocs/op''] [])
                   (parse_lines [''BenchmarkE/n-8 1 40 allocs/op'', ''BenchmarkE/n-9 1 50 allocs/op''] [])
                   threshold (Fin 5)) = 0"
proof
  show "stripProcs (p @ CHR ''-'' # ds) = p" using assms by (rule stripProcs_digits)
  let ?run = "\<lambda>n. [(''BenchmarkE/n'', \<lparr>sm_ns = [], sm_bytes = [], sm_allocs = [Fin n, Fin 50]\<rparr>)]"
  have "regressions threshold (Fin 5) (?run 1) (?run 40) = {}"
    by (auto simp: regressions_def regressed_def rises_above_def median_def f_sub_def split: if_splits)
  moreover have "map_ok (?run 40)" by (simp add: map_ok_def)
  ultimately show "snd (compare (parse_lines [''BenchmarkE/n-8 1 1 allocs/op'', ''BenchmarkE/n-9 1 50 allocs/op''] [])
                   (parse_lines [''BenchmarkE/n-8 1 40 allocs/op'', ''BenchmarkE/n-9 1 50 allocs/op''] [])
                   threshold (Fin 5)) = 0"
    by (simp only: demo_runs compare_failures card.empty)
qed

theorem numbered_benchmarks_merge_witness:
  "stripProcs ''BenchmarkEncode/size-100'' = ''BenchmarkEncode/size''"
  using numbered_benchmarks_merge[of "''BenchmarkEncode/size''" "''100''"] by (simp add: is_dec_def)

subsection \<open>A more tolerant gate\<close>

lemma round64_nonneg: "0 \<le> x \<Longrightarrow> Fin 0 \<le> round64 x"
  using round64_mono[of 0 x] by simp

lemma float_nonneg_cases:
  assumes "Fin 0 \<le> a"
  obtains x where "a = Fin x" "0 \<le> x" | "a = Infty False"
  using assms by (cases a) auto

lemma f_add_nonneg: "Fin 0 \<le> a \<Longrightarrow> Fin 0 \<le> b \<Longrightarrow> Fin 0 \<le> f_add a b"
  by (elim float_nonneg_cases) (auto intro: round64_nonneg)

lemma f_half_nonneg: "Fin 0 \<le> a \<Longrightarrow> Fin 0 \<le> f_div a (Fin 2)"
  by (elim float_nonneg_cases) (auto intro: round64_nonneg)

lemma median_nonneg:
  assumes "list_all (\<lambda>x. Fin 0 \<le> x) v"
  shows "Fin 0 \<le> median v"
proof (cases "v = []")
  case False
  then have n: "sort v ! i \<in> set v" if "i < length v" for i using that by (metis length_sort nth_mem set_sort)
  have len: "0 < length v" using False by simp
  then have "length v div 2 < length v" "length v div 2 - 1 < length v" by linarith+
  with n assms have "Fin 0 \<le> sort v ! (length v div 2)" "Fin 0 \<le> sort v ! (length v div 2 - 1)"
    by (auto simp: list_all_iff)
  then show ?thesis using False by (auto simp: median_def Let_def intro: f_half_nonneg f_add_nonneg)
qed (simp add: median_def)

lemma threshold_tolerant:
  assumes b: "Fin 0 \<le> b" and t: "0 \<le> t" "t \<le> t'"
    and "f_less (f_mul b (f_add (Fin 1) (Fin t'))) h"
  shows "f_less (f_mul b (f_add (Fin 1) (Fin t))) h"
proof -
  have y: "f_add (Fin 1) (Fin t) \<le> f_add (Fin 1) (Fin t')" using t by (simp add: round64_mono)
  have one: "Fin 1 \<le> f_add (Fin 1) (Fin t)"
    using round64_mono[of 1 "1 + t"] round64_of_nat[of 1] t by simp
  obtain y' where y': "f_add (Fin 1) (Fin t') = Fin y'"
  proof (cases "f_add (Fin 1) (Fin t')")
    case (Infty neg)
    with one y have "\<not> neg" by (cases "f_add (Fin 1) (Fin t)") auto
    with Infty assms(4) b have False by (elim float_nonneg_cases) (cases h; auto split: if_splits)+
    then show thesis ..
  qed (use that in auto)
  then obtain z where z: "f_add (Fin 1) (Fin t) = Fin z" "1 \<le> z" "z \<le> y'"
    using y one by (cases "f_add (Fin 1) (Fin t)") auto
  from b show ?thesis
  proof (cases rule: float_nonneg_cases)
    case (1 x)
    then have "round64 (x * z) \<le> round64 (x * y')" using z by (intro round64_mono mult_left_mono)
    then show ?thesis using assms(4) 1 y' z(1) by (auto intro: f_less_le_trans)
  next
    case 2
    then show ?thesis using assms(4) y' z by (cases h) (auto split: if_splits)
  qed
qed

text \<open>
  Raising the threshold or the floor never makes the gate fail more: the failures under
  the more tolerant limits are among those under the stricter ones, for times that are not
  negative. The rounding of \<^verbatim>\<open>bNs*(1+threshold)\<close> keeps the order.
\<close>

theorem tolerant_gate_fails_less:
  assumes "map_ok head"
    and "0 \<le> t" and "t \<le> t'" and "flr \<le> flr'" and "flr \<noteq> NaN"
    and "\<forall>b \<in> ran (map_of base). list_all (\<lambda>x. Fin 0 \<le> x) (sm_ns b)"
  shows "regressions (Fin t') flr' base head \<subseteq> regressions (Fin t) flr base head
    \<and> snd (compare base head (Fin t') flr') \<le> snd (compare base head (Fin t) flr)"
proof
  show sub: "regressions (Fin t') flr' base head \<subseteq> regressions (Fin t) flr base head"
  proof
    fix name assume "name \<in> regressions (Fin t') flr' base head"
    then obtain b h where bh: "map_of base name = Some b" "map_of head name = Some h" "regressed (Fin t') flr' b h"
      by (auto simp: regressions_def split: option.splits)
    then have "Fin 0 \<le> median (sm_ns b)" using assms(6) by (intro median_nonneg) (auto intro: ranI)
    then have "regressed (Fin t) flr b h"
      using bh(3) threshold_tolerant[OF _ assms(2,3)] f_less_le_trans[OF assms(4) _ assms(5)]
      unfolding regressed_def by blast
    with bh show "name \<in> regressions (Fin t) flr base head" by (simp add: regressions_def)
  qed
  show "snd (compare base head (Fin t') flr') \<le> snd (compare base head (Fin t) flr)"
    unfolding compare_failures[OF assms(1)] by (rule card_mono[OF regressions_finite sub])
qed

theorem tolerant_gate_fails_less_witness:
  "snd (compare [(''A'', \<lparr>sm_ns = [Fin 10], sm_bytes = [], sm_allocs = []\<rparr>)]
      [(''A'', \<lparr>sm_ns = [Fin 16], sm_bytes = [], sm_allocs = []\<rparr>)] (Fin (1 / 2)) (Fin 7))
   \<le> snd (compare [(''A'', \<lparr>sm_ns = [Fin 10], sm_bytes = [], sm_allocs = []\<rparr>)]
      [(''A'', \<lparr>sm_ns = [Fin 16], sm_bytes = [], sm_allocs = []\<rparr>)] (Fin (1 / 4)) (Fin 5))"
  using tolerant_gate_fails_less[of "[(''A'', \<lparr>sm_ns = [Fin 16], sm_bytes = [], sm_allocs = []\<rparr>)]"
      "1 / 4" "1 / 2" "Fin 5" "Fin 7" "[(''A'', \<lparr>sm_ns = [Fin 10], sm_bytes = [], sm_allocs = []\<rparr>)]"]
  by (simp add: map_ok_def)

end
