(* ===== verification/Throttle.thy ===== *)
theory Throttle
  imports Reports
begin

text \<open>
  The deduplicating windows of \<^verbatim>\<open>ThrottlingReporter\<close> (throttle.go): six string-keyed maps
  sharing one interval. \<open>now\<close> is what the injectable clock returns when an operation reads
  it; \<^verbatim>\<open>admit\<close> reads it at most once. Forwarding to the wrapped reporter is in
  \<open>Reporters\<close>.
\<close>

definition maxUnscopedTxKeys :: int where
  "maxUnscopedTxKeys = 1024"

record throttle_state =
  ts_lastForwarded :: time
  ts_suppressed :: int

type_synonym throttle_map = "(string \<times> throttle_state) list"

record throttle =
  th_interval :: int
  th_violations :: throttle_map
  th_unscoped :: throttle_map
  th_unscopedChecks :: throttle_map
  th_staleAllows :: throttle_map
  th_nested :: throttle_map
  th_leaked :: throttle_map

definition NewThrottlingReporter :: "int \<Rightarrow> throttle" where
  "NewThrottlingReporter interval =
     \<lparr>th_interval = interval, th_violations = [], th_unscoped = [], th_unscopedChecks = [],
      th_staleAllows = [], th_nested = [], th_leaked = []\<rparr>"

text \<open>\<^verbatim>\<open>time.Time.Sub\<close>: the difference, saturated to the range of an int64 \<^verbatim>\<open>Duration\<close>.\<close>

definition time_sub :: "time \<Rightarrow> time \<Rightarrow> int" where
  "time_sub t u = max (- (2 ^ 63)) (min (2 ^ 63 - 1) (t - u))"

definition admit :: "int \<Rightarrow> time \<Rightarrow> string \<Rightarrow> int \<Rightarrow> throttle_map \<Rightarrow> bool \<times> throttle_map" where
  "admit interval now key maxKeys m =
     (case map_of m key of
        None \<Rightarrow>
          if maxKeys > 0 \<and> int (length m) \<ge> maxKeys then (True, m)
          else (True, map_put key \<lparr>ts_lastForwarded = now, ts_suppressed = 0\<rparr> m)
      | Some st \<Rightarrow>
          if time_sub now (ts_lastForwarded st) \<ge> interval
          then (True, map_put key (st\<lparr>ts_lastForwarded := now\<rparr>) m)
          else (False, map_put key (st\<lparr>ts_suppressed := ts_suppressed st + 1\<rparr>) m))"

definition NUL :: char where
  "NUL = CHR 0x00"

definition identityKey :: "violation_key \<Rightarrow> string" where
  "identityKey k = vk_scope k @ [NUL] @ vk_kind k @ [NUL] @ vk_name k"

definition unscopedTxKey :: "unscoped_tx \<Rightarrow> string" where
  "unscopedTxKey u =
     (case ut_Stack u of [] \<Rightarrow> [] | f # _ \<Rightarrow> sf_File f @ '':'' @ itoa (sf_Line f))"

text \<open>
  The decision at the head of each of the six methods, \<^verbatim>\<open>r.interval <= 0 || r.admit(...)\<close>:
  the map, the key and the cap it uses for each kind of report.
\<close>

fun throttle_gate :: "report \<Rightarrow> time \<Rightarrow> throttle \<Rightarrow> bool \<times> throttle" where
  "throttle_gate (RViolation v) now th =
     (if th_interval th \<le> 0 then (True, th)
      else case admit (th_interval th) now (identityKey (violation_key_of v)) 0 (th_violations th) of
             (ok, m) \<Rightarrow> (ok, th\<lparr>th_violations := m\<rparr>))"
| "throttle_gate (RUnscopedTx u) now th =
     (if th_interval th \<le> 0 then (True, th)
      else case admit (th_interval th) now (unscopedTxKey u) maxUnscopedTxKeys (th_unscoped th) of
             (ok, m) \<Rightarrow> (ok, th\<lparr>th_unscoped := m\<rparr>))"
| "throttle_gate (RUnscopedCheck u) now th =
     (if th_interval th \<le> 0 then (True, th)
      else case admit (th_interval th) now (op_kind (uc_Op u) @ [NUL] @ op_name (uc_Op u)) 0
                  (th_unscopedChecks th) of
             (ok, m) \<Rightarrow> (ok, th\<lparr>th_unscopedChecks := m\<rparr>))"
| "throttle_gate (RStaleAllow s) now th =
     (if th_interval th \<le> 0 then (True, th)
      else case admit (th_interval th) now
                  (identityKey (ViolationKey (st_Scope s) (op_kind (st_Op s)) (op_name (st_Op s)))) 0
                  (th_staleAllows th) of
             (ok, m) \<Rightarrow> (ok, th\<lparr>th_staleAllows := m\<rparr>))"
| "throttle_gate (RNestedScope n) now th =
     (if th_interval th \<le> 0 then (True, th)
      else case admit (th_interval th) now (ns_Outer n @ [NUL] @ ns_Inner n) 0 (th_nested th) of
             (ok, m) \<Rightarrow> (ok, th\<lparr>th_nested := m\<rparr>))"
| "throttle_gate (RLeakedTx l) now th =
     (if th_interval th \<le> 0 then (True, th)
      else case admit (th_interval th) now (lt_Scope l) 0 (th_leaked th) of
             (ok, m) \<Rightarrow> (ok, th\<lparr>th_leaked := m\<rparr>))"

definition snapshot :: "throttle_map \<Rightarrow> (string \<times> int) list" where
  "snapshot m = map (\<lambda>(k, st). (k, ts_suppressed st)) (filter (\<lambda>(k, st). ts_suppressed st > 0) m)"

definition SuppressedViolations :: "throttle \<Rightarrow> (string \<times> int) list" where
  "SuppressedViolations th = snapshot (th_violations th)"

definition SuppressedUnscopedTxs :: "throttle \<Rightarrow> (string \<times> int) list" where
  "SuppressedUnscopedTxs th = snapshot (th_unscoped th)"

definition SuppressedUnscopedChecks :: "throttle \<Rightarrow> (string \<times> int) list" where
  "SuppressedUnscopedChecks th = snapshot (th_unscopedChecks th)"

definition SuppressedStaleAllows :: "throttle \<Rightarrow> (string \<times> int) list" where
  "SuppressedStaleAllows th = snapshot (th_staleAllows th)"

definition SuppressedNestedScopes :: "throttle \<Rightarrow> (string \<times> int) list" where
  "SuppressedNestedScopes th = snapshot (th_nested th)"

definition SuppressedLeakedTxs :: "throttle \<Rightarrow> (string \<times> int) list" where
  "SuppressedLeakedTxs th = snapshot (th_leaked th)"

subsection \<open>One window at a time\<close>

text \<open>
  A report falls into a window, named by its kind and its key; the maps are the windows'
  states.
\<close>

type_synonym window = "extension option \<times> string"

fun report_key :: "report \<Rightarrow> window" where
  "report_key (RViolation v) = (None, identityKey (violation_key_of v))"
| "report_key (RUnscopedTx u) = (Some ExtUnscopedTx, unscopedTxKey u)"
| "report_key (RUnscopedCheck u) =
     (Some ExtUnscopedCheck, op_kind (uc_Op u) @ [NUL] @ op_name (uc_Op u))"
| "report_key (RStaleAllow s) = (Some ExtStaleAllow,
     identityKey (ViolationKey (st_Scope s) (op_kind (st_Op s)) (op_name (st_Op s))))"
| "report_key (RNestedScope n) = (Some ExtNestedScope, ns_Outer n @ [NUL] @ ns_Inner n)"
| "report_key (RLeakedTx l) = (Some ExtLeakedTx, lt_Scope l)"

fun window_map :: "extension option \<Rightarrow> throttle \<Rightarrow> throttle_map" where
  "window_map None th = th_violations th"
| "window_map (Some ExtUnscopedTx) th = th_unscoped th"
| "window_map (Some ExtUnscopedCheck) th = th_unscopedChecks th"
| "window_map (Some ExtStaleAllow) th = th_staleAllows th"
| "window_map (Some ExtNestedScope) th = th_nested th"
| "window_map (Some ExtLeakedTx) th = th_leaked th"

definition window_of :: "throttle \<Rightarrow> window \<Rightarrow> throttle_state option" where
  "window_of th w = map_of (window_map (fst w) th) (snd w)"

text \<open>What one window does on its own, and the decisions of a sequence of reports in it.\<close>

definition window_step :: "int \<Rightarrow> time \<Rightarrow> throttle_state option \<Rightarrow> bool \<times> throttle_state" where
  "window_step interval now w =
     (case w of
        None \<Rightarrow> (True, \<lparr>ts_lastForwarded = now, ts_suppressed = 0\<rparr>)
      | Some st \<Rightarrow>
          if time_sub now (ts_lastForwarded st) \<ge> interval then (True, st\<lparr>ts_lastForwarded := now\<rparr>)
          else (False, st\<lparr>ts_suppressed := ts_suppressed st + 1\<rparr>))"

fun thinned :: "int \<Rightarrow> time option \<Rightarrow> time list \<Rightarrow> bool list" where
  "thinned interval lst [] = []"
| "thinned interval None (t # ts) = True # thinned interval (Some t) ts"
| "thinned interval (Some u) (t # ts) =
     (if time_sub t u \<ge> interval then True # thinned interval (Some t) ts
      else False # thinned interval (Some u) ts)"

definition uncapped :: "report \<Rightarrow> throttle \<Rightarrow> bool" where
  "uncapped r th \<longleftrightarrow> needs r = Some ExtUnscopedTx \<longrightarrow>
     window_of th (report_key r) \<noteq> None \<or> int (length (th_unscoped th)) < maxUnscopedTxKeys"

lemma fst_report_key [simp]: "fst (report_key r) = needs r"
  by (cases r) simp_all

text \<open>Whether \<^verbatim>\<open>admit\<close> looks at the clock: not when throttling is off, nor past the cap.\<close>

definition reads_clock :: "report \<Rightarrow> throttle \<Rightarrow> bool" where
  "reads_clock r th \<longleftrightarrow> 0 < th_interval th \<and> uncapped r th"

lemma admit_step:
  assumes "maxKeys \<le> 0 \<or> map_of m key \<noteq> None \<or> int (length m) < maxKeys"
  shows "admit interval now key maxKeys m =
    (fst (window_step interval now (map_of m key)),
     map_put key (snd (window_step interval now (map_of m key))) m)"
  using assms by (auto simp: admit_def window_step_def split: option.split)

lemma admit_full:
  assumes "0 < maxKeys" "map_of m key = None" "maxKeys \<le> int (length m)"
  shows "admit interval now key maxKeys m = (True, m)"
  using assms by (simp add: admit_def)

lemma gate_unread: "\<not> reads_clock r th \<Longrightarrow> throttle_gate r now th = (True, th)"
  by (cases r)
    (auto simp: reads_clock_def uncapped_def window_of_def admit_full maxUnscopedTxKeys_def)

lemma gate_interval [simp, txn_frame]: "th_interval (snd (throttle_gate r now th)) = th_interval th"
  by (cases r) (simp_all split: prod.split)

lemma window_kind_cases:
  obtains "e = None" | "e = Some ExtUnscopedTx" | "e = Some ExtUnscopedCheck"
    | "e = Some ExtStaleAllow" | "e = Some ExtNestedScope" | "e = Some ExtLeakedTx"
  by (cases e; metis extension.exhaust)

lemma gate_step:
  assumes "0 < th_interval th" "uncapped r th"
  shows "fst (throttle_gate r now th)
      = fst (window_step (th_interval th) now (window_of th (report_key r)))
    \<and> window_map e (snd (throttle_gate r now th)) =
       (if e = needs r
        then map_put (snd (report_key r))
               (snd (window_step (th_interval th) now (window_of th (report_key r)))) (window_map e th)
        else window_map e th)"
proof (cases r)
  case (RUnscopedTx u)
  show ?thesis
    using assms RUnscopedTx
    by (cases e rule: window_kind_cases)
      (auto simp: uncapped_def window_of_def admit_step)
qed (use assms in \<open>cases e rule: window_kind_cases; simp add: window_of_def admit_step\<close>)+

lemma gate_window:
  assumes "0 < th_interval th" "uncapped r th"
  shows "window_of (snd (throttle_gate r now th)) =
    (window_of th)(report_key r \<mapsto>
       snd (window_step (th_interval th) now (window_of th (report_key r))))"
proof
  fix w :: window
  obtain e k where w: "w = (e, k)" by (cases w)
  obtain n key where rk: "report_key r = (n, key)" by (cases "report_key r")
  then have "needs r = n" using fst_report_key[of r] by simp
  with conjunct2[OF gate_step[OF assms, of now e]] rk
  show "window_of (snd (throttle_gate r now th)) w = ((window_of th)(report_key r \<mapsto>
       snd (window_step (th_interval th) now (window_of th (report_key r))))) w"
    by (simp add: window_of_def w)
qed

lemma gate_other:
  "e \<noteq> needs r \<Longrightarrow> window_map e (snd (throttle_gate r now th)) = window_map e th"
  by (cases r; cases e rule: window_kind_cases; simp split: prod.split)

text \<open>A run: timed reports in the order they reach the throttle.\<close>

fun throttle_run :: "(time \<times> report) list \<Rightarrow> throttle \<Rightarrow> bool list \<times> throttle" where
  "throttle_run [] th = ([], th)"
| "throttle_run ((t, r) # rs) th =
     (case throttle_gate r t th of (ok, th') \<Rightarrow>
        case throttle_run rs th' of (oks, th'') \<Rightarrow> (ok # oks, th''))"

definition times_in :: "window \<Rightarrow> (time \<times> report) list \<Rightarrow> time list" where
  "times_in w rs = map fst (filter (\<lambda>(t, r). report_key r = w) rs)"

definition decisions_in :: "window \<Rightarrow> (time \<times> report) list \<Rightarrow> bool list \<Rightarrow> bool list" where
  "decisions_in w rs oks = map snd (filter (\<lambda>((t, r), ok). report_key r = w) (zip rs oks))"

lemma times_in_simps [simp]:
  "times_in w [] = []"
  "times_in w ((t, r) # rs) = (if report_key r = w then t # times_in w rs else times_in w rs)"
  by (simp_all add: times_in_def)

lemma decisions_in_simps [simp]:
  "decisions_in w [] oks = []"
  "decisions_in w ((t, r) # rs) (ok # oks) =
     (if report_key r = w then ok # decisions_in w rs oks else decisions_in w rs oks)"
  by (simp_all add: decisions_in_def)

subsection \<open>Runs\<close>

definition unscoped_keys :: "(time \<times> report) list \<Rightarrow> string set" where
  "unscoped_keys rs = {k. \<exists>t u. (t, RUnscopedTx u) \<in> set rs \<and> unscopedTxKey u = k}"

definition within_cap :: "throttle \<Rightarrow> (time \<times> report) list \<Rightarrow> bool" where
  "within_cap th rs \<longleftrightarrow> map_ok (th_unscoped th)
     \<and> int (card (fst ` set (th_unscoped th) \<union> unscoped_keys rs)) \<le> maxUnscopedTxKeys"

lemma unscoped_keys_Nil [simp]: "unscoped_keys [] = {}"
  by (simp add: unscoped_keys_def)

lemma unscoped_keys_Cons:
  "unscoped_keys ((t, r) # rs) =
     (if needs r = Some ExtUnscopedTx then insert (snd (report_key r)) (unscoped_keys rs)
      else unscoped_keys rs)"
  by (cases r) (auto simp: unscoped_keys_def)

lemma finite_unscoped_keys [simp]: "finite (unscoped_keys rs)"
  by (induction rs) (auto simp: unscoped_keys_Cons)

lemma within_cap_uncapped: "within_cap th ((t, r) # rs) \<Longrightarrow> uncapped r th"
proof (cases "needs r = Some ExtUnscopedTx \<and> window_of th (report_key r) = None")
  case True
  assume cap: "within_cap th ((t, r) # rs)"
  obtain u where r: "r = RUnscopedTx u" using True by auto
  with True have "unscopedTxKey u \<notin> fst ` set (th_unscoped th)"
    by (simp add: window_of_def map_of_eq_None_iff)
  then have "card (fst ` set (th_unscoped th))
      < card (fst ` set (th_unscoped th) \<union> unscoped_keys ((t, r) # rs))"
    by (intro psubset_card_mono) (auto simp: unscoped_keys_Cons r)
  moreover have "length (th_unscoped th) = card (fst ` set (th_unscoped th))"
    using cap distinct_card[of "map fst (th_unscoped th)"] by (simp add: within_cap_def map_ok_def)
  ultimately show ?thesis using cap by (simp add: within_cap_def uncapped_def)
qed (auto simp: uncapped_def)

lemma within_cap_step:
  assumes "0 < th_interval th" "within_cap th ((t, r) # rs)"
  shows "within_cap (snd (throttle_gate r t th)) rs"
proof -
  note g = conjunct2[OF gate_step[OF assms(1) within_cap_uncapped[OF assms(2)], of t "Some ExtUnscopedTx"]]
  show ?thesis
  proof (cases "needs r = Some ExtUnscopedTx")
    case True
    with g assms(2) show ?thesis by (auto simp: within_cap_def unscoped_keys_Cons)
  next
    case False
    with g[unfolded window_map.simps] assms(2) show ?thesis
      by (simp only: within_cap_def unscoped_keys_Cons if_False eq_commute[of _ "needs r"])
  qed
qed

definition suppressed_after :: "throttle_state option \<Rightarrow> bool \<Rightarrow> nat \<Rightarrow> int option" where
  "suppressed_after ws seen n =
     (case ws of Some st \<Rightarrow> Some (ts_suppressed st + int n)
      | None \<Rightarrow> if seen then Some (int n) else None)"

lemma run_window:
  assumes "0 < th_interval th" "fst w = Some ExtUnscopedTx \<Longrightarrow> within_cap th rs"
  shows "decisions_in w rs (fst (throttle_run rs th))
      = thinned (th_interval th) (map_option ts_lastForwarded (window_of th w)) (times_in w rs)
    \<and> map_option ts_suppressed (window_of (snd (throttle_run rs th)) w) =
        suppressed_after (window_of th w) (times_in w rs \<noteq> [])
          (count_list (decisions_in w rs (fst (throttle_run rs th))) False)"
  using assms
proof (induction rs arbitrary: th)
  case Nil
  then show ?case by (simp add: suppressed_after_def split: option.split)
next
  case (Cons tr rs)
  obtain t r where tr: "tr = (t, r)" by (cases tr)
  let ?th = "snd (throttle_gate r t th)"
  have IH: "decisions_in w rs (fst (throttle_run rs ?th))
      = thinned (th_interval th) (map_option ts_lastForwarded (window_of ?th w)) (times_in w rs)
    \<and> map_option ts_suppressed (window_of (snd (throttle_run rs ?th)) w) =
        suppressed_after (window_of ?th w) (times_in w rs \<noteq> [])
          (count_list (decisions_in w rs (fst (throttle_run rs ?th))) False)"
    using Cons.IH[of ?th] Cons.prems within_cap_step[of th t r rs] tr by simp
  show ?case
  proof (cases "report_key r = w")
    case False
    have "window_of ?th w = window_of th w"
    proof (cases "fst w = needs r")
      case True
      have "uncapped r th"
        using Cons.prems(2) True within_cap_uncapped[of th t r rs] tr by (auto simp: uncapped_def)
      from gate_window[OF Cons.prems(1) this, of t] False show ?thesis by simp
    qed (simp add: window_of_def gate_other)
    with False IH show ?thesis by (simp add: tr case_prod_unfold)
  next
    case True
    have un: "uncapped r th"
      using Cons.prems(2) True within_cap_uncapped[of th t r rs] tr
      by (auto simp: uncapped_def)
    from gate_window[OF Cons.prems(1) un, of t] gate_step[OF Cons.prems(1) un, of t None] True IH
    show ?thesis
      by (simp add: tr case_prod_unfold window_step_def suppressed_after_def split: option.splits)
  qed
qed

lemma window_of_New [simp]: "window_of (NewThrottlingReporter interval) w = None"
  by (cases w; cases "fst w" rule: window_kind_cases)
    (simp_all add: window_of_def NewThrottlingReporter_def)

lemma window_map_New [simp]: "window_map e (NewThrottlingReporter interval) = []"
  by (cases e rule: window_kind_cases) (simp_all add: NewThrottlingReporter_def)

lemma th_interval_New [simp]: "th_interval (NewThrottlingReporter interval) = interval"
  by (simp add: NewThrottlingReporter_def)

lemma within_cap_New:
  "within_cap (NewThrottlingReporter interval) rs \<longleftrightarrow> int (card (unscoped_keys rs)) \<le> maxUnscopedTxKeys"
  by (simp add: within_cap_def NewThrottlingReporter_def)

lemma map_ok_admit: "map_ok m \<Longrightarrow> map_ok (snd (admit interval now key maxKeys m))"
  by (simp add: admit_def split: option.split)

lemma length_admit:
  "int (length m) \<le> maxKeys \<Longrightarrow> 0 < maxKeys \<Longrightarrow>
     int (length (snd (admit interval now key maxKeys m))) \<le> maxKeys"
  by (auto simp: admit_def length_put split: option.split)

lemma map_ok_gate:
  "map_ok (window_map e th) \<Longrightarrow> map_ok (window_map e (snd (throttle_gate r now th)))"
  by (cases r; cases e rule: window_kind_cases)
    (simp_all add: case_prod_unfold map_ok_admit)

lemma map_ok_run:
  "map_ok (window_map e th) \<Longrightarrow> map_ok (window_map e (snd (throttle_run rs th)))"
  by (induction rs arbitrary: th) (auto simp: case_prod_unfold map_ok_gate)

lemma unscoped_capped_gate:
  "int (length (th_unscoped th)) \<le> maxUnscopedTxKeys \<Longrightarrow>
     int (length (th_unscoped (snd (throttle_gate r now th)))) \<le> maxUnscopedTxKeys"
  using length_admit[of "th_unscoped th" maxUnscopedTxKeys]
  by (cases r) (simp_all add: case_prod_unfold maxUnscopedTxKeys_def)

lemma unscoped_capped_run:
  "int (length (th_unscoped th)) \<le> maxUnscopedTxKeys \<Longrightarrow>
     int (length (th_unscoped (snd (throttle_run rs th)))) \<le> maxUnscopedTxKeys"
  by (induction rs arbitrary: th) (auto simp: case_prod_unfold unscoped_capped_gate)

lemma map_of_snapshot:
  assumes "map_ok m"
  shows "map_of (snapshot m) k =
    (case map_of m k of
       Some st \<Rightarrow> if ts_suppressed st > 0 then Some (ts_suppressed st) else None
     | None \<Rightarrow> None)"
  using assms
proof (induction m)
  case Nil
  then show ?case by (simp add: snapshot_def)
next
  case (Cons kst m)
  obtain k' st where kst: "kst = (k', st)" by (cases kst)
  have "map_ok m" "map_of m k' = None"
    using Cons.prems by (auto simp: map_ok_def kst map_of_eq_None_iff)
  with Cons.IH show ?case
    by (auto simp: snapshot_def kst split: option.splits)
qed

subsection \<open>What the thinned stream promises\<close>

lemma time_sub_ge: "0 < interval \<Longrightarrow> interval \<le> time_sub t u \<Longrightarrow> interval \<le> t - u"
  by (simp add: time_sub_def max_def min_def split: if_splits)

lemma time_sub_lt: "interval < 2 ^ 63 \<Longrightarrow> time_sub t u < interval \<Longrightarrow> t - u < interval"
  by (simp add: time_sub_def max_def min_def split: if_splits)

lemma length_thinned [simp]: "length (thinned interval lst ts) = length ts"
  by (induction interval lst ts rule: thinned.induct) auto

definition spaced :: "int \<Rightarrow> time option \<Rightarrow> time list \<Rightarrow> bool list \<Rightarrow> bool" where
  "spaced interval lst ts ds \<longleftrightarrow>
     (\<forall>j < length ts. ds ! j \<longrightarrow>
        (\<forall>u. lst = Some u \<longrightarrow> interval \<le> ts ! j - u) \<and> (\<forall>i < j. ds ! i \<longrightarrow> interval \<le> ts ! j - ts ! i))"

lemma thinned_spaced:
  assumes "0 < interval"
  shows "spaced interval lst ts (thinned interval lst ts)"
  using assms
proof (induction interval lst ts rule: thinned.induct)
  case (1 interval lst)
  then show ?case by (simp add: spaced_def)
next
  case (2 interval t ts)
  then show ?case by (auto simp: spaced_def nth_Cons split: nat.split)
next
  case (3 interval u t ts)
  show ?case
  proof (cases "interval \<le> time_sub t u")
    case True
    have tu: "interval \<le> t - u" using time_sub_ge[OF 3(3) True] .
    have "spaced interval (Some t) ts (thinned interval (Some t) ts)" using 3 True by blast
    with True tu 3(3) show ?thesis
      by (fastforce simp: spaced_def nth_Cons split: nat.split)
  next
    case False
    have "spaced interval (Some u) ts (thinned interval (Some u) ts)" using 3 False by blast
    with False show ?thesis by (auto simp: spaced_def nth_Cons split: nat.split)
  qed
qed

lemma thinned_covered:
  assumes "interval < 2 ^ 63" "j < length ts" "\<not> thinned interval lst ts ! j"
  shows "(\<exists>u. lst = Some u \<and> ts ! j - u < interval)
    \<or> (\<exists>i < j. thinned interval lst ts ! i \<and> ts ! j - ts ! i < interval)"
  using assms
proof (induction interval lst ts arbitrary: j rule: thinned.induct)
  case (1 interval lst)
  then show ?case by simp
next
  case (2 interval t ts)
  then obtain j' where j: "j = Suc j'" by (cases j) auto
  with 2 have "(\<exists>u. Some t = Some u \<and> ts ! j' - u < interval)
    \<or> (\<exists>i < j'. thinned interval (Some t) ts ! i \<and> ts ! j' - ts ! i < interval)" by simp
  then show ?case
    by (auto simp: j intro: exI[of _ 0] exI[of _ "Suc i" for i])
next
  case (3 interval u t ts)
  show ?case
  proof (cases "interval \<le> time_sub t u")
    case True
    with 3 obtain j' where j: "j = Suc j'" by (cases j) auto
    with 3 True have "(\<exists>u. Some t = Some u \<and> ts ! j' - u < interval)
      \<or> (\<exists>i < j'. thinned interval (Some t) ts ! i \<and> ts ! j' - ts ! i < interval)" by simp
    with True show ?thesis
      by (auto simp: j intro: exI[of _ 0] exI[of _ "Suc i" for i])
  next
    case False
    show ?thesis
    proof (cases j)
      case 0
      with False 3(3) show ?thesis by (auto intro: time_sub_lt)
    next
      case (Suc j')
      with 3 False have "(\<exists>v. Some u = Some v \<and> ts ! j' - v < interval)
        \<or> (\<exists>i < j'. thinned interval (Some u) ts ! i \<and> ts ! j' - ts ! i < interval)" by simp
      with False show ?thesis
        by (auto simp: Suc intro: exI[of _ "Suc i" for i])
    qed
  qed
qed

lemma maxUnscopedTxKeys_pos: "0 < maxUnscopedTxKeys"
  by (simp add: maxUnscopedTxKeys_def)

lemma length_decisions [simp]:
  "length (decisions_in w rs (fst (throttle_run rs th))) = length (times_in w rs)"
  by (induction rs arbitrary: th) (auto simp: case_prod_unfold)

lemma NUL_split:
  assumes "NUL \<notin> set a" "NUL \<notin> set a'" "a @ NUL # b = a' @ NUL # b'"
  shows "a = a' \<and> b = b'"
  using assms
proof (induction a arbitrary: a')
  case Nil
  then show ?case by (cases a') auto
next
  case (Cons c a)
  then show ?case by (cases a') auto
qed

subsection \<open>Properties\<close>

text \<open>
  C29. The six kinds of report and the keys within a kind are thinned independently by a fresh
  throttle with a positive interval. Whatever else reaches the throttle, the reports of one
  window are decided by their own times alone, the first forwarded and each later one forwarded
  when the interval has passed since the last forwarded one. The suppression counter that the
  \<^verbatim>\<open>Suppressed*\<close> snapshots expose is exactly the number of reports suppressed in the window,
  absent when there was none. For the windows of five kinds this is unconditional; for a
  window of unscoped transactions it holds as long as no more than 1024 distinct call sites
  begin one in the run, for past that cap a new site depends on the others and fails open.
\<close>

theorem throttle_windows_independent:
  assumes "0 < interval" "fst w = Some ExtUnscopedTx \<Longrightarrow> int (card (unscoped_keys rs)) \<le> maxUnscopedTxKeys"
  shows "let (oks, th) = throttle_run rs (NewThrottlingReporter interval);
             n = count_list (thinned interval None (times_in w rs)) False in
      decisions_in w rs oks = thinned interval None (times_in w rs)
    \<and> map_of (snapshot (window_map (fst w) th)) (snd w) = (if n = 0 then None else Some (int n))"
proof -
  let ?T = "NewThrottlingReporter interval"
  have "fst w = Some ExtUnscopedTx \<Longrightarrow> within_cap ?T rs"
    using assms(2) by (simp add: within_cap_New)
  from run_window[of ?T w rs, OF _ this] assms(1)
  have d: "decisions_in w rs (fst (throttle_run rs ?T)) = thinned interval None (times_in w rs)"
    and n: "map_option ts_suppressed (window_of (snd (throttle_run rs ?T)) w) =
      suppressed_after None (times_in w rs \<noteq> []) (count_list (thinned interval None (times_in w rs)) False)"
    by simp_all
  have "map_ok (window_map (fst w) (snd (throttle_run rs ?T)))" by (rule map_ok_run) simp
  with n d show ?thesis
    by (auto simp: map_of_snapshot window_of_def suppressed_after_def case_prod_unfold Let_def
        split: option.splits if_splits)
qed

theorem throttle_windows_independent_witness:
  "decisions_in (None, ''S'' @ NUL # ''k'' @ NUL # ''n'')
     [(0, RViolation \<lparr>v_Op = Op ''k'' ''n'', v_Scope = ''S'', v_OpenTxs = 1, v_Call = 1, v_AllowedCalls = [], v_Stack = [], v_Attrs = [], v_Time = 0\<rparr>),
      (5, RLeakedTx \<lparr>lt_Scope = ''S'', lt_OpenTxs = 1, lt_Time = 5\<rparr>),
      (9, RViolation \<lparr>v_Op = Op ''k'' ''n'', v_Scope = ''S'', v_OpenTxs = 1, v_Call = 2, v_AllowedCalls = [], v_Stack = [], v_Attrs = [], v_Time = 9\<rparr>)]
     (fst (throttle_run
       [(0, RViolation \<lparr>v_Op = Op ''k'' ''n'', v_Scope = ''S'', v_OpenTxs = 1, v_Call = 1, v_AllowedCalls = [], v_Stack = [], v_Attrs = [], v_Time = 0\<rparr>),
        (5, RLeakedTx \<lparr>lt_Scope = ''S'', lt_OpenTxs = 1, lt_Time = 5\<rparr>),
        (9, RViolation \<lparr>v_Op = Op ''k'' ''n'', v_Scope = ''S'', v_OpenTxs = 1, v_Call = 2, v_AllowedCalls = [], v_Stack = [], v_Attrs = [], v_Time = 9\<rparr>)]
       (NewThrottlingReporter 10))) = [True, False]"
  (is "decisions_in ?w ?rs _ = _")
  using throttle_windows_independent[of 10 ?w ?rs]
  by (simp add: case_prod_unfold Let_def identityKey_def violation_key_of_def time_sub_def NUL_def)

text \<open>
  C30. Behind a fresh throttle with a positive interval that fits an int64 duration, two
  forwarded reports of one window are at least the interval apart, and a suppressed report
  always has a forwarded one of the same window less than the interval before it: the stream is
  thinned to one report per interval, and no window goes silent. For a window of unscoped
  transactions this is stated for runs with at most 1024 distinct unscoped call sites, since
  past that cap the throttle fails open and no longer spaces the sites it does not track; the
  windows of the other five kinds need no such bound.
\<close>

theorem throttle_spacing:
  assumes "0 < interval" "interval < 2 ^ 63"
    "fst w = Some ExtUnscopedTx \<Longrightarrow> int (card (unscoped_keys rs)) \<le> maxUnscopedTxKeys"
  shows "let ds = decisions_in w rs (fst (throttle_run rs (NewThrottlingReporter interval)));
             ts = times_in w rs in
      length ds = length ts
    \<and> (\<forall>j < length ts. \<forall>i < j. ds ! i \<longrightarrow> ds ! j \<longrightarrow> interval \<le> ts ! j - ts ! i)
    \<and> (\<forall>j < length ts. \<not> ds ! j \<longrightarrow> (\<exists>i < j. ds ! i \<and> ts ! j - ts ! i < interval))"
proof -
  let ?T = "NewThrottlingReporter interval"
  have "fst w = Some ExtUnscopedTx \<Longrightarrow> within_cap ?T rs"
    using assms(3) by (simp add: within_cap_New)
  from run_window[of ?T w rs, OF _ this] assms(1)
  have d: "decisions_in w rs (fst (throttle_run rs ?T)) = thinned interval None (times_in w rs)"
    by simp
  show ?thesis
    using thinned_spaced[OF assms(1), of None "times_in w rs"]
      thinned_covered[OF assms(2), of _ "times_in w rs" None]
    unfolding d Let_def by (auto simp: spaced_def)
qed

theorem throttle_spacing_witness:
  "let rs = [(0, RLeakedTx \<lparr>lt_Scope = ''S'', lt_OpenTxs = 1, lt_Time = 0\<rparr>),
             (9, RLeakedTx \<lparr>lt_Scope = ''S'', lt_OpenTxs = 1, lt_Time = 9\<rparr>)];
       w = (Some ExtLeakedTx, ''S'');
       ds = decisions_in w rs (fst (throttle_run rs (NewThrottlingReporter 10)))
   in length ds = 2 \<and> \<not> (ds ! 0 \<and> ds ! 1)"
proof -
  let ?rs = "[(0, RLeakedTx \<lparr>lt_Scope = ''S'', lt_OpenTxs = 1, lt_Time = 0\<rparr>),
              (9, RLeakedTx \<lparr>lt_Scope = ''S'', lt_OpenTxs = 1, lt_Time = 9\<rparr>)]"
  let ?w = "(Some ExtLeakedTx, ''S'') :: window"
  define ds where "ds = decisions_in ?w ?rs (fst (throttle_run ?rs (NewThrottlingReporter 10)))"
  have "times_in ?w ?rs = [0, 9]" by simp
  with throttle_spacing[of 10 ?w ?rs, folded ds_def]
  have "length ds = 2 \<and> (\<forall>j<2. \<forall>i<j. ds ! i \<longrightarrow> ds ! j \<longrightarrow> 10 \<le> [0, 9 :: int] ! j - [0, 9] ! i)"
    by (simp add: Let_def numeral_2_eq_2 del: times_in_simps decisions_in_simps throttle_run.simps)
  then have "length ds = 2 \<and> \<not> (ds ! 0 \<and> ds ! 1)" by (force dest: spec[of _ 1])
  then show ?thesis unfolding Let_def ds_def .
qed

text \<open>
  C35. The call-site map never holds more than 1024 keys, over any run and from the empty
  throttle. Past the cap the throttle fails open: an unscoped begin at a site it does not track
  is forwarded and leaves the throttle as it was.
\<close>

theorem throttle_memory_bounded:
  "let th = snd (throttle_run rs (NewThrottlingReporter interval)) in
     int (length (th_unscoped th)) \<le> maxUnscopedTxKeys
   \<and> (int (length (th_unscoped th)) < maxUnscopedTxKeys
      \<or> (\<exists>st. map_of (th_unscoped th) (unscopedTxKey u) = Some st)
      \<or> throttle_gate (RUnscopedTx u) now th = (True, th))"
proof -
  let ?th = "snd (throttle_run rs (NewThrottlingReporter interval))"
  have "int (length (th_unscoped ?th)) \<le> maxUnscopedTxKeys"
    by (rule unscoped_capped_run) (simp add: NewThrottlingReporter_def maxUnscopedTxKeys_def)
  moreover have "throttle_gate (RUnscopedTx u) now ?th = (True, ?th)"
    if "map_of (th_unscoped ?th) (unscopedTxKey u) = None" "maxUnscopedTxKeys \<le> int (length (th_unscoped ?th))"
    using that by (simp add: admit_full maxUnscopedTxKeys_pos)
  ultimately show ?thesis
    unfolding Let_def by (meson not_le option.exhaust)
qed

text \<open>
  An interval that is not positive disables the throttle: every report is forwarded and
  the state never changes, so no key is ever tracked.
\<close>

theorem throttle_disabled:
  assumes "interval \<le> 0"
  shows "throttle_run rs (NewThrottlingReporter interval)
    = (replicate (length rs) True, NewThrottlingReporter interval)"
proof (induction rs)
  case (Cons tr rs)
  have "throttle_gate r t (NewThrottlingReporter interval) = (True, NewThrottlingReporter interval)" for r t
    using assms by (cases r) simp_all
  with Cons show ?case by (cases tr) simp
qed simp

theorem throttle_disabled_witness:
  "fst (throttle_run (replicate 3 (7, RLeakedTx \<lparr>lt_Scope = ''S'', lt_OpenTxs = 1, lt_Time = 0\<rparr>))
     (NewThrottlingReporter 0)) = [True, True, True]"
  using throttle_disabled[of 0 "replicate 3 (7, RLeakedTx \<lparr>lt_Scope = ''S'', lt_OpenTxs = 1, lt_Time = 0\<rparr>)"]
  by (simp add: numeral_3_eq_3)

text \<open>
  Violations of different identities never share a window, as long as the scope and kind
  names contain no NUL byte: the joined key determines the identity.
\<close>

theorem identityKey_injective:
  assumes "NUL \<notin> set (vk_scope k)" "NUL \<notin> set (vk_kind k)"
    "NUL \<notin> set (vk_scope k')" "NUL \<notin> set (vk_kind k')"
  shows "identityKey k = identityKey k' \<longleftrightarrow> k = k'"
proof
  assume "identityKey k = identityKey k'"
  then have "vk_scope k = vk_scope k'" "vk_kind k @ NUL # vk_name k = vk_kind k' @ NUL # vk_name k'"
    using NUL_split[OF assms(1,3)] by (simp_all add: identityKey_def)
  moreover from this(2) have "vk_kind k = vk_kind k' \<and> vk_name k = vk_name k'"
    by (rule NUL_split[OF assms(2,4)])
  ultimately show "k = k'" by (simp add: violation_key.expand)
qed simp

theorem identityKey_injective_witness:
  "identityKey (ViolationKey ''a'' ''b'' ''c'') \<noteq> identityKey (ViolationKey ''ab'' [] ''c'')"
  using identityKey_injective[of "ViolationKey ''a'' ''b'' ''c''" "ViolationKey ''ab'' [] ''c''"]
  by (simp add: NUL_def)

text \<open>
  With a NUL byte in a name the key is ambiguous: the first violation of one identity
  opens a window that suppresses the first violation of another.
\<close>

theorem nul_identities_share_window:
  "let v = \<lparr>v_Op = Op ''b'' ''c'', v_Scope = ''S'' @ [NUL] @ ''a'', v_OpenTxs = 1, v_Call = 1,
             v_AllowedCalls = [], v_Stack = [], v_Attrs = [], v_Time = 0\<rparr>;
       v' = \<lparr>v_Op = Op (''a'' @ [NUL] @ ''b'') ''c'', v_Scope = ''S'', v_OpenTxs = 1, v_Call = 1,
              v_AllowedCalls = [], v_Stack = [], v_Attrs = [], v_Time = 0\<rparr>
   in violation_key_of v \<noteq> violation_key_of v'
    \<and> fst (throttle_run [(0, RViolation v), (1, RViolation v')] (NewThrottlingReporter 10)) = [True, False]"
  by (simp add: violation_key_of_def NewThrottlingReporter_def admit_def identityKey_def
      map_put_def time_sub_def NUL_def)

end
