(* ===== verification/Reporters.thy ===== *)
theory Reporters
  imports Throttle Baseline
begin

text \<open>
  The reporters (reporter.go, baseline.go, throttle.go): the in-memory collector, the slog
  reporter, the baseline filter, the throttle and reporters written by the user. A reporter is
  a value; the objects its pointers address live in an explicit store, so that two reporters
  may share a baseline or a collector. A user's reporter is code outside the library: the model
  keeps the sequence of reports it was handed, and the interfaces it implements as a list.
\<close>

subsection \<open>The collector\<close>

record collector =
  co_violations :: "violation list"
  co_unscoped :: "unscoped_tx list"
  co_unscopedChecks :: "unscoped_check list"
  co_nested :: "nested_scope list"
  co_leaked :: "leaked_tx list"
  co_staleAllows :: "stale_allow list"

definition new_collector :: collector where
  "new_collector = \<lparr>co_violations = [], co_unscoped = [], co_unscopedChecks = [], co_nested = [],
                    co_leaked = [], co_staleAllows = []\<rparr>"

fun collector_add :: "report \<Rightarrow> collector \<Rightarrow> collector" where
  "collector_add (RViolation v) c = c\<lparr>co_violations := co_violations c @ [v]\<rparr>"
| "collector_add (RUnscopedTx u) c = c\<lparr>co_unscoped := co_unscoped c @ [u]\<rparr>"
| "collector_add (RUnscopedCheck u) c = c\<lparr>co_unscopedChecks := co_unscopedChecks c @ [u]\<rparr>"
| "collector_add (RNestedScope n) c = c\<lparr>co_nested := co_nested c @ [n]\<rparr>"
| "collector_add (RLeakedTx l) c = c\<lparr>co_leaked := co_leaked c @ [l]\<rparr>"
| "collector_add (RStaleAllow s) c = c\<lparr>co_staleAllows := co_staleAllows c @ [s]\<rparr>"

text \<open>The getters copy: the lists they return are values.\<close>

definition Violations :: "collector \<Rightarrow> violation list" where
  "Violations c = co_violations c"

definition UnscopedTxs :: "collector \<Rightarrow> unscoped_tx list" where
  "UnscopedTxs c = co_unscoped c"

definition UnscopedChecks :: "collector \<Rightarrow> unscoped_check list" where
  "UnscopedChecks c = co_unscopedChecks c"

definition NestedScopes :: "collector \<Rightarrow> nested_scope list" where
  "NestedScopes c = co_nested c"

definition LeakedTxs :: "collector \<Rightarrow> leaked_tx list" where
  "LeakedTxs c = co_leaked c"

definition StaleAllows :: "collector \<Rightarrow> stale_allow list" where
  "StaleAllows c = co_staleAllows c"

definition collector_Reset :: "collector \<Rightarrow> collector" where
  "collector_Reset c = c\<lparr>co_violations := [], co_unscoped := [], co_unscopedChecks := [],
                          co_nested := [], co_leaked := [], co_staleAllows := []\<rparr>"

subsection \<open>The slog reporter\<close>

datatype slog_value = SlogString string | SlogInt int | SlogInts "int list"
  | SlogStrings "string list" | SlogAny any

datatype slog_level = LevelWarn | LevelError

record log_record =
  lr_level :: slog_level
  lr_msg :: string
  lr_args :: "(string \<times> slog_value) list"

definition SlogAttrs :: "scope_attr list \<Rightarrow> (string \<times> slog_value) list" where
  "SlogAttrs attrs = map (\<lambda>a. (sa_Key a, SlogAny (sa_Value a))) attrs"

definition stackStrings :: "stack_frame list \<Rightarrow> string list" where
  "stackStrings stack =
     map (\<lambda>f. sf_Function f @ '' ('' @ sf_File f @ '':'' @ itoa (sf_Line f) @ '')'') stack"

definition slog_stack :: "stack_frame list \<Rightarrow> (string \<times> slog_value) list" where
  "slog_stack stack = (if stack \<noteq> [] then [(''stack'', SlogStrings (stackStrings stack))] else [])"

fun slog_record :: "report \<Rightarrow> log_record" where
  "slog_record (RViolation v) =
     \<lparr>lr_level = LevelError, lr_msg = ''txnpure: side effect inside an open transaction'',
      lr_args =
        [(''kind'', SlogString (op_kind (v_Op v))),
         (''name'', SlogString (op_name (v_Op v))),
         (''scope'', SlogString (v_Scope v)),
         (''open_txs'', SlogInt (v_OpenTxs v)),
         (''call'', SlogInt (v_Call v))]
        @ (if v_AllowedCalls v \<noteq> [] then [(''allowed_calls'', SlogInts (v_AllowedCalls v))] else [])
        @ slog_stack (v_Stack v)
        @ SlogAttrs (v_Attrs v)\<rparr>"
| "slog_record (RUnscopedTx u) =
     \<lparr>lr_level = LevelWarn, lr_msg = ''txnpure: transaction begun with no scope in its context'',
      lr_args = slog_stack (ut_Stack u)\<rparr>"
| "slog_record (RUnscopedCheck u) =
     \<lparr>lr_level = LevelWarn, lr_msg = ''txnpure: checkpoint ran with no scope in its context'',
      lr_args =
        [(''kind'', SlogString (op_kind (uc_Op u))), (''name'', SlogString (op_name (uc_Op u)))]
        @ slog_stack (uc_Stack u)\<rparr>"
| "slog_record (RNestedScope n) =
     \<lparr>lr_level = LevelWarn,
      lr_msg = ''txnpure: scope started inside another scope; transactions and checks attribute to the inner one only'',
      lr_args = [(''outer'', SlogString (ns_Outer n)), (''inner'', SlogString (ns_Inner n))]\<rparr>"
| "slog_record (RLeakedTx l) =
     \<lparr>lr_level = LevelWarn, lr_msg = ''txnpure: scope finished with transactions still open'',
      lr_args = [(''scope'', SlogString (lt_Scope l)), (''open_txs'', SlogInt (lt_OpenTxs l))]\<rparr>"
| "slog_record (RStaleAllow s) =
     (if st_AllowedCalls s \<noteq> [] then
        \<lparr>lr_level = LevelWarn,
         lr_msg = ''txnpure: allow declared an exact in-transaction call count the scope did not produce'',
         lr_args =
           [(''scope'', SlogString (st_Scope s)),
            (''kind'', SlogString (op_kind (st_Op s))),
            (''name'', SlogString (op_name (st_Op s))),
            (''reason'', SlogString (st_Reason s)),
            (''calls'', SlogInt (st_Calls s)),
            (''allowed_calls'', SlogInts (st_AllowedCalls s))]\<rparr>
      else
        \<lparr>lr_level = LevelWarn,
         lr_msg = ''txnpure: check is covered by an in-code allow but ran outside any transaction'',
         lr_args =
           [(''scope'', SlogString (st_Scope s)),
            (''kind'', SlogString (op_kind (st_Op s))),
            (''name'', SlogString (op_name (st_Op s))),
            (''reason'', SlogString (st_Reason s))]\<rparr>)"

subsection \<open>Reporters and the objects they point to\<close>

record rstore =
  rs_clock :: "nat \<Rightarrow> time"
  rs_reads :: nat
  rs_collectors :: "nat \<Rightarrow> collector"
  rs_baselines :: "nat \<Rightarrow> baseline"
  rs_throttles :: "nat \<Rightarrow> throttle"
  rs_logs :: "nat \<Rightarrow> log_record list"
  rs_users :: "nat \<Rightarrow> report list"

text \<open>\<^verbatim>\<open>time.Now()\<close>: the next reading of the clock, which is any sequence of instants.\<close>

definition time_now :: "rstore \<Rightarrow> time \<times> rstore" where
  "time_now st = (rs_clock st (rs_reads st), st\<lparr>rs_reads := Suc (rs_reads st)\<rparr>)"

text \<open>
  A \<^verbatim>\<open>Reporter\<close> value. \<^verbatim>\<open>ReporterFunc\<close> is a user reporter with no extension.
\<close>

datatype reporter =
    CollectingReporter nat
  | SlogReporter nat
  | BaselineReporter "nat option" reporter
  | ThrottlingReporter nat reporter
  | UserReporter nat "extension list"

definition ReporterFunc :: "nat \<Rightarrow> reporter" where
  "ReporterFunc f = UserReporter f []"

text \<open>The type assertion to the interface a report needs; every library reporter has them all.\<close>

definition supports :: "extension list \<Rightarrow> report \<Rightarrow> bool" where
  "supports exts r = (case needs r of None \<Rightarrow> True | Some e \<Rightarrow> e \<in> set exts)"

fun implements :: "reporter \<Rightarrow> report \<Rightarrow> bool" where
  "implements (UserReporter u exts) r = supports exts r"
| "implements rep r = True"

definition collector_receive :: "nat \<Rightarrow> report \<Rightarrow> rstore \<Rightarrow> rstore" where
  "collector_receive c r st =
     st\<lparr>rs_collectors := (rs_collectors st)(c := collector_add r (rs_collectors st c))\<rparr>"

definition slog_receive :: "nat \<Rightarrow> report \<Rightarrow> rstore \<Rightarrow> rstore" where
  "slog_receive l r st = st\<lparr>rs_logs := (rs_logs st)(l := rs_logs st l @ [slog_record r])\<rparr>"

definition user_receive :: "nat \<Rightarrow> report \<Rightarrow> rstore \<Rightarrow> rstore" where
  "user_receive u r st = st\<lparr>rs_users := (rs_users st)(u := rs_users st u @ [r])\<rparr>"

text \<open>
  What the wrappers decide before forwarding. The baseline is asked about violations only, and
  a nil baseline suppresses nothing.
\<close>

definition baseline_pass :: "nat option \<Rightarrow> report \<Rightarrow> rstore \<Rightarrow> bool \<times> rstore" where
  "baseline_pass b r st =
     (case r of
        RViolation v \<Rightarrow>
          (case b of
             None \<Rightarrow> (True, st)
           | Some b \<Rightarrow>
               (case baseline_covers (violation_key_of v) (rs_baselines st b) of
                  (hit, bl) \<Rightarrow> (\<not> hit, st\<lparr>rs_baselines := (rs_baselines st)(b := bl)\<rparr>)))
      | _ \<Rightarrow> (True, st))"

definition throttle_pass :: "nat \<Rightarrow> report \<Rightarrow> rstore \<Rightarrow> bool \<times> rstore" where
  "throttle_pass t r st =
     (let th = rs_throttles st t;
          now = fst (time_now st);
          st' = (if reads_clock r th then snd (time_now st) else st)
      in case throttle_gate r now th of
           (ok, th) \<Rightarrow> (ok, st'\<lparr>rs_throttles := (rs_throttles st)(t := th)\<rparr>))"

text \<open>
  The method of a reporter for a report. The wrappers' optional methods do nothing when the
  wrapped reporter lacks the interface; then not even the throttle's window moves.
\<close>

primrec deliver :: "reporter \<Rightarrow> report \<Rightarrow> rstore \<Rightarrow> rstore" where
  "deliver (CollectingReporter c) r st = collector_receive c r st"
| "deliver (SlogReporter l) r st = slog_receive l r st"
| "deliver (BaselineReporter b nxt) r st =
     (case baseline_pass b r st of
        (ok, st') \<Rightarrow> if ok \<and> implements nxt r then deliver nxt r st' else st')"
| "deliver (ThrottlingReporter t nxt) r st =
     (if \<not> implements nxt r then st
      else case throttle_pass t r st of (ok, st') \<Rightarrow> if ok then deliver nxt r st' else st')"
| "deliver (UserReporter u exts) r st = user_receive u r st"

text \<open>The detector's loop over its reporters, with the type assertion of each emission.\<close>

fun deliver_all :: "reporter list \<Rightarrow> report \<Rightarrow> rstore \<Rightarrow> rstore" where
  "deliver_all [] r st = st"
| "deliver_all (rep # reps) r st =
     deliver_all reps r (if implements rep r then deliver rep r st else st)"

lemma implements_violation [simp]: "implements rep (RViolation v)"
  by (cases rep) (simp_all add: supports_def)

subsection \<open>The store's frame\<close>

lemma collector_receive_frame [simp, txn_frame]:
  "rs_users (collector_receive c r st) = rs_users st"
  "rs_clock (collector_receive c r st) = rs_clock st"
  "rs_throttles (collector_receive c r st) = rs_throttles st"
  "rs_baselines (collector_receive c r st) = rs_baselines st"
  by (simp_all add: collector_receive_def)

lemma slog_receive_frame [simp, txn_frame]:
  "rs_users (slog_receive c r st) = rs_users st"
  "rs_clock (slog_receive c r st) = rs_clock st"
  "rs_collectors (slog_receive c r st) = rs_collectors st"
  "rs_throttles (slog_receive c r st) = rs_throttles st"
  "rs_baselines (slog_receive c r st) = rs_baselines st"
  by (simp_all add: slog_receive_def)

lemma user_receive_frame [simp, txn_frame]:
  "rs_logs (user_receive c r st) = rs_logs st"
  "rs_clock (user_receive c r st) = rs_clock st"
  "rs_collectors (user_receive c r st) = rs_collectors st"
  "rs_throttles (user_receive c r st) = rs_throttles st"
  "rs_baselines (user_receive c r st) = rs_baselines st"
  "rs_users (user_receive c r st) u = (if u = c then rs_users st u @ [r] else rs_users st u)"
  by (simp_all add: user_receive_def)

lemma baseline_pass_frame [simp, txn_frame]:
  "rs_logs (snd (baseline_pass b r st)) = rs_logs st"
  "rs_clock (snd (baseline_pass b r st)) = rs_clock st"
  "rs_collectors (snd (baseline_pass b r st)) = rs_collectors st"
  "rs_throttles (snd (baseline_pass b r st)) = rs_throttles st"
  "rs_users (snd (baseline_pass b r st)) = rs_users st"
  by (simp_all add: baseline_pass_def split: report.split option.split prod.split)

lemma throttle_pass_frame [simp, txn_frame]:
  "rs_logs (snd (throttle_pass b r st)) = rs_logs st"
  "rs_clock (snd (throttle_pass b r st)) = rs_clock st"
  "rs_collectors (snd (throttle_pass b r st)) = rs_collectors st"
  "rs_baselines (snd (throttle_pass b r st)) = rs_baselines st"
  "rs_users (snd (throttle_pass b r st)) = rs_users st"
  by (simp_all add: throttle_pass_def time_now_def Let_def split: prod.split)

subsection \<open>What a wrapped reporter hears\<close>

text \<open>
  The interface between a wrapper and what it wraps. A wrapper decides from its own part of
  the store, its \<open>view\<close>; deciding does not reach the wrapped reporter, and emitting does not
  change the view. Then the wrapped reporter hears exactly the reports the decisions let
  through, in order.
\<close>

locale report_gate =
  fixes pass :: "report \<Rightarrow> 's \<Rightarrow> bool \<times> 's"
    and emit :: "report \<Rightarrow> 's \<Rightarrow> 's"
    and heard :: "'s \<Rightarrow> report list"
    and view :: "'s \<Rightarrow> 'v"
    and decide :: "report \<Rightarrow> 'v \<Rightarrow> bool"
    and advance :: "report \<Rightarrow> 'v \<Rightarrow> 'v"
  assumes pass_decide: "fst (pass r s) = decide r (view s)"
    and pass_view: "view (snd (pass r s)) = advance r (view s)"
    and pass_heard: "heard (snd (pass r s)) = heard s"
    and emit_view: "view (emit r s) = view s"
    and emit_heard: "heard (emit r s) = heard s @ [r]"
begin

fun feed :: "report list \<Rightarrow> 's \<Rightarrow> 's" where
  "feed [] s = s"
| "feed (r # rs) s = (case pass r s of (ok, s') \<Rightarrow> feed rs (if ok then emit r s' else s'))"

fun decisions :: "report list \<Rightarrow> 'v \<Rightarrow> bool list" where
  "decisions [] v = []"
| "decisions (r # rs) v = decide r v # decisions rs (advance r v)"

definition kept :: "report list \<Rightarrow> bool list \<Rightarrow> report list" where
  "kept rs oks = map fst (filter snd (zip rs oks))"

lemma feed_heard: "heard (feed rs s) = heard s @ kept rs (decisions rs (view s))"
proof (induction rs arbitrary: s)
  case Nil
  then show ?case by (simp add: kept_def)
next
  case (Cons r rs)
  then show ?case
    using pass_decide[of r s] pass_view[of r s] pass_heard[of r s]
    by (auto simp: kept_def emit_view emit_heard split: prod.split)
qed

lemma feed_view: "view (feed rs s) = fold advance rs (view s)"
proof (induction rs arbitrary: s)
  case (Cons r rs)
  then show ?case
    using pass_view[of r s] by (auto simp: emit_view split: prod.split)
qed simp

end

text \<open>The decisions of the baseline and of the throttle on their own parts of the store.\<close>

fun baseline_decide :: "report \<Rightarrow> baseline \<Rightarrow> bool" where
  "baseline_decide (RViolation v) b = (map_of b (violation_key_of v) = None)"
| "baseline_decide r b = True"

fun baseline_advance :: "report \<Rightarrow> baseline \<Rightarrow> baseline" where
  "baseline_advance (RViolation v) b = snd (baseline_covers (violation_key_of v) b)"
| "baseline_advance r b = b"

interpretation bg: report_gate "baseline_pass (Some b)" "user_receive u" "\<lambda>st. rs_users st u"
  "\<lambda>st. rs_baselines st b" baseline_decide baseline_advance
  for b u :: nat
proof
  fix r st
  show "fst (baseline_pass (Some b) r st) = baseline_decide r (rs_baselines st b)"
    by (cases r) (auto simp: baseline_pass_def baseline_covers_def split: option.split)
  show "rs_baselines (snd (baseline_pass (Some b) r st)) b = baseline_advance r (rs_baselines st b)"
    by (cases r) (auto simp: baseline_pass_def split: prod.split)
qed simp_all

type_synonym throttle_view = "throttle \<times> (nat \<Rightarrow> time) \<times> nat"

definition throttle_view :: "nat \<Rightarrow> rstore \<Rightarrow> throttle_view" where
  "throttle_view t st = (rs_throttles st t, rs_clock st, rs_reads st)"

fun throttle_decide :: "report \<Rightarrow> throttle_view \<Rightarrow> bool" where
  "throttle_decide r (th, clock, n) = fst (throttle_gate r (clock n) th)"

fun throttle_advance :: "report \<Rightarrow> throttle_view \<Rightarrow> throttle_view" where
  "throttle_advance r (th, clock, n) = (snd (throttle_gate r (clock n) th), clock, if reads_clock r th then Suc n else n)"

interpretation tg: report_gate "throttle_pass t" "user_receive u" "\<lambda>st. rs_users st u"
  "throttle_view t" throttle_decide throttle_advance
  for t u :: nat
proof
  fix r st
  show "fst (throttle_pass t r st) = throttle_decide r (throttle_view t st)"
    by (simp add: throttle_pass_def time_now_def throttle_view_def Let_def split: prod.split)
  show "throttle_view t (snd (throttle_pass t r st)) = throttle_advance r (throttle_view t st)"
    by (simp add: throttle_pass_def time_now_def throttle_view_def Let_def split: prod.split)
  show "throttle_view t (user_receive u r st) = throttle_view t st"
    by (simp add: throttle_view_def user_receive_def)
qed simp_all

definition deliver_seq :: "reporter \<Rightarrow> report list \<Rightarrow> rstore \<Rightarrow> rstore" where
  "deliver_seq rep rs st = foldl (\<lambda>st r. deliver_all [rep] r st) st rs"

lemma deliver_seq_simps [simp]:
  "deliver_seq rep [] st = st"
  "deliver_seq rep (r # rs) st =
     deliver_seq rep rs (if implements rep r then deliver rep r st else st)"
  by (simp_all add: deliver_seq_def)

text \<open>Wrapping a user reporter is feeding it the reports it supports through the gate.\<close>

lemma baseline_seq_feed:
  "deliver_seq (BaselineReporter (Some b) (UserReporter u exts)) rs st
     = bg.feed b u (filter (supports exts) rs) st"
proof (induction rs arbitrary: st)
  case Nil
  then show ?case by simp
next
  case (Cons r rs)
  have "\<not> supports exts r \<Longrightarrow> baseline_pass (Some b) r st = (True, st)"
    by (cases r) (simp_all add: baseline_pass_def supports_def)
  with Cons show ?case by (simp add: case_prod_unfold)
qed

lemma throttle_seq_feed:
  "deliver_seq (ThrottlingReporter t (UserReporter u exts)) rs st
     = tg.feed t u (filter (supports exts) rs) st"
  by (induction rs arbitrary: st) (simp_all add: case_prod_unfold)

lemma baseline_kept:
  "bg.kept rs (bg.decisions rs b) =
     filter (\<lambda>r. \<forall>v. r = RViolation v \<longrightarrow> map_of b (violation_key_of v) = None) rs"
proof (induction rs arbitrary: b)
  case Nil
  then show ?case by (simp add: bg.kept_def)
next
  case (Cons r rs)
  have eq: "(map_of (baseline_advance r b) k = None) = (map_of b k = None)" for k
    by (cases r) (auto simp: baseline_covers_def split: option.split)
  have "bg.kept (r # rs) (bg.decisions (r # rs) b) =
      (if baseline_decide r b then r # bg.kept rs (bg.decisions rs (baseline_advance r b))
       else bg.kept rs (bg.decisions rs (baseline_advance r b)))"
    by (simp add: bg.kept_def)
  also have "\<dots> = filter (\<lambda>r. \<forall>v. r = RViolation v \<longrightarrow> map_of b (violation_key_of v) = None) (r # rs)"
    unfolding Cons eq by (cases r) simp_all
  finally show ?case .
qed

text \<open>The instants at which a sequence of reports is judged; a reading that is not taken is not spent.\<close>

fun throttle_timed :: "(nat \<Rightarrow> time) \<Rightarrow> nat \<Rightarrow> report list \<Rightarrow> throttle \<Rightarrow> (time \<times> report) list \<times> nat" where
  "throttle_timed clock n [] th = ([], n)"
| "throttle_timed clock n (r # rs) th =
     (case throttle_timed clock (if reads_clock r th then Suc n else n) rs (snd (throttle_gate r (clock n) th)) of
        (timed, m) \<Rightarrow> ((clock n, r) # timed, m))"

lemma throttle_timed_reports: "map snd (fst (throttle_timed clock n rs th)) = rs"
  by (induction rs arbitrary: n th) (simp_all add: case_prod_unfold)

lemma throttle_kept:
  "tg.decisions rs (th, clock, n) = fst (throttle_run (fst (throttle_timed clock n rs th)) th)"
  by (induction rs arbitrary: th n) (simp_all add: case_prod_unfold)

lemma throttle_view_advance:
  "fold throttle_advance rs (th, clock, n)
     = (snd (throttle_run (fst (throttle_timed clock n rs th)) th), clock, snd (throttle_timed clock n rs th))"
  by (induction rs arbitrary: th n) (simp_all add: case_prod_unfold)

lemma throttle_timed_reads:
  "n \<le> snd (throttle_timed clock n rs th) \<and> snd (throttle_timed clock n rs th) \<le> n + length rs
    \<and> (th_interval th \<le> 0 \<longrightarrow> snd (throttle_timed clock n rs th) = n)
    \<and> set (map fst (fst (throttle_timed clock n rs th))) \<subseteq> clock ` {n..n + length rs}"
proof (induction rs arbitrary: n th)
  case (Cons r rs)
  let ?n = "if reads_clock r th then Suc n else n"
  from Cons[of ?n "snd (throttle_gate r (clock n) th)"] show ?case
    by (fastforce simp: case_prod_unfold reads_clock_def split: if_splits)
qed simp

subsection \<open>Properties\<close>

definition tolerated :: "baseline \<Rightarrow> report \<Rightarrow> bool" where
  "tolerated b r = (case r of RViolation v \<Rightarrow> map_of b (violation_key_of v) \<noteq> None | _ \<Rightarrow> False)"

text \<open>
  C31. A baseline in front of a user's reporter removes the violations of baselined identities
  and nothing else: over any sequence of reports, the reporter hears, in order, every
  violation that is not baselined and every optional signal whose interface it implements.
\<close>

theorem baseline_reporter_filters:
  "rs_users (deliver_seq (BaselineReporter (Some b) (UserReporter u exts)) rs st) u =
     rs_users st u @ filter (\<lambda>r. supports exts r \<and> \<not> tolerated (rs_baselines st b) r) rs"
proof -
  have "(\<forall>v. r = RViolation v \<longrightarrow> map_of bl (violation_key_of v) = None) \<longleftrightarrow> \<not> tolerated bl r" for r bl
    by (cases r) (simp_all add: tolerated_def)
  then show ?thesis
    using bg.feed_heard[of b u "filter (supports exts) rs" st]
    by (simp add: baseline_seq_feed baseline_kept conj_commute)
qed

text \<open>
  C27. A throttle in front of a user's reporter forwards exactly the reports its windows admit,
  at the times its clock gives them. A signal the wrapped reporter does not implement is
  dropped before the throttle sees it: it neither moves a window, counts as suppressed, nor
  reads the clock; and a throttle without an interval never reads it.
\<close>

theorem throttling_reporter_thins:
  "let heard = filter (supports exts) rs;
       (timed, n) = throttle_timed (rs_clock st) (rs_reads st) heard (rs_throttles st t);
       (oks, th) = throttle_run timed (rs_throttles st t);
       st' = deliver_seq (ThrottlingReporter t (UserReporter u exts)) rs st
   in map snd timed = heard \<and> rs_users st' u = rs_users st u @ map fst (filter snd (zip heard oks))
    \<and> rs_throttles st' t = th \<and> rs_reads st' = n
    \<and> n \<in> {rs_reads st .. rs_reads st + (if th_interval (rs_throttles st t) \<le> 0 then 0 else length heard)}"
proof -
  let ?rs = "filter (supports exts) rs"
  let ?timed = "throttle_timed (rs_clock st) (rs_reads st) ?rs (rs_throttles st t)"
  let ?st = "tg.feed t u ?rs st"
  have u: "rs_users ?st u = rs_users st u
      @ map fst (filter snd (zip ?rs (fst (throttle_run (fst ?timed) (rs_throttles st t)))))"
    unfolding tg.feed_heard by (simp add: tg.kept_def throttle_view_def throttle_kept)
  have "throttle_view t ?st = (snd (throttle_run (fst ?timed) (rs_throttles st t)), rs_clock st, snd ?timed)"
    unfolding tg.feed_view by (simp add: throttle_view_def throttle_view_advance)
  with u throttle_timed_reads[of "rs_reads st" "rs_clock st" ?rs "rs_throttles st t"] show ?thesis
    by (simp add: throttle_seq_feed Let_def case_prod_unfold throttle_view_def throttle_timed_reports)
qed

primrec leaf_of :: "reporter \<Rightarrow> reporter" where
  "leaf_of (CollectingReporter c) = CollectingReporter c"
| "leaf_of (SlogReporter l) = SlogReporter l"
| "leaf_of (BaselineReporter b nxt) = leaf_of nxt"
| "leaf_of (ThrottlingReporter t nxt) = leaf_of nxt"
| "leaf_of (UserReporter u exts) = UserReporter u exts"

definition told :: "reporter \<Rightarrow> report list \<Rightarrow> (nat \<Rightarrow> report list) \<Rightarrow> nat \<Rightarrow> report list" where
  "told rep rs users = (case leaf_of rep of UserReporter u exts \<Rightarrow> users(u := users u @ rs) | _ \<Rightarrow> users)"

lemma told_Nil [simp]: "told rep [] users = users"
  by (simp add: told_def split: reporter.split)

lemma told_told [simp]: "told rep qs (told rep rs users) = told rep (rs @ qs) users"
  by (simp add: told_def split: reporter.split)

lemma deliver_tells:
  assumes "implements rep r"
  shows "\<exists>heard. subseq heard (filter (implements (leaf_of rep)) [r])
    \<and> rs_users (deliver rep r st) = told rep heard (rs_users st)"
  using assms
proof (induction rep arbitrary: st)
  case (CollectingReporter c)
  then show ?case by (intro exI[of _ "[]"]) simp
next
  case (SlogReporter l)
  then show ?case by (intro exI[of _ "[]"]) simp
next
  case (UserReporter u exts)
  then show ?case by (intro exI[of _ "[r]"]) (auto simp: told_def fun_eq_iff)
next
  case (BaselineReporter b nxt)
  obtain ok st' where p: "baseline_pass b r st = (ok, st')" by fastforce
  then have u: "rs_users st' = rs_users st" using baseline_pass_frame(5)[of b r st] by simp
  show ?case
  proof (cases "ok \<and> implements nxt r")
    case True
    with BaselineReporter.IH[of st'] u show ?thesis by (simp add: p told_def)
  next
    case False
    with u show ?thesis by (intro exI[of _ "[]"]) (auto simp: p)
  qed
next
  case (ThrottlingReporter t nxt)
  obtain ok st' where p: "throttle_pass t r st = (ok, st')" by fastforce
  then have u: "rs_users st' = rs_users st" using throttle_pass_frame(5)[of t r st] by simp
  show ?case
  proof (cases "ok \<and> implements nxt r")
    case True
    with ThrottlingReporter.IH[of st'] u show ?thesis by (simp add: p told_def)
  next
    case False
    with u show ?thesis by (intro exI[of _ "[]"]) (auto simp: p)
  qed
qed

text \<open>
  C32. No composition of wrappers fabricates a signal: over any sequence of reports, a chain of
  baselines and throttles of any depth tells its innermost user reporter a subsequence of the
  reports it implements, unaltered and in order, and tells nothing to any other user reporter.
\<close>

theorem wrappers_never_fabricate:
  "\<exists>heard. subseq heard (filter (implements (leaf_of rep)) rs)
     \<and> rs_users (deliver_seq rep rs st) = told rep heard (rs_users st)"
proof (induction rs arbitrary: st)
  case Nil
  then show ?case by (intro exI[of _ "[]"]) simp
next
  case (Cons r rs)
  define st' where "st' = (if implements rep r then deliver rep r st else st)"
  obtain h where h: "subseq h (filter (implements (leaf_of rep)) [r])"
    "rs_users st' = told rep h (rs_users st)"
  proof (cases "implements rep r")
    case True
    with deliver_tells[OF True, of st] that show ?thesis unfolding st'_def by auto
  next
    case False
    with that[of "[]"] show ?thesis unfolding st'_def by simp
  qed
  obtain h' where "subseq h' (filter (implements (leaf_of rep)) rs)"
    "rs_users (deliver_seq rep rs st') = told rep h' (rs_users st')"
    using Cons[of st'] by blast
  moreover have "filter (implements (leaf_of rep)) (r # rs)
    = filter (implements (leaf_of rep)) [r] @ filter (implements (leaf_of rep)) rs" by simp
  ultimately show ?case
    using h unfolding deliver_seq_simps st'_def[symmetric]
    by (intro exI[of _ "h @ h'"]) (simp only: told_told list_emb_append_mono simp_thms)
qed

end
