(* ===== verification/Render.thy ===== *)
theory Render
  imports Reporters Utf8
begin

text \<open>
  The text of the reports (reporter.go): \<^verbatim>\<open>Violation.String\<close>, the six \<^verbatim>\<open>RequireNo\<close> helpers of
  the collecting reporter, which write one error to a test per collected report, and the
  default logger of \<^verbatim>\<open>NewSlogReporter\<close>. A \<^verbatim>\<open>TestingT\<close> is the list of error messages it
  received. The verb \<^verbatim>\<open>%q\<close> is \<^verbatim>\<open>strconv.Quote\<close>; which runes above U+00FF are printable is
  a table of the Unicode data, an argument here.
\<close>

subsection \<open>Quoting\<close>

text \<open>\<open>n\<close> hexadecimal digits, the last \<open>n\<close> of the value.\<close>

fun hex_digits :: "nat \<Rightarrow> nat \<Rightarrow> string" where
  "hex_digits 0 r = []"
| "hex_digits (Suc n) r = hex_digits n (r div 16) @ [hex_digit (r mod 16)]"

text \<open>\<^verbatim>\<open>strconv.IsPrint\<close>: the first 256 runes, then the table.\<close>

definition IsPrint :: "(nat \<Rightarrow> bool) \<Rightarrow> nat \<Rightarrow> bool" where
  "IsPrint table r =
     (if r \<le> 0xFF then 0x20 \<le> r \<and> r < 0x7F \<or> 0xA1 \<le> r \<and> r \<noteq> 0xAD else table r)"

text \<open>One rune, read from the bytes \<open>bs\<close>, as \<^verbatim>\<open>appendQuotedWith\<close> writes it.\<close>

definition quote_rune :: "(nat \<Rightarrow> bool) \<Rightarrow> nat \<times> string \<Rightarrow> string" where
  "quote_rune table rb =
     (case rb of (r, bs) \<Rightarrow>
        if bad_rune rb then CHR 0x5C # ''x'' @ hex_digits 2 (of_char (hd bs))
        else if r = 0x22 \<or> r = 0x5C then CHR 0x5C # encode_rune r
        else if IsPrint table r then encode_rune r
        else if r = 0x07 then CHR 0x5C # ''a''
        else if r = 0x08 then CHR 0x5C # ''b''
        else if r = 0x0C then CHR 0x5C # ''f''
        else if r = 0x0A then CHR 0x5C # ''n''
        else if r = 0x0D then CHR 0x5C # ''r''
        else if r = 0x09 then CHR 0x5C # ''t''
        else if r = 0x0B then CHR 0x5C # ''v''
        else if r < 0x20 \<or> r = 0x7F then CHR 0x5C # ''x'' @ hex_digits 2 r
        else if r < 0x10000 then CHR 0x5C # ''u'' @ hex_digits 4 r
        else CHR 0x5C # ''U'' @ hex_digits 8 r)"

definition go_quote :: "(nat \<Rightarrow> bool) \<Rightarrow> string \<Rightarrow> string" where
  "go_quote table s = CHR 0x22 # concat (map (quote_rune table) (runes s)) @ [CHR 0x22]"

subsection \<open>Violations as text\<close>

fun joinCounts_loop :: "nat \<Rightarrow> int list \<Rightarrow> string" where
  "joinCounts_loop i [] = []"
| "joinCounts_loop i (c # cs) = (if 0 < i then '', '' else []) @ itoa c @ joinCounts_loop (Suc i) cs"

definition joinCounts :: "int list \<Rightarrow> string" where
  "joinCounts counts = joinCounts_loop 0 counts"

definition frame_text :: "stack_frame \<Rightarrow> string" where
  "frame_text f = sf_Function f @ '' ('' @ sf_File f @ '':'' @ itoa (sf_Line f) @ '')''"

definition Violation_String :: "(nat \<Rightarrow> bool) \<Rightarrow> violation \<Rightarrow> string" where
  "Violation_String table v =
     ''txnpure: side effect ['' @ op_kind (v_Op v) @ ''] '' @ op_name (v_Op v) @ '' ran while ''
       @ itoa (v_OpenTxs v) @ '' transaction(s) were open in scope '' @ go_quote table (v_Scope v)
     @ (if v_AllowedCalls v \<noteq> [] then
          CHR 0x0A # ''  (allowed for exactly '' @ joinCounts (v_AllowedCalls v)
            @ '' in-transaction call(s), so this call is not covered)''
        else [])
     @ concat (map (\<lambda>f. CHR 0x0A # ''  at '' @ frame_text f) (v_Stack v))"

subsection \<open>The helpers for tests\<close>

type_synonym testing = "string list"

definition Errorf :: "string \<Rightarrow> testing \<Rightarrow> testing" where
  "Errorf msg t = t @ [msg]"

text \<open>Each helper ranges over a copy of what was collected and reports one error per item.\<close>

definition each_error :: "('a \<Rightarrow> string) \<Rightarrow> 'a list \<Rightarrow> testing \<Rightarrow> testing" where
  "each_error msg xs t = foldl (\<lambda>t x. Errorf (msg x) t) t xs"

definition RequireNoViolations :: "(nat \<Rightarrow> bool) \<Rightarrow> collector \<Rightarrow> testing \<Rightarrow> testing" where
  "RequireNoViolations table r t = each_error (Violation_String table) (Violations r) t"

definition location :: "stack_frame list \<Rightarrow> string" where
  "location stack = (if stack \<noteq> [] then '' at '' @ frame_text (stack ! 0) else [])"

definition RequireNoUnscopedTxs :: "collector \<Rightarrow> testing \<Rightarrow> testing" where
  "RequireNoUnscopedTxs r t =
     each_error (\<lambda>u. ''txnpure: transaction begun with no scope in its context'' @ location (ut_Stack u))
       (UnscopedTxs r) t"

definition RequireNoUnscopedChecks :: "collector \<Rightarrow> testing \<Rightarrow> testing" where
  "RequireNoUnscopedChecks r t =
     each_error (\<lambda>u. ''txnpure: checkpoint ['' @ op_kind (uc_Op u) @ ''] '' @ op_name (uc_Op u)
         @ '' ran with no scope in its context'' @ location (uc_Stack u))
       (UnscopedChecks r) t"

definition RequireNoNestedScopes :: "(nat \<Rightarrow> bool) \<Rightarrow> collector \<Rightarrow> testing \<Rightarrow> testing" where
  "RequireNoNestedScopes table r t =
     each_error (\<lambda>n. ''txnpure: scope '' @ go_quote table (ns_Inner n) @ '' started inside scope ''
         @ go_quote table (ns_Outer n) @ ''; transactions and checks attribute to the inner one only'')
       (NestedScopes r) t"

definition RequireNoLeakedTxs :: "(nat \<Rightarrow> bool) \<Rightarrow> collector \<Rightarrow> testing \<Rightarrow> testing" where
  "RequireNoLeakedTxs table r t =
     each_error (\<lambda>l. ''txnpure: scope '' @ go_quote table (lt_Scope l) @ '' finished with ''
         @ itoa (lt_OpenTxs l) @ '' transaction(s) still open'')
       (LeakedTxs r) t"

definition RequireNoStaleAllows :: "(nat \<Rightarrow> bool) \<Rightarrow> collector \<Rightarrow> testing \<Rightarrow> testing" where
  "RequireNoStaleAllows table r t =
     each_error (\<lambda>s.
         if st_AllowedCalls s \<noteq> [] then
           ''txnpure: allow ('' @ st_Reason s @ '') in scope '' @ go_quote table (st_Scope s)
             @ '' declared exactly '' @ joinCounts (st_AllowedCalls s) @ '' in-transaction call(s) but ''
             @ itoa (st_Calls s) @ '' ran; fix the declared count or remove the allow''
         else
           ''txnpure: check ['' @ op_kind (st_Op s) @ ''] '' @ op_name (st_Op s) @ '' in scope ''
             @ go_quote table (st_Scope s) @ '' is covered by an in-code allow ('' @ st_Reason s
             @ '') but ran outside any transaction; remove the stale allow'')
       (StaleAllows r) t"

definition NewSlogReporter :: "'l \<Rightarrow> 'l option \<Rightarrow> 'l" where
  "NewSlogReporter default_logger l = (case l of None \<Rightarrow> default_logger | Some l \<Rightarrow> l)"

subsection \<open>The shape of the text\<close>

definition line_breaks :: "string \<Rightarrow> nat" where
  "line_breaks s = length (filter (\<lambda>c. c = CHR 0x0A) s)"

lemma line_breaks_simps [simp]:
  "line_breaks [] = 0" "line_breaks (CHR 0x0A # s) = Suc (line_breaks s)"
  "c \<noteq> CHR 0x0A \<Longrightarrow> line_breaks (c # s) = line_breaks s"
  "line_breaks (s @ t) = line_breaks s + line_breaks t"
  by (simp_all add: line_breaks_def)

lemma line_breaks_concat: "line_breaks (concat ss) = sum_list (map line_breaks ss)"
  by (induction ss) simp_all

lemma line_breaks_none: "CHR 0x0A \<notin> set s \<Longrightarrow> line_breaks s = 0"
  by (auto simp: line_breaks_def filter_empty_conv)

lemma of_char_newline: "char_of (n :: nat) = CHR 0x0A \<longleftrightarrow> n mod 256 = 10"
proof -
  have "char_of n = CHR 0x0A \<longleftrightarrow> of_char (char_of n :: char) = (of_char CHR 0x0A :: nat)" by (rule of_char_eq_iff[symmetric])
  then show ?thesis by simp
qed

lemma hex_digit_line: "d < 16 \<Longrightarrow> hex_digit d \<noteq> CHR 0x0A"
  by (simp add: hex_digit_def of_char_newline)

lemma line_breaks_hex [simp]: "line_breaks (hex_digits n r) = 0"
  by (induction n arbitrary: r) (simp_all add: hex_digit_line)

lemma line_breaks_nat_digits: "line_breaks (nat_digits n) = 0"
proof (induction n rule: nat_digits.induct)
  case (1 n)
  then show ?case by (subst nat_digits.simps) (auto simp: of_char_newline)
qed

lemma line_breaks_itoa [simp]: "line_breaks (itoa i) = 0"
  by (simp add: itoa_def line_breaks_nat_digits)

lemma line_breaks_encode: "r \<noteq> 0x0A \<Longrightarrow> line_breaks (encode_rune r) = 0"
proof (cases "r < 0x80")
  case False
  then have "CHR 0x0A \<notin> set (encode_rune r)" using encode_rune_high[of r "CHR 0x0A"] by auto
  then show ?thesis by (rule line_breaks_none)
qed (simp add: encode_rune_ascii of_char_newline)

text \<open>A quoted string is one line, whatever the string holds.\<close>

lemma line_breaks_quote [simp]: "line_breaks (go_quote table s) = 0"
proof -
  have "line_breaks (quote_rune table rb) = 0" for rb
    by (cases rb) (simp add: quote_rune_def line_breaks_encode IsPrint_def)
  then show ?thesis by (simp add: go_quote_def line_breaks_concat)
qed

lemma line_breaks_joinCounts [simp]: "line_breaks (joinCounts cs) = 0"
proof -
  have "line_breaks (joinCounts_loop i cs) = 0" for i by (induction cs arbitrary: i) simp_all
  then show ?thesis by (simp add: joinCounts_def)
qed

text \<open>
  The text of a violation has one line for the violation, one more when an exact-call
  allow declined to cover the call, and one per stack frame. The scope name is quoted, so it
  never adds a line; line breaks of the operation's kind and name and of the frames are
  printed as they are, and are the only others.
\<close>

theorem Violation_String_lines:
  "line_breaks (Violation_String table v) =
     (if v_AllowedCalls v = [] then 0 else 1) + length (v_Stack v)
     + line_breaks (op_kind (v_Op v)) + line_breaks (op_name (v_Op v))
     + (\<Sum>f\<leftarrow>v_Stack v. line_breaks (sf_Function f) + line_breaks (sf_File f))"
proof -
  have "(\<Sum>f\<leftarrow>fs. Suc (line_breaks (frame_text f)))
      = length fs + (\<Sum>f\<leftarrow>fs. line_breaks (sf_Function f) + line_breaks (sf_File f))" for fs
    by (induction fs) (simp_all add: frame_text_def)
  then show ?thesis by (simp add: Violation_String_def line_breaks_concat comp_def)
qed

subsection \<open>What a test is told\<close>

lemma each_error_map: "each_error msg xs t = t @ map msg xs"
  by (induction xs arbitrary: t) (simp_all add: each_error_def Errorf_def)

definition collected :: "report list \<Rightarrow> collector" where
  "collected rs = foldl (\<lambda>c r. collector_add r c) new_collector rs"

lemma collected_snoc: "collected (rs @ [r]) = collector_add r (collected rs)"
  by (simp add: collected_def)

lemma collected_Violations:
  "Violations (collected rs) = concat (map (\<lambda>r. case r of RViolation v \<Rightarrow> [v] | _ \<Rightarrow> []) rs)"
  by (induction rs rule: rev_induct)
    (auto simp: collected_snoc Violations_def collected_def new_collector_def split: report.split)

lemma collected_count:
  "length (Violations (collected rs)) + length (UnscopedTxs (collected rs)) + length (UnscopedChecks (collected rs))
    + length (NestedScopes (collected rs)) + length (LeakedTxs (collected rs)) + length (StaleAllows (collected rs))
   = length rs"
proof (induction rs rule: rev_induct)
  case (snoc r rs)
  then show ?case
    by (cases r) (auto simp: collected_snoc Violations_def UnscopedTxs_def UnscopedChecks_def NestedScopes_def
        LeakedTxs_def StaleAllows_def)
qed (simp add: collected_def new_collector_def Violations_def UnscopedTxs_def UnscopedChecks_def NestedScopes_def
    LeakedTxs_def StaleAllows_def)

text \<open>
  C28. A test that calls all six helpers gets one error per report that reached the collector,
  and passes exactly when there was none. The errors for violations are their texts, in the
  order in which the violations were reported.
\<close>

theorem helpers_report_everything:
  "let c = collected rs;
       t = RequireNoViolations table c [];
       errors = RequireNoStaleAllows table c (RequireNoLeakedTxs table c (RequireNoNestedScopes table c
         (RequireNoUnscopedChecks c (RequireNoUnscopedTxs c t))))
   in length errors = length rs \<and> (errors = []) = (rs = [])
      \<and> t = concat (map (\<lambda>r. case r of RViolation v \<Rightarrow> [Violation_String table v] | _ \<Rightarrow> []) rs)"
proof -
  define errors where "errors = RequireNoStaleAllows table (collected rs) (RequireNoLeakedTxs table (collected rs)
    (RequireNoNestedScopes table (collected rs) (RequireNoUnscopedChecks (collected rs)
      (RequireNoUnscopedTxs (collected rs) (RequireNoViolations table (collected rs) [])))))"
  have n: "length errors = length rs"
    unfolding collected_count[of rs, symmetric] errors_def
    by (simp add: RequireNoStaleAllows_def RequireNoLeakedTxs_def RequireNoNestedScopes_def RequireNoUnscopedChecks_def
        RequireNoUnscopedTxs_def RequireNoViolations_def each_error_map)
  then have "(errors = []) = (rs = [])" by auto
  moreover have "map f (concat (map (\<lambda>r. case r of RViolation v \<Rightarrow> [v] | _ \<Rightarrow> []) rs))
      = concat (map (\<lambda>r. case r of RViolation v \<Rightarrow> [f v] | _ \<Rightarrow> []) rs)" for f :: "violation \<Rightarrow> string"
    by (induction rs) (simp_all split: report.split)
  ultimately show ?thesis using n
    by (simp add: Let_def errors_def RequireNoViolations_def each_error_map collected_Violations)
qed

end
