(* ===== verification/Detector.thy ===== *)
theory Detector
  imports Classify Scope Allowlist Reporters
begin

text \<open>
  The detector (detector.go, allow.go): its configuration, contexts and what they carry, the
  world it acts on, scopes from start to finish and allow regions.

  A context is the chain of values that \<^verbatim>\<open>context.WithValue\<close> built; deadlines and
  cancellation carry no value and are left out. The classifier, the attribute function and the
  statement checkers are functions of the user. What the runtime supplies, the clock and the
  call stack, is any sequence of readings. Contexts are handed to reporters as well, which the
  model does not record.
\<close>

subsection \<open>Contexts\<close>

datatype ctx_key = ScopeCtxKey | OtherCtxKey string

datatype ctx_val = ScopeVal scope_ref | AllowedVal scope_ref mark_ref | OtherVal any

datatype ctx = Background | WithValue ctx ctx_key ctx_val

fun ctx_value :: "ctx \<Rightarrow> ctx_key \<Rightarrow> ctx_val option" where
  "ctx_value Background key = None"
| "ctx_value (WithValue c key v) key' = (if key = key' then Some v else ctx_value c key')"

definition scopeAndMarkFrom :: "ctx \<Rightarrow> scope_ref option \<times> mark_ref option" where
  "scopeAndMarkFrom c =
     (case ctx_value c ScopeCtxKey of
        Some (ScopeVal s) \<Rightarrow> (Some s, None)
      | Some (AllowedVal s m) \<Rightarrow> (Some s, Some m)
      | _ \<Rightarrow> (None, None))"

definition scopeFrom :: "ctx \<Rightarrow> scope_ref option" where
  "scopeFrom c = (case scopeAndMarkFrom c of (s, _) \<Rightarrow> s)"

subsection \<open>The detector and its options\<close>

type_synonym statement_checker = "string \<Rightarrow> op \<times> bool"

record detector =
  d_reporters :: "reporter list"
  d_allowlist :: "nat option"
  d_classify :: "string \<Rightarrow> statement_kind"
  d_stmtCheckers :: "statement_checker list"
  d_attrsFunc :: "(ctx \<Rightarrow> scope_attr list) option"
  d_reportUnscoped :: bool
  d_reportUnscopedCheck :: bool
  d_reportNested :: bool
  d_reportLeaked :: bool
  d_stackDepth :: int

definition WithReporter :: "reporter list \<Rightarrow> detector \<Rightarrow> detector" where
  "WithReporter rs d = d\<lparr>d_reporters := d_reporters d @ rs\<rparr>"

definition WithAllowlist :: "nat option \<Rightarrow> detector \<Rightarrow> detector" where
  "WithAllowlist a d = d\<lparr>d_allowlist := a\<rparr>"

definition WithClassifier :: "(string \<Rightarrow> statement_kind) \<Rightarrow> detector \<Rightarrow> detector" where
  "WithClassifier c d = d\<lparr>d_classify := c\<rparr>"

definition WithStatementChecker :: "statement_checker list \<Rightarrow> detector \<Rightarrow> detector" where
  "WithStatementChecker cs d = d\<lparr>d_stmtCheckers := d_stmtCheckers d @ cs\<rparr>"

definition WithScopeAttrsFunc :: "(ctx \<Rightarrow> scope_attr list) option \<Rightarrow> detector \<Rightarrow> detector" where
  "WithScopeAttrsFunc f d = d\<lparr>d_attrsFunc := f\<rparr>"

definition WithUnscopedTxDetection :: "detector \<Rightarrow> detector" where
  "WithUnscopedTxDetection d = d\<lparr>d_reportUnscoped := True\<rparr>"

definition WithUnscopedCheckDetection :: "detector \<Rightarrow> detector" where
  "WithUnscopedCheckDetection d = d\<lparr>d_reportUnscopedCheck := True\<rparr>"

definition WithNestedScopeDetection :: "detector \<Rightarrow> detector" where
  "WithNestedScopeDetection d = d\<lparr>d_reportNested := True\<rparr>"

definition WithLeakedTxDetection :: "detector \<Rightarrow> detector" where
  "WithLeakedTxDetection d = d\<lparr>d_reportLeaked := True\<rparr>"

definition WithStackDepth :: "int \<Rightarrow> detector \<Rightarrow> detector" where
  "WithStackDepth n d = d\<lparr>d_stackDepth := n\<rparr>"

definition New :: "(detector \<Rightarrow> detector) list \<Rightarrow> detector" where
  "New opts =
     foldl (\<lambda>d opt. opt d)
       \<lparr>d_reporters = [], d_allowlist = None, d_classify = DefaultClassifier, d_stmtCheckers = [],
        d_attrsFunc = None, d_reportUnscoped = False, d_reportUnscopedCheck = False,
        d_reportNested = False, d_reportLeaked = False, d_stackDepth = 32\<rparr> opts"

subsection \<open>The world\<close>

record world =
  w_scopes :: "scope_ref \<Rightarrow> scope"
  w_next_scope :: nat
  w_marks :: "mark_ref \<Rightarrow> allow_mark"
  w_next_mark :: nat
  w_allowlists :: "nat \<Rightarrow> allowlist"
  w_callers :: "nat \<Rightarrow> stack_frame list"
  w_captures :: nat
  w_rs :: rstore

definition update_scope :: "scope_ref \<Rightarrow> (scope \<Rightarrow> scope) \<Rightarrow> world \<Rightarrow> world" where
  "update_scope s f w = w\<lparr>w_scopes := (w_scopes w)(s := f (w_scopes w s))\<rparr>"

definition now :: "world \<Rightarrow> time \<times> world" where
  "now w = (case time_now (w_rs w) of (t, st) \<Rightarrow> (t, w\<lparr>w_rs := st\<rparr>))"

text \<open>\<^verbatim>\<open>captureStack(d.stackDepth)\<close> where it is called: the runtime's frames at that moment.\<close>

definition capture :: "detector \<Rightarrow> world \<Rightarrow> stack_frame list \<times> world" where
  "capture d w =
     (captureStack (d_stackDepth d) (w_callers w (w_captures w)), w\<lparr>w_captures := Suc (w_captures w)\<rparr>)"

definition emit_report :: "detector \<Rightarrow> report \<Rightarrow> world \<Rightarrow> world" where
  "emit_report d r w = w\<lparr>w_rs := deliver_all (d_reporters d) r (w_rs w)\<rparr>"

subsection \<open>Scopes and allow regions\<close>

definition WithScopeAttrs :: "scope_attr list \<Rightarrow> scope \<Rightarrow> scope" where
  "WithScopeAttrs attrs s = s\<lparr>sc_attrs := sc_attrs s @ attrs\<rparr>"

definition report_nested :: "detector \<Rightarrow> ctx \<Rightarrow> string \<Rightarrow> world \<Rightarrow> world" where
  "report_nested d c name w =
     (case scopeFrom c of
        Some outer \<Rightarrow>
          if d_reportNested d then
            (case now w of (t, w') \<Rightarrow>
               emit_report d (RNestedScope \<lparr>ns_Outer = sc_name (w_scopes w outer), ns_Inner = name, ns_Time = t\<rparr>) w')
          else w
      | None \<Rightarrow> w)"

text \<open>
  \<^verbatim>\<open>StartScope\<close> returns the derived context and the finish function, which closes over the
  new scope: the model returns the reference, and \<open>finishScope\<close> is the call.
\<close>

definition StartScope :: "detector \<Rightarrow> ctx \<Rightarrow> string \<Rightarrow> (scope \<Rightarrow> scope) list \<Rightarrow> world \<Rightarrow> (ctx \<times> scope_ref) \<times> world" where
  "StartScope d c name opts w =
     (let w = report_nested d c name w;
          s = new_scope name;
          s = (case d_attrsFunc d of None \<Rightarrow> s | Some f \<Rightarrow> s\<lparr>sc_attrs := sc_attrs s @ f c\<rparr>);
          s = foldl (\<lambda>s opt. opt s) s opts;
          r = w_next_scope w
      in ((WithValue c ScopeCtxKey (ScopeVal r), r),
          w\<lparr>w_scopes := (w_scopes w)(r := s), w_next_scope := Suc r\<rparr>))"

definition reportStaleAllow :: "detector \<Rightarrow> stale_allow \<Rightarrow> world \<Rightarrow> world" where
  "reportStaleAllow d sa w = emit_report d (RStaleAllow sa) w"

definition reportStaleAllows :: "detector \<Rightarrow> stale_allow list \<Rightarrow> world \<Rightarrow> world" where
  "reportStaleAllows d sas w = foldl (\<lambda>w sa. reportStaleAllow d sa w) w sas"

definition reportCallShortfalls :: "detector \<Rightarrow> scope_ref \<Rightarrow> world \<Rightarrow> world" where
  "reportCallShortfalls d s w = reportStaleAllows d (call_shortfalls (w_marks w) (w_scopes w s)) w"

definition finishScope :: "detector \<Rightarrow> scope_ref \<Rightarrow> world \<Rightarrow> world" where
  "finishScope d s w =
     (if sc_finished (w_scopes w s) then w
      else
        (let w = update_scope s (\<lambda>sc. sc\<lparr>sc_finished := True\<rparr>) w;
             w = reportCallShortfalls d s w
         in if \<not> d_reportLeaked d then w
            else if sc_openTxs (w_scopes w s) > 0 then
              (case now w of (t, w') \<Rightarrow>
                 emit_report d (RLeakedTx \<lparr>lt_Scope = sc_name (w_scopes w s),
                                         lt_OpenTxs = sc_openTxs (w_scopes w s), lt_Time = t\<rparr>) w')
            else w))"

text \<open>
  \<^verbatim>\<open>InScope\<close> with its deferred finish: \<open>f\<close> is the user's function on the derived context, and
  \<open>'r\<close> is what it leaves behind, an error, nil or a panic that the caller goes on to see.
\<close>

definition InScope :: "detector \<Rightarrow> ctx \<Rightarrow> string \<Rightarrow> (ctx \<Rightarrow> world \<Rightarrow> 'r \<times> world) \<Rightarrow> (scope \<Rightarrow> scope) list \<Rightarrow> world \<Rightarrow> 'r \<times> world" where
  "InScope d c name f opts w =
     (case StartScope d c name opts w of
        ((c', s), w1) \<Rightarrow> (case f c' w1 of (r, w2) \<Rightarrow> (r, finishScope d s w2)))"

definition AllowInTransactionHere :: "ctx \<Rightarrow> string \<Rightarrow> int list \<Rightarrow> world \<Rightarrow> ctx \<times> world" where
  "AllowInTransactionHere c reason exactCalls w =
     (case scopeAndMarkFrom c of
        (None, _) \<Rightarrow> (c, w)
      | (Some s, _) \<Rightarrow>
          (let m = w_next_mark w;
               mark = \<lparr>am_reason = reason, am_counts = [], am_n = 0\<rparr>;
               mark = (if exactCalls \<noteq> [] then mark\<lparr>am_counts := exactCalls\<rparr> else mark);
               w = w\<lparr>w_marks := (w_marks w)(m := mark), w_next_mark := Suc m\<rparr>;
               w = (if exactCalls \<noteq> [] then update_scope s (registerMark m) w else w)
           in (WithValue c ScopeCtxKey (AllowedVal s m), w)))"

definition reportUnscopedTx :: "detector \<Rightarrow> world \<Rightarrow> world" where
  "reportUnscopedTx d w =
     (if \<not> d_reportUnscoped d then w
      else
        (case capture d w of (stack, w1) \<Rightarrow>
           (case now w1 of (t, w2) \<Rightarrow>
              emit_report d (RUnscopedTx \<lparr>ut_Stack = stack, ut_Time = t\<rparr>) w2)))"

subsection \<open>Frame\<close>

lemma w_now [simp, txn_frame]:
  "w_scopes (snd (now w)) = w_scopes w" "w_next_scope (snd (now w)) = w_next_scope w"
  "w_marks (snd (now w)) = w_marks w" "w_next_mark (snd (now w)) = w_next_mark w"
  "w_allowlists (snd (now w)) = w_allowlists w"
  by (simp_all add: now_def split: prod.split)

lemma w_capture [simp, txn_frame]:
  "w_scopes (snd (capture d w)) = w_scopes w" "w_next_scope (snd (capture d w)) = w_next_scope w"
  "w_marks (snd (capture d w)) = w_marks w" "w_next_mark (snd (capture d w)) = w_next_mark w"
  "w_allowlists (snd (capture d w)) = w_allowlists w" "w_rs (snd (capture d w)) = w_rs w"
  by (simp_all add: capture_def)

lemma w_emit_report [simp, txn_frame]:
  "w_scopes (emit_report d r w) = w_scopes w" "w_next_scope (emit_report d r w) = w_next_scope w"
  "w_marks (emit_report d r w) = w_marks w" "w_next_mark (emit_report d r w) = w_next_mark w"
  "w_allowlists (emit_report d r w) = w_allowlists w"
  by (simp_all add: emit_report_def)

lemma w_update_scope [simp, txn_frame]:
  "w_scopes (update_scope s f w) = (w_scopes w)(s := f (w_scopes w s))"
  "w_next_scope (update_scope s f w) = w_next_scope w"
  "w_marks (update_scope s f w) = w_marks w" "w_next_mark (update_scope s f w) = w_next_mark w"
  "w_allowlists (update_scope s f w) = w_allowlists w" "w_rs (update_scope s f w) = w_rs w"
  "w_callers (update_scope s f w) = w_callers w" "w_captures (update_scope s f w) = w_captures w"
  by (simp_all add: update_scope_def)

lemma w_reportStaleAllow [simp, txn_frame]:
  "w_scopes (reportStaleAllow d sa w) = w_scopes w"
  "w_next_scope (reportStaleAllow d sa w) = w_next_scope w"
  "w_marks (reportStaleAllow d sa w) = w_marks w"
  "w_next_mark (reportStaleAllow d sa w) = w_next_mark w"
  "w_allowlists (reportStaleAllow d sa w) = w_allowlists w"
  by (simp_all add: reportStaleAllow_def)

lemma w_reportStaleAllows [simp, txn_frame]:
  "w_scopes (reportStaleAllows d sas w) = w_scopes w"
  "w_next_scope (reportStaleAllows d sas w) = w_next_scope w"
  "w_marks (reportStaleAllows d sas w) = w_marks w"
  "w_next_mark (reportStaleAllows d sas w) = w_next_mark w"
  "w_allowlists (reportStaleAllows d sas w) = w_allowlists w"
  unfolding reportStaleAllows_def by (induction sas arbitrary: w) simp_all

lemma w_reportUnscopedTx [simp, txn_frame]:
  "w_scopes (reportUnscopedTx d w) = w_scopes w"
  "w_next_scope (reportUnscopedTx d w) = w_next_scope w"
  "w_marks (reportUnscopedTx d w) = w_marks w"
  "w_next_mark (reportUnscopedTx d w) = w_next_mark w"
  "w_allowlists (reportUnscopedTx d w) = w_allowlists w"
  by (simp_all add: reportUnscopedTx_def case_prod_unfold)

lemma w_reportCallShortfalls [simp, txn_frame]:
  "w_scopes (reportCallShortfalls d s w) = w_scopes w"
  "w_next_scope (reportCallShortfalls d s w) = w_next_scope w"
  "w_marks (reportCallShortfalls d s w) = w_marks w"
  "w_next_mark (reportCallShortfalls d s w) = w_next_mark w"
  "w_allowlists (reportCallShortfalls d s w) = w_allowlists w"
  by (simp_all add: reportCallShortfalls_def)

lemma w_report_nested [simp, txn_frame]:
  "w_scopes (report_nested d c name w) = w_scopes w"
  "w_next_scope (report_nested d c name w) = w_next_scope w"
  "w_marks (report_nested d c name w) = w_marks w"
  "w_next_mark (report_nested d c name w) = w_next_mark w"
  "w_allowlists (report_nested d c name w) = w_allowlists w"
  by (simp_all add: report_nested_def case_prod_unfold split: option.split)

subsection \<open>Lookup laws\<close>

lemma scopeAndMarkFrom_with [simp]:
  "scopeAndMarkFrom (WithValue c ScopeCtxKey (ScopeVal r)) = (Some r, None)"
  "scopeAndMarkFrom (WithValue c ScopeCtxKey (AllowedVal r m)) = (Some r, Some m)"
  "scopeAndMarkFrom (WithValue c (OtherCtxKey k) v) = scopeAndMarkFrom c"
  "scopeAndMarkFrom Background = (None, None)"
  by (simp_all add: scopeAndMarkFrom_def)

lemma scopeFrom_fst: "scopeFrom c = fst (scopeAndMarkFrom c)"
  by (simp add: scopeFrom_def case_prod_unfold)

lemma mark_needs_scope: "scopeAndMarkFrom c = (None, m) \<Longrightarrow> m = None"
  by (auto simp: scopeAndMarkFrom_def split: option.splits ctx_val.splits)

lemma foldl_WithScopeAttrs:
  "foldl (\<lambda>s opt. opt s) s (map WithScopeAttrs ass) = s\<lparr>sc_attrs := sc_attrs s @ concat ass\<rparr>"
  by (induction ass arbitrary: s) (simp_all add: WithScopeAttrs_def)

lemma reportStaleAllows_rs:
  "w_rs (reportStaleAllows d sas w)
     = foldl (\<lambda>st sa. deliver_all (d_reporters d) (RStaleAllow sa) st) (w_rs w) sas"
  unfolding reportStaleAllows_def
  by (induction sas arbitrary: w) (simp_all add: reportStaleAllow_def emit_report_def)

text \<open>Delivering a sequence of reports to all reporters, and what a finished scope owes.\<close>

definition deliver_reports :: "reporter list \<Rightarrow> report list \<Rightarrow> rstore \<Rightarrow> rstore" where
  "deliver_reports reps rs st = foldl (\<lambda>st r. deliver_all reps r st) st rs"

lemma deliver_reports_simps [simp]:
  "deliver_reports reps [] st = st"
  "deliver_reports reps (r # rs) st = deliver_reports reps rs (deliver_all reps r st)"
  "deliver_reports reps (rs @ qs) st = deliver_reports reps qs (deliver_reports reps rs st)"
  by (simp_all add: deliver_reports_def)

lemma deliver_reports_stale:
  "foldl (\<lambda>st sa. deliver_all reps (RStaleAllow sa) st) st sas
     = deliver_reports reps (map RStaleAllow sas) st"
  by (simp add: deliver_reports_def foldl_map)

lemma shortfall_finished:
  "key_shortfall (sc\<lparr>sc_finished := b\<rparr>) = key_shortfall sc"
  "mark_shortfall (sc\<lparr>sc_finished := b\<rparr>) = mark_shortfall sc"
  by (rule ext, simp add: key_shortfall_def split: option.split) (rule ext, simp add: mark_shortfall_def)

lemma call_shortfalls_finished [simp]:
  "call_shortfalls marks (sc\<lparr>sc_finished := b\<rparr>) = call_shortfalls marks sc"
  by (simp add: call_shortfalls_def shortfall_finished)

lemma finishScope_rs:
  assumes "\<not> sc_finished (w_scopes w s)"
  shows "w_rs (finishScope d s w) =
    (let sc = w_scopes w s;
         st = deliver_reports (d_reporters d) (map RStaleAllow (call_shortfalls (w_marks w) sc)) (w_rs w) in
     if d_reportLeaked d \<and> 0 < sc_openTxs sc then
       deliver_all (d_reporters d)
         (RLeakedTx \<lparr>lt_Scope = sc_name sc, lt_OpenTxs = sc_openTxs sc, lt_Time = rs_clock st (rs_reads st)\<rparr>)
         (st\<lparr>rs_reads := Suc (rs_reads st)\<rparr>)
     else st)"
  using assms
  by (simp add: finishScope_def Let_def reportCallShortfalls_def reportStaleAllows_rs
      deliver_reports_stale emit_report_def now_def time_now_def)

lemma finishScope_scopes:
  "w_scopes (finishScope d s w) = (w_scopes w)(s := (w_scopes w s)\<lparr>sc_finished := True\<rparr>)"
  by (cases "w_scopes w s") (auto simp: finishScope_def Let_def case_prod_unfold)

lemma finishScope_again: "finishScope d s (finishScope d s w) = finishScope d s w"
  by (simp add: finishScope_def[of d s "finishScope d s w"] finishScope_scopes)

text \<open>The world before anything ran: no object exists, and the clock and stacks are given.\<close>

definition initial_store :: "(nat \<Rightarrow> time) \<Rightarrow> rstore" where
  "initial_store clock =
     \<lparr>rs_clock = clock, rs_reads = 0, rs_collectors = (\<lambda>_. new_collector), rs_baselines = (\<lambda>_. NewBaseline),
      rs_throttles = (\<lambda>_. NewThrottlingReporter 0), rs_logs = (\<lambda>_. []), rs_users = (\<lambda>_. [])\<rparr>"

definition initial_world :: "(nat \<Rightarrow> time) \<Rightarrow> (nat \<Rightarrow> stack_frame list) \<Rightarrow> world" where
  "initial_world clock callers =
     \<lparr>w_scopes = (\<lambda>_. new_scope []), w_next_scope = 0,
      w_marks = (\<lambda>_. \<lparr>am_reason = [], am_counts = [], am_n = 0\<rparr>), w_next_mark = 0,
      w_allowlists = (\<lambda>_. NewAllowlist), w_callers = callers, w_captures = 0,
      w_rs = initial_store clock\<rparr>"

lemma collector_delivered:
  "rs_collectors (deliver_reports [CollectingReporter r] rs st)
     = (rs_collectors st)(r := foldl (\<lambda>c x. collector_add x c) (rs_collectors st r) rs)"
  by (induction rs arbitrary: st) (simp_all add: collector_receive_def)

lemma collector_stale:
  "foldl (\<lambda>c x. collector_add x c) c (map RStaleAllow sas) = c\<lparr>co_staleAllows := co_staleAllows c @ sas\<rparr>"
  by (induction sas arbitrary: c) simp_all

subsection \<open>Properties\<close>

text \<open>
  Starting a scope installs a fresh holder: the derived context resolves to it and to no
  allow region, even under an outer scope or region; its counter and its accounting start
  empty; its attributes are those of the detector's extractor, evaluated on the caller's
  context, followed by the scope's own; and no other scope changes. A nesting is reported
  exactly when the option is on, to every reporter, before the scope exists.
\<close>

theorem StartScope_installs_fresh_scope:
  "let ((c', r), w') = StartScope d c name (map WithScopeAttrs ass) w in
     scopeAndMarkFrom c' = (Some r, None)
   \<and> r = w_next_scope w \<and> w_next_scope w' = Suc r
   \<and> w_scopes w' = (w_scopes w)(r := (new_scope name)
        \<lparr>sc_attrs := (case d_attrsFunc d of None \<Rightarrow> [] | Some f \<Rightarrow> f c) @ concat ass\<rparr>)
   \<and> w_marks w' = w_marks w
   \<and> w_rs w' =
       (case scopeFrom c of
          Some outer \<Rightarrow>
            if d_reportNested d then
              deliver_all (d_reporters d)
                (RNestedScope \<lparr>ns_Outer = sc_name (w_scopes w outer), ns_Inner = name,
                               ns_Time = rs_clock (w_rs w) (rs_reads (w_rs w))\<rparr>)
                ((w_rs w)\<lparr>rs_reads := Suc (rs_reads (w_rs w))\<rparr>)
            else w_rs w
        | None \<Rightarrow> w_rs w)"
  by (auto simp: StartScope_def Let_def foldl_WithScopeAttrs new_scope_def report_nested_def
      now_def time_now_def emit_report_def split: option.split)

text \<open>
  C15. Finishing a scope is idempotent, and the first finish reports, in this order: a stale
  allow for each identity whose exact-call declaration the total missed, in the order of the
  identities and each identity once; one for each counted region that missed its counts, in
  creation order; and, when the option is on and transactions are still open, the leak with
  their number. Nothing else is reported, and a total above every declared count is not stale.
\<close>

theorem finishScope_reports_once:
  assumes "calls_ok (w_scopes w s)" "\<not> sc_finished (w_scopes w s)"
  shows "let sc = w_scopes w s;
             stale = map (stale_key sc) (sorted_list_of_set {key. misses_counts (declared_of sc key) (calls_of sc key)})
               @ concat (map (\<lambda>m. mark_shortfall sc (w_marks w m)) (sc_marks sc));
             st = deliver_reports (d_reporters d) (map RStaleAllow stale) (w_rs w);
             w' = finishScope d s w in
      w_rs w' =
        (if d_reportLeaked d \<and> 0 < sc_openTxs sc then
           deliver_all (d_reporters d)
             (RLeakedTx \<lparr>lt_Scope = sc_name sc, lt_OpenTxs = sc_openTxs sc, lt_Time = rs_clock st (rs_reads st)\<rparr>)
             (st\<lparr>rs_reads := Suc (rs_reads st)\<rparr>)
         else st)
    \<and> w_scopes w' = (w_scopes w)(s := sc\<lparr>sc_finished := True\<rparr>)
    \<and> finishScope d s w' = w'"
  using assms
  by (simp add: Let_def finishScope_rs finishScope_scopes finishScope_again
      call_shortfalls_eq[OF assms(1)] missed_keys_def)

theorem finishScope_reports_once_witness:
  "let w = update_scope 0 (\<lambda>sc. sc\<lparr>sc_name := ''S'', sc_openTxs := 1\<rparr>) (initial_world (\<lambda>n. 7) (\<lambda>_. []));
       d = New [WithReporter [CollectingReporter 0], WithLeakedTxDetection]
   in LeakedTxs (rs_collectors (w_rs (finishScope d 0 w)) 0) = [\<lparr>lt_Scope = ''S'', lt_OpenTxs = 1, lt_Time = 7\<rparr>]"
  (is "let w = ?w; d = ?d in _")
proof -
  have "calls_ok (w_scopes ?w 0)" "\<not> sc_finished (w_scopes ?w 0)"
    by (simp_all add: new_scope_def calls_ok_def initial_world_def)
  from finishScope_reports_once[OF this, of ?d]
  show ?thesis
    by (simp add: Let_def new_scope_def New_def WithReporter_def WithLeakedTxDetection_def
        initial_world_def initial_store_def declared_of_def misses_counts_def
        collector_receive_def new_collector_def LeakedTxs_def)
qed

text \<open>
  An allow region is lexical: the derived context resolves to the same scope and to the
  new region, which shadows any outer one; a scope started under it drops the region, the
  original context keeps what it had, and without a scope the call changes nothing. Only a
  counted region is registered on the scope to be verified at its end.
\<close>

theorem allow_region_is_lexical:
  "case AllowInTransactionHere c reason counts w of (c', w') \<Rightarrow>
     (case scopeAndMarkFrom c of
        (None, _) \<Rightarrow> c' = c \<and> w' = w
      | (Some s, _) \<Rightarrow>
          scopeAndMarkFrom c' = (Some s, Some (w_next_mark w))
        \<and> w_marks w' = (w_marks w)(w_next_mark w := \<lparr>am_reason = reason, am_counts = counts, am_n = 0\<rparr>)
        \<and> w_scopes w' = (if counts = [] then w_scopes w
                         else (w_scopes w)(s := registerMark (w_next_mark w) (w_scopes w s)))
        \<and> w_rs w' = w_rs w \<and> w_allowlists w' = w_allowlists w)
   \<and> snd (scopeAndMarkFrom (fst (fst (StartScope d c' name opts w')))) = None"
  by (auto simp: AllowInTransactionHere_def StartScope_def Let_def split: prod.split option.split)

end
