(* ===== verification/Checks.thy ===== *)
theory Checks
  imports Detector
begin

text \<open>
  Checkpoints (check.go): the per-call options, \<^verbatim>\<open>Check\<close> and \<^verbatim>\<open>Do\<close>, the resolution of the
  allow tiers, the assembly of a violation, and the statement checkers.
\<close>

record check_config =
  cfg_allowed :: bool
  cfg_allowReason :: string
  cfg_allowCounts :: "int list"
  cfg_attrs :: "scope_attr list"

definition zero_config :: check_config where
  "zero_config = \<lparr>cfg_allowed = False, cfg_allowReason = [], cfg_allowCounts = [], cfg_attrs = []\<rparr>"

type_synonym check_option = "check_config \<Rightarrow> check_config"

definition AllowInTransaction :: "string \<Rightarrow> int list \<Rightarrow> check_option" where
  "AllowInTransaction reason exactCalls c =
     c\<lparr>cfg_allowed := True, cfg_allowReason := reason, cfg_allowCounts := exactCalls\<rparr>"

definition WithCheckAttrs :: "scope_attr list \<Rightarrow> check_option" where
  "WithCheckAttrs attrs c = c\<lparr>cfg_attrs := cfg_attrs c @ attrs\<rparr>"

definition appliedCheckConfig :: "check_option list \<Rightarrow> check_config" where
  "appliedCheckConfig opts = foldl (\<lambda>c opt. opt c) zero_config opts"

text \<open>The violation is built before the loop over the reporters starts.\<close>

definition emitViolation :: "detector \<Rightarrow> scope_ref \<Rightarrow> op \<Rightarrow> int \<Rightarrow> int \<Rightarrow> int list \<Rightarrow> scope_attr list \<Rightarrow> world \<Rightarrow> world" where
  "emitViolation d s oper opn call allowedCalls checkAttrs w =
     (let sc = w_scopes w s in
      case capture d w of (stack, w1) \<Rightarrow>
      case now w1 of (t, w2) \<Rightarrow>
        emit_report d
          (RViolation \<lparr>v_Op = oper, v_Scope = sc_name sc, v_OpenTxs = opn, v_Call = call,
                       v_AllowedCalls = allowedCalls, v_Stack = stack,
                       v_Attrs = sc_attrs sc @ checkAttrs, v_Time = t\<rparr>) w2)"

definition mark_Add :: "mark_ref \<Rightarrow> world \<Rightarrow> int \<times> world" where
  "mark_Add m w =
     (let n = am_n (w_marks w m) + 1
      in (n, w\<lparr>w_marks := (w_marks w)(m := (w_marks w m)\<lparr>am_n := n\<rparr>)\<rparr>))"

text \<open>The three allow tiers, each returning early when it covers the call.\<close>

definition decideAndReport :: "detector \<Rightarrow> scope_ref \<Rightarrow> mark_ref option \<Rightarrow> op \<Rightarrow> int \<Rightarrow> check_config \<Rightarrow> world \<Rightarrow> world" where
  "decideAndReport d s mark oper opn cfg w =
     (let key = ViolationKey (sc_name (w_scopes w s)) (op_kind oper) (op_name oper);
          k = fst (bumpCall key (w_scopes w s));
          w = update_scope s (\<lambda>sc. snd (bumpCall key sc)) w;
          w = (if cfg_allowed cfg
               then update_scope s (noteDeclared key (cfg_allowCounts cfg) (cfg_allowReason cfg)) w
               else w)
      in if cfg_allowed cfg \<and> coversCalls (cfg_allowCounts cfg) k then w
      else
        (let declined = (if cfg_allowed cfg then cfg_allowCounts cfg else []);
             (mk, w) = (case mark of None \<Rightarrow> (0, w) | Some m \<Rightarrow> mark_Add m w);
             mcounts = (case mark of None \<Rightarrow> [] | Some m \<Rightarrow> am_counts (w_marks w m))
         in if mark \<noteq> None \<and> coversCalls mcounts mk then w
         else
           (let declined = declined @ mcounts in
            case d_allowlist d of
              None \<Rightarrow> emitViolation d s oper opn k declined (cfg_attrs cfg) w
            | Some a \<Rightarrow>
                (case allowlist_decide (sc_name (w_scopes w s)) oper k (w_allowlists w a) of
                   (dec, al) \<Rightarrow>
                     (let w = w\<lparr>w_allowlists := (w_allowlists w)(a := al)\<rparr> in
                      if ad_present dec then
                        (let w = update_scope s (noteDeclared key (ad_counts dec) (ad_reason dec)) w in
                         if ad_covered dec then w
                         else emitViolation d s oper opn k (declined @ ad_counts dec) (cfg_attrs cfg) w)
                      else emitViolation d s oper opn k declined (cfg_attrs cfg) w)))))"

definition check :: "detector \<Rightarrow> ctx \<Rightarrow> op \<Rightarrow> check_option list \<Rightarrow> world \<Rightarrow> world" where
  "check d c oper opts w =
     (case scopeAndMarkFrom c of
        (None, _) \<Rightarrow>
          if d_reportUnscopedCheck d then
            (case capture d w of (stack, w1) \<Rightarrow>
             case now w1 of (t, w2) \<Rightarrow>
               emit_report d (RUnscopedCheck \<lparr>uc_Op = oper, uc_Stack = stack, uc_Time = t\<rparr>) w2)
          else w
      | (Some s, mark) \<Rightarrow>
          (let cfg = (if opts \<noteq> [] then appliedCheckConfig opts else zero_config);
               opn = sc_openTxs (w_scopes w s);
               name = sc_name (w_scopes w s)
           in if opn \<le> 0 then
                (let w = (if cfg_allowed cfg
                          then reportStaleAllow d (stale_now name oper (cfg_allowReason cfg)) w
                          else w)
                 in case mark of
                      None \<Rightarrow> w
                    | Some m \<Rightarrow> reportStaleAllow d (stale_now name oper (am_reason (w_marks w m))) w)
              else decideAndReport d s mark oper opn cfg w))"

definition Check :: "detector \<Rightarrow> ctx \<Rightarrow> op \<Rightarrow> check_option list \<Rightarrow> world \<Rightarrow> world" where
  "Check d c oper opts w = check d c oper opts w"

definition Do :: "detector \<Rightarrow> ctx \<Rightarrow> op \<Rightarrow> (ctx \<Rightarrow> world \<Rightarrow> 'r \<times> world) \<Rightarrow> check_option list \<Rightarrow> world \<Rightarrow> 'r \<times> world" where
  "Do d c oper f opts w = f c (check d c oper opts w)"

definition checkNeeded :: "detector \<Rightarrow> ctx \<Rightarrow> world \<Rightarrow> bool" where
  "checkNeeded d c w =
     (case scopeAndMarkFrom c of
        (Some s, mark) \<Rightarrow> sc_openTxs (w_scopes w s) > 0 \<or> mark \<noteq> None
      | (None, _) \<Rightarrow> d_reportUnscopedCheck d)"

fun run_stale_checkers :: "detector \<Rightarrow> string \<Rightarrow> string \<Rightarrow> string \<Rightarrow> statement_checker list \<Rightarrow> world \<Rightarrow> world" where
  "run_stale_checkers d name reason query [] w = w"
| "run_stale_checkers d name reason query (chk # chks) w =
     (case chk query of (oper, ok) \<Rightarrow>
        run_stale_checkers d name reason query chks
          (if ok then reportStaleAllow d (stale_now name oper reason) w else w))"

fun run_open_checkers :: "detector \<Rightarrow> scope_ref \<Rightarrow> mark_ref option \<Rightarrow> int \<Rightarrow> string \<Rightarrow> statement_checker list \<Rightarrow> world \<Rightarrow> world" where
  "run_open_checkers d s mark opn query [] w = w"
| "run_open_checkers d s mark opn query (chk # chks) w =
     (case chk query of (oper, ok) \<Rightarrow>
        run_open_checkers d s mark opn query chks
          (if ok then decideAndReport d s mark oper opn zero_config w else w))"

definition runStatementCheckers :: "detector \<Rightarrow> ctx \<Rightarrow> string \<Rightarrow> world \<Rightarrow> world" where
  "runStatementCheckers d c query w =
     (case scopeAndMarkFrom c of
        (None, _) \<Rightarrow> w
      | (Some s, mark) \<Rightarrow>
          (let opn = sc_openTxs (w_scopes w s) in
           if opn \<le> 0 then
             (case mark of
                None \<Rightarrow> w
              | Some m \<Rightarrow> run_stale_checkers d (sc_name (w_scopes w s)) (am_reason (w_marks w m)) query (d_stmtCheckers d) w)
           else run_open_checkers d s mark opn query (d_stmtCheckers d) w))"

definition reportStatementOps :: "detector \<Rightarrow> ctx \<Rightarrow> op list \<Rightarrow> world \<Rightarrow> world" where
  "reportStatementOps d c ops w =
     (case scopeAndMarkFrom c of
        (None, _) \<Rightarrow> w
      | (Some s, mark) \<Rightarrow>
          (let opn = sc_openTxs (w_scopes w s) in
           if opn \<le> 0 then
             (case mark of
                None \<Rightarrow> w
              | Some m \<Rightarrow>
                  foldl (\<lambda>w' oper. reportStaleAllow d (stale_now (sc_name (w_scopes w s)) oper (am_reason (w_marks w m))) w') w ops)
           else foldl (\<lambda>w oper. decideAndReport d s mark oper opn zero_config w) w ops))"

subsection \<open>The tiers\<close>

text \<open>Whether each tier covers the k-th call, in terms of the world before the event.\<close>

definition option_covers :: "check_config \<Rightarrow> int \<Rightarrow> bool" where
  "option_covers cfg k \<longleftrightarrow> cfg_allowed cfg \<and> coversCalls (cfg_allowCounts cfg) k"

definition region_covers :: "world \<Rightarrow> mark_ref option \<Rightarrow> bool" where
  "region_covers w mark =
     (case mark of
        None \<Rightarrow> False
      | Some m \<Rightarrow> coversCalls (am_counts (w_marks w m)) (am_n (w_marks w m) + 1))"

definition list_covers :: "detector \<Rightarrow> world \<Rightarrow> string \<Rightarrow> op \<Rightarrow> int \<Rightarrow> bool" where
  "list_covers d w name oper k =
     (case d_allowlist d of
        None \<Rightarrow> False
      | Some a \<Rightarrow> allowlist_resolve (w_allowlists w a) (name, oper, k) \<noteq> None)"

definition list_counts :: "detector \<Rightarrow> world \<Rightarrow> string \<Rightarrow> op \<Rightarrow> int list" where
  "list_counts d w name oper =
     (case d_allowlist d of
        None \<Rightarrow> []
      | Some a \<Rightarrow> (case lookup_entry (w_allowlists w a) name oper of
                    None \<Rightarrow> [] | Some (key, e) \<Rightarrow> ae_counts e))"

definition declined_counts :: "detector \<Rightarrow> world \<Rightarrow> mark_ref option \<Rightarrow> string \<Rightarrow> op \<Rightarrow> check_config \<Rightarrow> int list" where
  "declined_counts d w mark name oper cfg =
     (if cfg_allowed cfg then cfg_allowCounts cfg else [])
     @ (case mark of None \<Rightarrow> [] | Some m \<Rightarrow> am_counts (w_marks w m))
     @ list_counts d w name oper"

lemma mark_Add_simps [simp]:
  "fst (mark_Add m w) = am_n (w_marks w m) + 1"
  "w_marks (snd (mark_Add m w)) = (w_marks w)(m := (w_marks w m)\<lparr>am_n := am_n (w_marks w m) + 1\<rparr>)"
  "w_scopes (snd (mark_Add m w)) = w_scopes w"
  "w_next_scope (snd (mark_Add m w)) = w_next_scope w"
  "w_next_mark (snd (mark_Add m w)) = w_next_mark w"
  "w_allowlists (snd (mark_Add m w)) = w_allowlists w"
  "w_rs (snd (mark_Add m w)) = w_rs w"
  "w_callers (snd (mark_Add m w)) = w_callers w" "w_captures (snd (mark_Add m w)) = w_captures w"
  by (simp_all add: mark_Add_def Let_def)

lemma w_emitViolation [simp, txn_frame]:
  "w_scopes (emitViolation d s oper opn k cs ats w) = w_scopes w"
  "w_next_scope (emitViolation d s oper opn k cs ats w) = w_next_scope w"
  "w_marks (emitViolation d s oper opn k cs ats w) = w_marks w"
  "w_next_mark (emitViolation d s oper opn k cs ats w) = w_next_mark w"
  "w_allowlists (emitViolation d s oper opn k cs ats w) = w_allowlists w"
  by (simp_all add: emitViolation_def Let_def case_prod_unfold)

lemma rs_emitViolation:
  "w_rs (emitViolation d s oper opn k cs ats w) =
     deliver_all (d_reporters d)
       (RViolation \<lparr>v_Op = oper, v_Scope = sc_name (w_scopes w s), v_OpenTxs = opn, v_Call = k,
          v_AllowedCalls = cs, v_Stack = captureStack (d_stackDepth d) (w_callers w (w_captures w)),
          v_Attrs = sc_attrs (w_scopes w s) @ ats, v_Time = rs_clock (w_rs w) (rs_reads (w_rs w))\<rparr>)
       ((w_rs w)\<lparr>rs_reads := Suc (rs_reads (w_rs w))\<rparr>)"
  by (simp add: emitViolation_def Let_def capture_def now_def time_now_def emit_report_def)

lemma decide_resolve:
  "ad_present (fst (allowlist_decide n oper k a)) \<and> ad_covered (fst (allowlist_decide n oper k a))
     \<longleftrightarrow> allowlist_resolve a (n, oper, k) \<noteq> None"
  using allowlist_suppress_verdict[of "(n, oper, k)" a] by (simp add: allowlist_suppress_apply)

lemma decide_lookup:
  "ad_present (fst (allowlist_decide n oper k a)) \<longleftrightarrow> lookup_entry a n oper \<noteq> None"
  "ad_counts (fst (allowlist_decide n oper k a)) =
     (case lookup_entry a n oper of None \<Rightarrow> [] | Some (key, e) \<Rightarrow> ae_counts e)"
  by (auto simp: allowlist_decide_def split: option.split)

text \<open>Counting the event and noting the declarations: what becomes of the scope.\<close>

definition noted_scope :: "detector \<Rightarrow> world \<Rightarrow> mark_ref option \<Rightarrow> op \<Rightarrow> check_config \<Rightarrow> scope \<Rightarrow> scope" where
  "noted_scope d w mark oper cfg sc =
     (let key = key_for (sc_name sc) oper;
          k = calls_of sc key + 1;
          sc' = snd (bumpCall key sc);
          sc' = (if cfg_allowed cfg then noteDeclared key (cfg_allowCounts cfg) (cfg_allowReason cfg) sc' else sc')
      in if option_covers cfg k \<or> region_covers w mark then sc'
         else case d_allowlist d of
           None \<Rightarrow> sc'
         | Some a \<Rightarrow>
             (case lookup_entry (w_allowlists w a) (sc_name sc) oper of
                None \<Rightarrow> sc'
              | Some (_, e) \<Rightarrow> noteDeclared key (ae_counts e) (ae_reason e) sc'))"

lemma decide_covered:
  assumes "option_covers cfg (calls_of (w_scopes w s) (key_for (sc_name (w_scopes w s)) oper) + 1)"
  shows "decideAndReport d s mark oper opn cfg w
    = update_scope s (noted_scope d w mark oper cfg) w"
  using assms
  by (simp add: decideAndReport_def Let_def fst_bumpCall option_covers_def noted_scope_def
      key_for_def update_scope_def)

lemma decide_scopes:
  "w_scopes (decideAndReport d s mark oper opn cfg w)
     = (w_scopes w)(s := noted_scope d w mark oper cfg (w_scopes w s))"
proof (cases "option_covers cfg (calls_of (w_scopes w s) (key_for (sc_name (w_scopes w s)) oper) + 1)")
  case True
  then show ?thesis by (simp add: decide_covered)
next
  case False
  then show ?thesis
    by (cases mark; cases "cfg_allowed cfg")
      (simp_all add: decideAndReport_def Let_def fst_bumpCall option_covers_def noted_scope_def
        region_covers_def key_for_def[symmetric] case_prod_unfold decide_lookup fun_eq_iff
        allowlist_decide_def split: option.split)
qed

lemma decide_rs:
  fixes w :: world and s :: scope_ref and oper :: op
  defines "sc \<equiv> w_scopes w s"
  defines "k \<equiv> calls_of sc (key_for (sc_name sc) oper) + 1"
  shows "w_rs (decideAndReport d s mark oper opn cfg w) =
    (if option_covers cfg k \<or> region_covers w mark \<or> list_covers d w (sc_name sc) oper k then w_rs w
     else deliver_all (d_reporters d)
       (RViolation \<lparr>v_Op = oper, v_Scope = sc_name sc, v_OpenTxs = opn, v_Call = k,
          v_AllowedCalls = declined_counts d w mark (sc_name sc) oper cfg,
          v_Stack = captureStack (d_stackDepth d) (w_callers w (w_captures w)),
          v_Attrs = sc_attrs sc @ cfg_attrs cfg, v_Time = rs_clock (w_rs w) (rs_reads (w_rs w))\<rparr>)
       ((w_rs w)\<lparr>rs_reads := Suc (rs_reads (w_rs w))\<rparr>))"
proof (cases "option_covers cfg k")
  case True
  then show ?thesis by (simp add: decide_covered k_def sc_def)
next
  case False
  then show ?thesis
    unfolding k_def sc_def
    by (cases mark; cases "cfg_allowed cfg")
      (simp_all add: decideAndReport_def Let_def fst_bumpCall option_covers_def region_covers_def
        list_covers_def list_counts_def declined_counts_def rs_emitViolation
        key_for_def[symmetric] allowlist_resolve_def allowlist_decide_def case_prod_unfold
        split: option.split)
qed

lemma decide_marks:
  "w_marks (decideAndReport d s mark oper opn cfg w) =
    (case mark of
       None \<Rightarrow> w_marks w
     | Some m \<Rightarrow>
         if option_covers cfg (calls_of (w_scopes w s) (key_for (sc_name (w_scopes w s)) oper) + 1) then w_marks w
         else (w_marks w)(m := (w_marks w m)\<lparr>am_n := am_n (w_marks w m) + 1\<rparr>))"
  by (cases mark; cases "cfg_allowed cfg")
    (simp_all add: decideAndReport_def Let_def fst_bumpCall option_covers_def case_prod_unfold
      key_for_def[symmetric] split: option.split)

lemma decide_lists:
  fixes w :: world and s :: scope_ref and oper :: op
  defines "sc \<equiv> w_scopes w s"
  defines "k \<equiv> calls_of sc (key_for (sc_name sc) oper) + 1"
  shows "w_allowlists (decideAndReport d s mark oper opn cfg w) =
    (case d_allowlist d of
       None \<Rightarrow> w_allowlists w
     | Some a \<Rightarrow>
         if option_covers cfg k \<or> region_covers w mark then w_allowlists w
         else (w_allowlists w)(a := snd (allowlist_decide (sc_name sc) oper k (w_allowlists w a))))"
  unfolding k_def sc_def
  by (cases mark; cases "cfg_allowed cfg")
    (simp_all add: decideAndReport_def Let_def fst_bumpCall option_covers_def region_covers_def
      case_prod_unfold key_for_def[symmetric] split: option.split)

lemma decide_fresh [simp]:
  "w_next_scope (decideAndReport d s mark oper opn cfg w) = w_next_scope w"
  "w_next_mark (decideAndReport d s mark oper opn cfg w) = w_next_mark w"
  by (cases mark; simp add: decideAndReport_def Let_def case_prod_unfold split: option.split)+

lemma Check_open:
  assumes "scopeAndMarkFrom c = (Some s, mark)" "0 < sc_openTxs (w_scopes w s)"
  shows "Check d c oper opts w
    = decideAndReport d s mark oper (sc_openTxs (w_scopes w s)) (appliedCheckConfig opts) w"
  using assms by (auto simp: Check_def check_def Let_def appliedCheckConfig_def)

lemma calls_of_noted:
  "calls_of (noted_scope d w mark oper cfg sc)
     = (calls_of sc)(key_for (sc_name sc) oper := calls_of sc (key_for (sc_name sc) oper) + 1)"
  by (simp add: noted_scope_def Let_def split: option.split)

lemma scope_fields_noted [simp, txn_frame]:
  "sc_name (noted_scope d w mark oper cfg sc) = sc_name sc"
  "sc_attrs (noted_scope d w mark oper cfg sc) = sc_attrs sc"
  "sc_openTxs (noted_scope d w mark oper cfg sc) = sc_openTxs sc"
  "sc_finished (noted_scope d w mark oper cfg sc) = sc_finished sc"
  "sc_marks (noted_scope d w mark oper cfg sc) = sc_marks sc"
  by (simp_all add: noted_scope_def Let_def split: option.split)

subsection \<open>Exact-call declarations over a scope's life\<close>

text \<open>The same checkpoint reached n times in a scope.\<close>

definition check_times :: "nat \<Rightarrow> detector \<Rightarrow> ctx \<Rightarrow> op \<Rightarrow> check_option list \<Rightarrow> world \<Rightarrow> world" where
  "check_times n d c oper opts w = ((\<lambda>w. Check d c oper opts w) ^^ n) w"

lemma check_times_simps [simp]:
  "check_times 0 d c oper opts w = w"
  "check_times (Suc n) d c oper opts w = Check d c oper opts (check_times n d c oper opts w)"
  by (simp_all add: check_times_def)

lemma applied_AllowInTransaction [simp]:
  "appliedCheckConfig [AllowInTransaction reason counts] =
     \<lparr>cfg_allowed = True, cfg_allowReason = reason, cfg_allowCounts = counts, cfg_attrs = []\<rparr>"
  by (simp add: appliedCheckConfig_def AllowInTransaction_def zero_config_def)

definition entry_after :: "nat \<Rightarrow> int list \<Rightarrow> string \<Rightarrow> violation_key \<Rightarrow> (violation_key \<times> call_count) list" where
  "entry_after n counts reason key =
     (if n = 0 then [] else [(key, \<lparr>cc_n = int n, cc_declared = counts, cc_reason = reason\<rparr>)])"

lemma noted_entry:
  assumes "sc_calls sc = entry_after n counts reason (key_for (sc_name sc) oper)" "counts \<noteq> []"
    "d_allowlist d = None"
  shows "noted_scope d w None oper
      \<lparr>cfg_allowed = True, cfg_allowReason = reason, cfg_allowCounts = counts, cfg_attrs = ats\<rparr> sc
    = sc\<lparr>sc_calls := entry_after (Suc n) counts reason (key_for (sc_name sc) oper)\<rparr>"
  using assms
  by (cases "n = 0") (auto simp: noted_scope_def Let_def bumpCall_def noteDeclared_def entry_after_def map_put_def)

lemma calls_entry:
  "sc_calls sc = entry_after n counts reason key \<Longrightarrow> calls_of sc key = int n"
  by (auto simp: entry_after_def calls_of_def)

lemma calls_entry_upd [simp]: "calls_of (sc\<lparr>sc_calls := entry_after n counts reason key\<rparr>) key = int n"
  by (rule calls_entry) simp

text \<open>
  The scope and the collector after n calls of a checkpoint whose option pins the counts, from
  a scope that has counted nothing.
\<close>

lemma check_times_pinned:
  fixes w :: world and n :: nat and reason :: string and oper :: op
  assumes c: "scopeAndMarkFrom c = (Some s, None)" and opn: "0 < sc_openTxs (w_scopes w s)"
    and fresh: "sc_calls (w_scopes w s) = []" and counts: "counts \<noteq> []"
    and d: "d_allowlist d = None" "d_reporters d = [CollectingReporter r]"
  defines "name \<equiv> sc_name (w_scopes w s)"
  defines "W \<equiv> check_times n d c oper [AllowInTransaction reason counts] w"
  shows "w_scopes W s = (w_scopes w s)\<lparr>sc_calls := entry_after n counts reason (key_for name oper)\<rparr>
    \<and> map (\<lambda>v. (v_Scope v, v_Op v, v_Call v, v_AllowedCalls v)) (Violations (rs_collectors (w_rs W) r))
        = map (\<lambda>v. (v_Scope v, v_Op v, v_Call v, v_AllowedCalls v)) (Violations (rs_collectors (w_rs w) r))
          @ map (\<lambda>k. (name, oper, k, counts)) [maxCount counts + 1..int n]
    \<and> StaleAllows (rs_collectors (w_rs W) r) = StaleAllows (rs_collectors (w_rs w) r)"
  unfolding W_def
proof (induction n)
  case 0
  have "[maxCount counts + 1..0] = []" using maxCount_nonneg[of counts] by simp
  with fresh show ?case by (simp add: entry_after_def)
next
  case (Suc n)
  let ?W = "check_times n d c oper [AllowInTransaction reason counts] w"
  let ?cfg = "\<lparr>cfg_allowed = True, cfg_allowReason = reason, cfg_allowCounts = counts, cfg_attrs = []\<rparr>"
  have sc: "w_scopes ?W s = (w_scopes w s)\<lparr>sc_calls := entry_after n counts reason (key_for name oper)\<rparr>"
    using Suc by blast
  then have fields: "sc_name (w_scopes ?W s) = name" "0 < sc_openTxs (w_scopes ?W s)"
    "calls_of (w_scopes ?W s) (key_for name oper) = int n"
    using opn by (simp_all add: name_def calls_entry)
  note step = Check_open[OF c fields(2), of d oper "[AllowInTransaction reason counts]", unfolded applied_AllowInTransaction]
  have "w_scopes (Check d c oper [AllowInTransaction reason counts] ?W) s
      = (w_scopes w s)\<lparr>sc_calls := entry_after (Suc n) counts reason (key_for name oper)\<rparr>"
    unfolding step decide_scopes by (simp add: noted_entry[of _ n] sc counts d name_def)
  moreover have "[maxCount counts + 1..int (Suc n)] =
      [maxCount counts + 1..int n] @ (if int (Suc n) \<le> maxCount counts then [] else [int (Suc n)])"
  proof (cases "int (Suc n) \<le> maxCount counts")
    case False
    then show ?thesis by (simp add: upto_rec2)
  qed simp
  ultimately show ?case
    using Suc counts
    by (simp add: step decide_rs fields d option_covers_def coversCalls_def region_covers_def
        list_covers_def declined_counts_def list_counts_def collector_receive_def Violations_def
        StaleAllows_def name_def)
qed

lemma shortfalls_entry:
  assumes "sc_calls sc = entry_after n counts reason (key_for (sc_name sc) oper)" "sc_marks sc = []"
    "counts \<noteq> []"
  shows "call_shortfalls marks sc =
    (if n \<noteq> 0 \<and> misses_counts counts (int n)
     then [\<lparr>st_Scope = sc_name sc, st_Op = oper, st_Reason = reason, st_Calls = int n, st_AllowedCalls = counts\<rparr>]
     else [])"
  using assms
  by (cases "n = 0")
    (auto simp: call_shortfalls_def entry_after_def key_shortfall_def misses_counts_def sortKeys_def Let_def)

lemma map_eq_empty: "map f xs = map g ys \<Longrightarrow> xs = [] \<longleftrightarrow> ys = []"
  by (cases xs) auto

lemma pinned_run:
  fixes w :: world and n :: nat and reason :: string and oper :: op
  assumes "scopeAndMarkFrom c = (Some s, None)" "0 < sc_openTxs (w_scopes w s)"
    "sc_calls (w_scopes w s) = []" "sc_marks (w_scopes w s) = []" "\<not> sc_finished (w_scopes w s)"
    "counts \<noteq> []" "d_allowlist d = None" "d_reporters d = [CollectingReporter r]"
  defines "name \<equiv> sc_name (w_scopes w s)"
  defines "w' \<equiv> finishScope d s (check_times n d c oper [AllowInTransaction reason counts] w)"
  shows "map (\<lambda>v. (v_Scope v, v_Op v, v_Call v, v_AllowedCalls v)) (Violations (rs_collectors (w_rs w') r))
      = map (\<lambda>v. (v_Scope v, v_Op v, v_Call v, v_AllowedCalls v)) (Violations (rs_collectors (w_rs w) r))
        @ map (\<lambda>k. (name, oper, k, counts)) [maxCount counts + 1..int n]
    \<and> StaleAllows (rs_collectors (w_rs w') r) = StaleAllows (rs_collectors (w_rs w) r) @
        (if n \<noteq> 0 \<and> misses_counts counts (int n)
         then [\<lparr>st_Scope = name, st_Op = oper, st_Reason = reason, st_Calls = int n, st_AllowedCalls = counts\<rparr>]
         else [])"
proof -
  define W where "W = check_times n d c oper [AllowInTransaction reason counts] w"
  note t = check_times_pinned[OF assms(1,2,3,6,7,8), of n oper reason, folded W_def name_def]
  then have sc: "w_scopes W s = (w_scopes w s)\<lparr>sc_calls := entry_after n counts reason (key_for name oper)\<rparr>"
    by blast
  then have "call_shortfalls (w_marks W) (w_scopes W s) =
    (if n \<noteq> 0 \<and> misses_counts counts (int n)
     then [\<lparr>st_Scope = name, st_Op = oper, st_Reason = reason, st_Calls = int n, st_AllowedCalls = counts\<rparr>]
     else [])"
    using shortfalls_entry[of "w_scopes W s" n counts reason oper "w_marks W"] assms(4,6)
    by (simp add: name_def)
  moreover have "StaleAllows (rs_collectors (w_rs (finishScope d s W)) r)
      = StaleAllows (rs_collectors (w_rs W) r) @ call_shortfalls (w_marks W) (w_scopes W s)"
    "Violations (rs_collectors (w_rs (finishScope d s W)) r) = Violations (rs_collectors (w_rs W) r)"
    using assms(5,8) sc
    by (simp_all add: finishScope_rs Let_def collector_delivered collector_stale StaleAllows_def
        Violations_def collector_receive_def del: deliver_reports_simps)
  ultimately show ?thesis
    using t unfolding w'_def W_def[symmetric] by simp
qed

lemma Check_not_needed: "\<not> checkNeeded d c w \<Longrightarrow> Check d c oper [] w = w"
  by (auto simp: checkNeeded_def Check_def check_def zero_config_def Let_def
      split: prod.splits option.splits)

lemma checkers_as_ops:
  "runStatementCheckers d c query w =
     reportStatementOps d c (map fst (filter snd (map (\<lambda>chk. chk query) (d_stmtCheckers d)))) w"
proof -
  have st: "run_stale_checkers d name reason query chks w =
      foldl (\<lambda>w' oper. reportStaleAllow d (stale_now name oper reason) w') w
        (map fst (filter snd (map (\<lambda>chk. chk query) chks)))" for name reason chks w
    by (induction chks arbitrary: w) (simp_all add: case_prod_unfold)
  have op: "run_open_checkers d s mark opn query chks w =
      foldl (\<lambda>w oper. decideAndReport d s mark oper opn zero_config w) w
        (map fst (filter snd (map (\<lambda>chk. chk query) chks)))" for s mark opn chks w
    by (induction chks arbitrary: w) (simp_all add: case_prod_unfold)
  show ?thesis
    by (simp add: runStatementCheckers_def reportStatementOps_def st op Let_def
        split: prod.split option.split)
qed

subsection \<open>Properties\<close>

text \<open>
  C7. The verdict of a checkpoint while transactions are open. The event is counted for its
  identity. A violation is reported, to every reporter, exactly when neither the call-site
  option nor the region nor the allowlist covers the call; it carries the call's index, every
  count that declined it in tier order, the captured stack, and the scope's attributes before
  the check's. A tier is consulted, and its own books moved, only when every earlier tier
  declined: the region counts the event unless the option covered it, and the allowlist entry
  is marked used only when neither did. No counter of open transactions moves, of this scope or
  any other.
\<close>

theorem Check_decides_by_tiers:
  assumes "scopeAndMarkFrom c = (Some s, mark)" "0 < sc_openTxs (w_scopes w s)"
  shows "let sc = w_scopes w s;
             cfg = appliedCheckConfig opts;
             key = key_for (sc_name sc) oper;
             k = calls_of sc key + 1;
             opt = option_covers cfg k;
             reg = region_covers w mark;
             v = \<lparr>v_Op = oper, v_Scope = sc_name sc, v_OpenTxs = sc_openTxs sc, v_Call = k,
                  v_AllowedCalls = declined_counts d w mark (sc_name sc) oper cfg,
                  v_Stack = captureStack (d_stackDepth d) (w_callers w (w_captures w)),
                  v_Attrs = sc_attrs sc @ cfg_attrs cfg, v_Time = rs_clock (w_rs w) (rs_reads (w_rs w))\<rparr>;
             w' = Check d c oper opts w
         in w_rs w' =
              (if opt \<or> reg \<or> list_covers d w (sc_name sc) oper k then w_rs w
               else deliver_all (d_reporters d) (RViolation v) ((w_rs w)\<lparr>rs_reads := Suc (rs_reads (w_rs w))\<rparr>))
          \<and> calls_of (w_scopes w' s) = (calls_of sc)(key := k)
          \<and> (\<forall>t. sc_openTxs (w_scopes w' t) = sc_openTxs (w_scopes w t))
          \<and> w_marks w' = (case mark of
               None \<Rightarrow> w_marks w
             | Some m \<Rightarrow> if opt then w_marks w
                         else (w_marks w)(m := (w_marks w m)\<lparr>am_n := am_n (w_marks w m) + 1\<rparr>))
          \<and> w_allowlists w' = (case d_allowlist d of
               None \<Rightarrow> w_allowlists w
             | Some a \<Rightarrow> if opt \<or> reg then w_allowlists w
                         else (w_allowlists w)(a := snd (allowlist_decide (sc_name sc) oper k (w_allowlists w a))))"
  using Check_open[OF assms]
  by (simp only: Let_def decide_rs decide_scopes decide_marks decide_lists fun_upd_same fun_upd_apply[of _ s _ t for t]
      calls_of_noted scope_fields_noted simp_thms split: if_split)

theorem Check_decides_by_tiers_witness:
  "let w = update_scope 0 (\<lambda>sc. sc\<lparr>sc_name := ''S'', sc_openTxs := 2\<rparr>) (initial_world (\<lambda>n. 7) (\<lambda>_. []));
       d = New [WithReporter [CollectingReporter 0], WithStackDepth 0];
       c = WithValue Background ScopeCtxKey (ScopeVal 0)
   in Violations (rs_collectors (w_rs (Check d c (Op ''mail'' ''m'') [AllowInTransaction ''why'' [0]] w)) 0)
     = [\<lparr>v_Op = Op ''mail'' ''m'', v_Scope = ''S'', v_OpenTxs = 2, v_Call = 1, v_AllowedCalls = [0],
         v_Stack = [], v_Attrs = [], v_Time = 7\<rparr>]"
  (is "let w = ?w; d = ?d; c = ?c in _")
proof -
  have "scopeAndMarkFrom ?c = (Some 0, None)" "0 < sc_openTxs (w_scopes ?w 0)"
    by (simp_all add: initial_world_def)
  from conjunct1[OF Check_decides_by_tiers[OF this, where d = ?d and oper = "Op ''mail'' ''m''"
        and opts = "[AllowInTransaction ''why'' [0]]", unfolded Let_def]]
  show ?thesis
    by (simp add: Let_def New_def WithReporter_def WithStackDepth_def initial_world_def new_scope_def
        calls_of_def option_covers_def region_covers_def list_covers_def appliedCheckConfig_def
        AllowInTransaction_def zero_config_def coversCalls_def maxCount_def declined_counts_def
        list_counts_def captureStack_def collector_receive_def initial_store_def new_collector_def
        Violations_def)
qed

text \<open>
  A checkpoint that runs while no transaction is open reports no violation and counts
  nothing: it reports one stale allow for the call-site option if there is one, then one for
  the region if there is one, and leaves scopes, regions and allowlists untouched.
\<close>

theorem Check_outside_transaction:
  assumes "scopeAndMarkFrom c = (Some s, mark)" "sc_openTxs (w_scopes w s) \<le> 0"
  shows "let cfg = appliedCheckConfig opts;
             name = sc_name (w_scopes w s);
             stale = (if cfg_allowed cfg then [stale_now name oper (cfg_allowReason cfg)] else [])
               @ (case mark of None \<Rightarrow> [] | Some m \<Rightarrow> [stale_now name oper (am_reason (w_marks w m))])
         in Check d c oper opts w
            = w\<lparr>w_rs := deliver_reports (d_reporters d) (map RStaleAllow stale) (w_rs w)\<rparr>"
proof -
  have "(if opts \<noteq> [] then appliedCheckConfig opts else zero_config) = appliedCheckConfig opts"
    by (simp add: appliedCheckConfig_def)
  with assms show ?thesis
    by (simp add: Check_def check_def Let_def reportStaleAllow_def emit_report_def split: option.split)
qed

theorem Check_outside_transaction_witness:
  "let w = update_scope 0 (\<lambda>sc. sc\<lparr>sc_name := ''S''\<rparr>) (initial_world (\<lambda>n. 7) (\<lambda>_. []));
       d = New [WithReporter [CollectingReporter 0]];
       c = WithValue Background ScopeCtxKey (AllowedVal 0 3)
   in StaleAllows (rs_collectors (w_rs (Check d c (Op ''mail'' ''m'') [AllowInTransaction ''why'' []] w)) 0)
     = [stale_now ''S'' (Op ''mail'' ''m'') ''why'', stale_now ''S'' (Op ''mail'' ''m'') []]"
  (is "let w = ?w; d = ?d; c = ?c in _")
proof -
  have "scopeAndMarkFrom ?c = (Some 0, Some 3)" "sc_openTxs (w_scopes ?w 0) \<le> 0"
    by (simp_all add: initial_world_def new_scope_def)
  from Check_outside_transaction[OF this, where d = ?d and oper = "Op ''mail'' ''m''"
      and opts = "[AllowInTransaction ''why'' []]"]
  show ?thesis
    by (simp add: Let_def New_def WithReporter_def initial_world_def
        appliedCheckConfig_def AllowInTransaction_def zero_config_def collector_receive_def
        initial_store_def new_collector_def StaleAllows_def)
qed

text \<open>
  The fast path of the adapters is sound: when \<^verbatim>\<open>checkNeeded\<close> says no, a checkpoint
  without options does nothing at all, for any operation.
\<close>

theorem checkNeeded_skips_only_no_ops:
  assumes "\<not> checkNeeded d c w"
  shows "Check d c oper [] w = w"
  using assms by (rule Check_not_needed)

theorem checkNeeded_skips_only_no_ops_witness:
  "Check (New []) Background (Op ''mail'' ''m'') [] (initial_world int (\<lambda>_. [])) = initial_world int (\<lambda>_. [])"
  by (rule checkNeeded_skips_only_no_ops) (simp add: checkNeeded_def New_def)

text \<open>
  Matching a prepared statement once and reporting the matched operations at each
  execution is the same as running the checkers on its text each time.
\<close>

theorem prepared_matches_equivalent:
  "runStatementCheckers d c query w =
     reportStatementOps d c (map fst (filter snd (map (\<lambda>chk. chk query) (d_stmtCheckers d)))) w"
  by (rule checkers_as_ops)

text \<open>
  C8. An exact-call declaration pins the number of calls, for a detector without an allowlist
  whose only reporter is an empty collector. A checkpoint that allows the non-empty counts
  \<open>counts\<close> is reached n times, through a context outside every allow region, in an unfinished
  scope that has counted no call yet, has no counted region and has a transaction open
  throughout: the calls reported as violations are exactly those past the largest count, in
  order and each carrying the counts. When the scope then finishes, one stale allow is reported
  exactly when n is positive, not above the largest count and not among them, with n and the
  counts; so a run is silent exactly when the number of calls is a declared one, or zero. (An
  allowlist entry or a region around the call would let calls past the largest count through.)
\<close>

theorem exact_calls_pinned:
  assumes "scopeAndMarkFrom c = (Some s, None)" "0 < sc_openTxs (w_scopes w s)"
    "sc_calls (w_scopes w s) = []" "sc_marks (w_scopes w s) = []" "\<not> sc_finished (w_scopes w s)"
    "counts \<noteq> []" "d_allowlist d = None" "d_reporters d = [CollectingReporter r]"
    "rs_collectors (w_rs w) r = new_collector"
  shows "let name = sc_name (w_scopes w s);
             w' = finishScope d s (check_times n d c oper [AllowInTransaction reason counts] w);
             col = rs_collectors (w_rs w') r in
      map (\<lambda>v. (v_Scope v, v_Op v, v_Call v, v_AllowedCalls v)) (Violations col)
        = map (\<lambda>k. (name, oper, k, counts)) [maxCount counts + 1..int n]
    \<and> StaleAllows col =
        (if n \<noteq> 0 \<and> int n \<le> maxCount counts \<and> int n \<notin> set counts
         then [\<lparr>st_Scope = name, st_Op = oper, st_Reason = reason, st_Calls = int n, st_AllowedCalls = counts\<rparr>]
         else [])
    \<and> (Violations col = [] \<and> StaleAllows col = [] \<longleftrightarrow> n = 0 \<or> int n \<in> set counts)"
proof -
  let ?col = "rs_collectors (w_rs (finishScope d s (check_times n d c oper [AllowInTransaction reason counts] w))) r"
  have r: "map (\<lambda>v. (v_Scope v, v_Op v, v_Call v, v_AllowedCalls v)) (Violations ?col)
      = map (\<lambda>k. (sc_name (w_scopes w s), oper, k, counts)) [maxCount counts + 1..int n]"
    "StaleAllows ?col = (if n \<noteq> 0 \<and> int n \<le> maxCount counts \<and> int n \<notin> set counts
         then [\<lparr>st_Scope = sc_name (w_scopes w s), st_Op = oper, st_Reason = reason, st_Calls = int n,
                st_AllowedCalls = counts\<rparr>] else [])"
    using pinned_run[OF assms(1-8), of n oper reason] assms(6,9)
    by (simp_all add: misses_counts_def new_collector_def Violations_def StaleAllows_def)
  have "Violations ?col = [] \<longleftrightarrow> [maxCount counts + 1..int n] = []"
    by (rule map_eq_empty[OF r(1)])
  then have "Violations ?col = [] \<longleftrightarrow> int n \<le> maxCount counts" by simp
  then have "Violations ?col = [] \<and> StaleAllows ?col = [] \<longleftrightarrow> n = 0 \<or> int n \<in> set counts"
    using r(2) maxCount_ge[of "int n" counts] maxCount_nonneg[of counts] by auto
  with r show ?thesis unfolding Let_def by blast
qed

theorem exact_calls_pinned_witness:
  "let w = update_scope 0 (\<lambda>sc. sc\<lparr>sc_name := ''S'', sc_openTxs := 1\<rparr>) (initial_world int (\<lambda>_. []));
       d = New [WithReporter [CollectingReporter 0]];
       c = WithValue Background ScopeCtxKey (ScopeVal 0);
       w' = finishScope d 0 (check_times 2 d c (Op ''mail'' ''m'') [AllowInTransaction ''why'' [1, 3]] w)
   in StaleAllows (rs_collectors (w_rs w') 0) =
      [\<lparr>st_Scope = ''S'', st_Op = Op ''mail'' ''m'', st_Reason = ''why'', st_Calls = 2, st_AllowedCalls = [1, 3]\<rparr>]"
  (is "let w = ?w; d = ?d; c = ?c; w' = _ in _")
proof -
  have "scopeAndMarkFrom ?c = (Some 0, None)" "0 < sc_openTxs (w_scopes ?w 0)"
    "sc_calls (w_scopes ?w 0) = []" "sc_marks (w_scopes ?w 0) = []" "\<not> sc_finished (w_scopes ?w 0)"
    "[1, 3] \<noteq> []" "d_allowlist ?d = None" "d_reporters ?d = [CollectingReporter 0]"
    "rs_collectors (w_rs ?w) 0 = new_collector"
    by (simp_all add: initial_world_def new_scope_def New_def WithReporter_def initial_store_def)
  from exact_calls_pinned[OF this, where n = 2 and oper = "Op ''mail'' ''m''" and reason = "''why''"]
  show ?thesis
    by (simp add: Let_def maxCount_def initial_world_def del: check_times_simps)
qed

text \<open>
  C38. Declared counts below one cover no call: in the setting of the exact-call property (no
  allowlist, a single empty collector, a context outside every allow region, an unfinished scope
  with a transaction open, no call counted yet and no counted region) each of the n calls of the
  checkpoint is a violation. The declaration is then not reported as stale when the scope
  finishes, however many calls ran: its total is past the largest count as soon as it was
  consulted.
\<close>

theorem counts_below_one_never_stale:
  assumes "scopeAndMarkFrom c = (Some s, None)" "0 < sc_openTxs (w_scopes w s)"
    "sc_calls (w_scopes w s) = []" "sc_marks (w_scopes w s) = []" "\<not> sc_finished (w_scopes w s)"
    "counts \<noteq> []" "d_allowlist d = None" "d_reporters d = [CollectingReporter r]"
    "rs_collectors (w_rs w) r = new_collector" "Max (set counts) < 1"
  shows "let col = rs_collectors (w_rs (finishScope d s
               (check_times n d c oper [AllowInTransaction reason counts] w))) r
         in length (Violations col) = n \<and> StaleAllows col = []"
proof -
  have "Max (insert 0 (set counts)) = max 0 (Max (set counts))" using assms(6) by simp
  then have m: "maxCount counts = 0" unfolding maxCount_Max using assms(10) by linarith
  have "length (map v_Call (Violations col)) = length (map (\<lambda>v. (v_Scope v, v_Op v, v_Call v, v_AllowedCalls v)) (Violations col))" for col
    by simp
  then show ?thesis
    using arg_cong[OF conjunct1[OF pinned_run[OF assms(1-8), of n oper reason]], of length]
      conjunct2[OF pinned_run[OF assms(1-8), of n oper reason]] assms(9) m
    by (auto simp: Let_def misses_counts_def new_collector_def Violations_def StaleAllows_def)
qed

theorem counts_below_one_never_stale_witness:
  "let w = update_scope 0 (\<lambda>sc. sc\<lparr>sc_name := ''S'', sc_openTxs := 1\<rparr>) (initial_world int (\<lambda>_. []));
       d = New [WithReporter [CollectingReporter 0]];
       c = WithValue Background ScopeCtxKey (ScopeVal 0);
       w' = finishScope d 0 (check_times 2 d c (Op ''mail'' ''m'') [AllowInTransaction ''why'' [0]] w)
   in length (Violations (rs_collectors (w_rs w') 0)) = 2 \<and> StaleAllows (rs_collectors (w_rs w') 0) = []"
  (is "let w = ?w; d = ?d; c = ?c; w' = _ in _")
proof -
  have "scopeAndMarkFrom ?c = (Some 0, None)" "0 < sc_openTxs (w_scopes ?w 0)"
    "sc_calls (w_scopes ?w 0) = []" "sc_marks (w_scopes ?w 0) = []" "\<not> sc_finished (w_scopes ?w 0)"
    "[0] \<noteq> ([] :: int list)" "d_allowlist ?d = None" "d_reporters ?d = [CollectingReporter 0]"
    "rs_collectors (w_rs ?w) 0 = new_collector" "Max (set [0]) < (1 :: int)"
    by (simp_all add: initial_world_def new_scope_def New_def WithReporter_def initial_store_def)
  from counts_below_one_never_stale[OF this, where n = 2 and oper = "Op ''mail'' ''m''" and reason = "''why''"]
  show ?thesis by (simp only: Let_def)
qed

end
