(* ===== verification/Connections.thy ===== *)
theory Connections
  imports Checks
begin

text \<open>
  Connections and the counters of open transactions. The counter of a scope is shared by every
  connection; what it is worth rests on each connection moving it exactly when the connection's
  own attribution changes. That contract is a locale here, with its consequence for any number
  of connections and any interleaving of their operations; the session and the driver's
  connection discharge it in their own theories.
\<close>

subsection \<open>What an operation does to the counters\<close>

text \<open>
  The counters of open transactions, and the changes of the world that move none: everything a
  detector does apart from opening and closing transactions.
\<close>

definition opens :: "world \<Rightarrow> scope_ref \<Rightarrow> int" where
  "opens w s = sc_openTxs (w_scopes w s)"

definition calm :: "world \<Rightarrow> world \<Rightarrow> bool" where
  "calm w w' \<longleftrightarrow> opens w' = opens w \<and> w_next_scope w' = w_next_scope w"

lemma calm_refl [simp]: "calm w w"
  by (simp add: calm_def)

lemma calm_trans: "calm w w' \<Longrightarrow> calm w' w'' \<Longrightarrow> calm w w''"
  by (simp add: calm_def)

lemma calm_decide [simp]: "calm w (decideAndReport d s mark oper opn cfg w)"
  by (simp add: calm_def opens_def fun_eq_iff decide_scopes)

lemma calm_stale [simp]: "calm w (reportStaleAllow d sa w)"
  by (simp add: calm_def opens_def fun_eq_iff)

lemma calm_check [simp]: "calm w (check d c oper opts w)"
  by (simp add: check_def Let_def case_prod_unfold split: option.split)
    (simp add: calm_def opens_def fun_eq_iff)

lemma calm_finish [simp]: "calm w (finishScope d s w)"
  by (auto simp: calm_def opens_def fun_eq_iff finishScope_scopes)
    (simp add: finishScope_def Let_def case_prod_unfold)

lemma calm_foldl: "(\<And>x w. calm w (f w x)) \<Longrightarrow> calm w (foldl f w xs)"
  by (induction xs arbitrary: w) (auto intro: calm_trans)

lemma calm_reportStatementOps [simp]: "calm w (reportStatementOps d c ops w)"
  by (auto simp: reportStatementOps_def Let_def split: prod.split option.split intro!: calm_foldl)

lemma calm_run_stale [simp]: "calm w (run_stale_checkers d name reason q chks w)"
proof (induction chks arbitrary: w)
  case (Cons chk chks)
  then show ?case by (auto simp: split: prod.split intro: calm_trans[OF calm_stale])
qed simp

lemma calm_run_open [simp]: "calm w (run_open_checkers d s mark opn q chks w)"
proof (induction chks arbitrary: w)
  case (Cons chk chks)
  then show ?case by (auto simp: split: prod.split intro: calm_trans[OF calm_decide])
qed simp

lemma calm_checkers [simp]: "calm w (runStatementCheckers d c q w)"
  by (auto simp: runStatementCheckers_def Let_def split: prod.split option.split)

lemma calm_unscoped [simp]: "calm w (reportUnscopedTx d w)"
  by (simp add: calm_def opens_def fun_eq_iff)

lemma calm_allow: "calm w (snd (AllowInTransactionHere c reason counts w))"
  by (auto simp: calm_def opens_def fun_eq_iff AllowInTransactionHere_def Let_def registerMark_def
      split: prod.split option.split)

text \<open>Creating scopes: the old counters stand, and a new one starts at zero.\<close>

definition grows :: "world \<Rightarrow> world \<Rightarrow> bool" where
  "grows w w' \<longleftrightarrow> w_next_scope w \<le> w_next_scope w'
     \<and> (\<forall>s < w_next_scope w'. opens w' s = (if s < w_next_scope w then opens w s else 0))"

lemma calm_grows: "calm w w' \<Longrightarrow> grows w w'"
  by (simp add: calm_def grows_def)

lemma StartScope_grows: "grows w (snd (StartScope d c name (map WithScopeAttrs ass) w))"
  by (auto simp: grows_def StartScope_def Let_def foldl_WithScopeAttrs opens_def new_scope_def
      split: option.split)

text \<open>A context that only refers to scopes that exist.\<close>

definition ctx_ok :: "world \<Rightarrow> ctx \<Rightarrow> bool" where
  "ctx_ok w c = (case scopeFrom c of None \<Rightarrow> True | Some s \<Rightarrow> s < w_next_scope w)"

definition tx_count :: "('c \<Rightarrow> scope_ref option) \<Rightarrow> 'c list \<Rightarrow> scope_ref \<Rightarrow> int" where
  "tx_count holds cs s = (\<Sum>c\<leftarrow>cs. of_bool (holds c = Some s))"

lemma tx_count_update:
  "i < length cs \<Longrightarrow> tx_count holds (cs[i := c']) s
     = tx_count holds cs s - of_bool (holds (cs ! i) = Some s) + of_bool (holds c' = Some s)"
  unfolding tx_count_def
proof (induction cs arbitrary: i)
  case (Cons c cs)
  then show ?case by (cases i) simp_all
qed simp

lemma tx_count_append [simp]:
  "tx_count holds (cs @ ds) s = tx_count holds cs s + tx_count holds ds s"
  by (simp add: tx_count_def)

lemma tx_count_simps [simp]:
  "tx_count holds [] s = 0"
  "tx_count holds (c # cs) s = of_bool (holds c = Some s) + tx_count holds cs s"
  by (simp_all add: tx_count_def)

lemma tx_count_bounds: "0 \<le> tx_count holds cs s \<and> tx_count holds cs s \<le> int (length cs)"
  by (induction cs) auto

lemma tx_count_filter: "tx_count holds cs s = int (length (filter (\<lambda>c. holds c = Some s) cs))"
  by (induction cs) auto

text \<open>How many connections other than the one at \<open>i\<close> have their transaction in the scope.\<close>

definition others_hold :: "('c \<Rightarrow> scope_ref option) \<Rightarrow> 'c list \<Rightarrow> nat \<Rightarrow> scope_ref \<Rightarrow> int" where
  "others_hold holds cs i s = int (length (filter (\<lambda>j. j \<noteq> i \<and> holds (cs ! j) = Some s) [0..<length cs]))"

lemma tx_count_others:
  assumes "i < length cs"
  shows "tx_count holds cs s = others_hold holds cs i s + of_bool (holds (cs ! i) = Some s)"
proof -
  let ?P = "\<lambda>j. holds (cs ! j) = Some s"
  have "length (filter (\<lambda>c. holds c = Some s) cs) = card {j. j < length cs \<and> ?P j}"
    by (rule length_filter_conv_card)
  also have "{j. j < length cs \<and> ?P j} = {j. j < length cs \<and> j \<noteq> i \<and> ?P j} \<union> (if ?P i then {i} else {})"
    using assms by auto
  also have "card \<dots> = card {j. j < length cs \<and> j \<noteq> i \<and> ?P j} + of_bool (?P i)"
    by (subst card_Un_disjoint) auto
  also have "card {j. j < length cs \<and> j \<noteq> i \<and> ?P j} = length (filter (\<lambda>j. j \<noteq> i \<and> ?P j) [0..<length cs])"
    by (subst distinct_card[symmetric]) (auto intro: arg_cong[where f = card])
  finally show ?thesis by (simp add: tx_count_filter others_hold_def)
qed

locale counted_connections =
  fixes exec :: "'a \<Rightarrow> 'c \<Rightarrow> world \<Rightarrow> 'c \<times> world"
    and ctx_of :: "'a \<Rightarrow> ctx option"
    and holds :: "'c \<Rightarrow> scope_ref option"
    and valid :: "'c \<Rightarrow> bool"
    and fresh :: "'c \<Rightarrow> bool"
  assumes exec_valid: "valid c \<Longrightarrow> valid (fst (exec a c w))"
    and exec_next: "w_next_scope (snd (exec a c w)) = w_next_scope w"
    and exec_count: "valid c \<Longrightarrow> opens (snd (exec a c w)) s
          = opens w s - of_bool (holds c = Some s) + of_bool (holds (fst (exec a c w)) = Some s)"
    and exec_holds: "valid c \<Longrightarrow> holds (fst (exec a c w)) = Some s \<Longrightarrow>
          holds c = Some s \<or> (\<exists>k. ctx_of a = Some k \<and> scopeFrom k = Some s)"
    and fresh_valid: "fresh c \<Longrightarrow> valid c"
    and fresh_holds: "fresh c \<Longrightarrow> holds c = None"
begin

inductive step :: "'c list \<times> world \<Rightarrow> 'c list \<times> world \<Rightarrow> bool" where
  connect: "fresh c \<Longrightarrow> step (cs, w) (cs @ [c], w)"
| act: "i < length cs \<Longrightarrow> (\<And>k. ctx_of a = Some k \<Longrightarrow> ctx_ok w k) \<Longrightarrow> exec a (cs ! i) w = (c', w')
    \<Longrightarrow> step (cs, w) (cs[i := c'], w')"
| elsewhere: "grows w w' \<Longrightarrow> step (cs, w) (cs, w')"

definition counted :: "'c list \<times> world \<Rightarrow> bool" where
  "counted st = (case st of (cs, w) \<Rightarrow>
     (\<forall>c\<in>set cs. valid c \<and> (\<forall>s. holds c = Some s \<longrightarrow> s < w_next_scope w))
     \<and> (\<forall>s < w_next_scope w. opens w s = tx_count holds cs s))"

lemma unheld_count:
  assumes "\<forall>c\<in>set cs. holds c \<noteq> Some s"
  shows "tx_count holds cs s = 0"
  using assms by (induction cs) auto

lemma step_counted:
  assumes "step st st'" "counted st"
  shows "counted st'"
  using assms
proof (induction rule: step.induct)
  case (connect c cs w)
  then show ?case by (auto simp: counted_def fresh_valid fresh_holds)
next
  case (act i cs a w c' w')
  have v: "valid (cs ! i)" using act by (auto simp: counted_def)
  have e: "fst (exec a (cs ! i) w) = c'" "snd (exec a (cs ! i) w) = w'" using act by simp_all
  have next_eq: "w_next_scope w' = w_next_scope w" using exec_next[of a "cs ! i" w] e by simp
  have c': "valid c'" "holds c' = Some s \<Longrightarrow> s < w_next_scope w" for s
  proof -
    show "valid c'" using exec_valid[OF v, of a w] e by simp
    assume "holds c' = Some s"
    then consider "holds (cs ! i) = Some s" | k where "ctx_of a = Some k" "scopeFrom k = Some s"
      using exec_holds[OF v, of a w s] e by auto
    then show "s < w_next_scope w"
    proof cases
      case 1
      then show ?thesis using act by (auto simp: counted_def)
    next
      case 2
      then show ?thesis using act(2)[of k] by (auto simp: ctx_ok_def)
    qed
  qed
  have "opens w' s = tx_count holds (cs[i := c']) s" if "s < w_next_scope w" for s
    using exec_count[OF v, of a w s] e that act by (simp add: counted_def tx_count_update)
  moreover have "valid c \<and> (\<forall>s. holds c = Some s \<longrightarrow> s < w_next_scope w)" if "c \<in> set (cs[i := c'])" for c
    using that act.prems c' set_update_subset_insert[of cs i c'] by (auto simp: counted_def)
  ultimately show ?case by (simp add: counted_def next_eq)
next
  case (elsewhere w w' cs)
  then have held: "\<forall>c\<in>set cs. valid c \<and> (\<forall>s. holds c = Some s \<longrightarrow> s < w_next_scope w)"
    and old: "\<forall>s < w_next_scope w. opens w s = tx_count holds cs s"
    and g: "w_next_scope w \<le> w_next_scope w'"
      "\<And>s. s < w_next_scope w' \<Longrightarrow> opens w' s = (if s < w_next_scope w then opens w s else 0)"
    by (simp_all add: counted_def grows_def)
  have "opens w' s = tx_count holds cs s" if "s < w_next_scope w'" for s
  proof (cases "s < w_next_scope w")
    case False
    then have "\<forall>c\<in>set cs. holds c \<noteq> Some s" using held by blast
    with unheld_count g(2)[OF that] False show ?thesis by simp
  qed (use g(2)[OF that] old in simp)
  moreover have "valid c \<and> (\<forall>s. holds c = Some s \<longrightarrow> s < w_next_scope w')" if "c \<in> set cs" for c
    using held that g(1) by (auto intro: less_le_trans)
  ultimately show ?case by (simp add: counted_def)
qed

lemma reach_counted: "step\<^sup>*\<^sup>* st st' \<Longrightarrow> counted st \<Longrightarrow> counted st'"
  by (induction rule: rtranclp_induct) (auto intro: step_counted)

lemma step_keeps: "step st st' \<Longrightarrow>
    length (fst st) \<le> length (fst st') \<and> w_next_scope (snd st) \<le> w_next_scope (snd st')"
proof (induction rule: step.induct)
  case (act i cs a w c' w')
  then show ?case using exec_next[of a "cs ! i" w] by simp
qed (simp_all add: grows_def)

lemma steps_keep: "step\<^sup>*\<^sup>* st st' \<Longrightarrow>
    length (fst st) \<le> length (fst st') \<and> w_next_scope (snd st) \<le> w_next_scope (snd st')"
  by (induction rule: rtranclp_induct) (auto dest: step_keeps)

lemma counted_others:
  assumes "counted (cs, w)" "i < length cs" "s < w_next_scope w"
  shows "opens w s = others_hold holds cs i s + of_bool (holds (cs ! i) = Some s)"
  using assms tx_count_others[OF assms(2), of holds s] by (simp add: counted_def)

lemma counted_connection:
  assumes "counted (cs, w)" "i < length cs"
  shows "valid (cs ! i)" "holds (cs ! i) = Some s \<Longrightarrow> s < w_next_scope w"
  using assms nth_mem[of i cs] by (auto simp: counted_def)

lemma counted_start: "w_next_scope w = 0 \<Longrightarrow> counted ([], w)"
  by (simp add: counted_def)

end

end
