(* ===== verification/Session.thy ===== *)
theory Session
  imports Connections
begin

text \<open>
  The transaction-attribution state machine of one connection (session.go). The session's
  detector is an argument. Statements are observed with the context that carried them; what
  they do to the connection and the world is explicit state passing.
\<close>

record session =
  se_inTx :: bool
  se_txScope :: "scope_ref option"

definition NewSession :: session where
  "NewSession = \<lparr>se_inTx = False, se_txScope = None\<rparr>"

definition add_openTxs :: "scope_ref \<Rightarrow> int \<Rightarrow> world \<Rightarrow> world" where
  "add_openTxs s n w = update_scope s (\<lambda>sc. sc\<lparr>sc_openTxs := sc_openTxs sc + n\<rparr>) w"

definition openTx :: "detector \<Rightarrow> ctx \<Rightarrow> session \<Rightarrow> world \<Rightarrow> session \<times> world" where
  "openTx d c se w =
     (let se = se\<lparr>se_inTx := True, se_txScope := scopeFrom c\<rparr> in
      case se_txScope se of
        Some s \<Rightarrow> (se, add_openTxs s 1 w)
      | None \<Rightarrow> (se, reportUnscopedTx d w))"

definition closeTx :: "session \<Rightarrow> world \<Rightarrow> session \<times> world" where
  "closeTx se w =
     (if \<not> se_inTx se then (se, w)
      else
        (let se = se\<lparr>se_inTx := False\<rparr> in
         case se_txScope se of
           Some s \<Rightarrow> (se\<lparr>se_txScope := None\<rparr>, add_openTxs s (- 1) w)
         | None \<Rightarrow> (se, w)))"

definition db_op :: "string \<Rightarrow> op" where
  "db_op query = Op ''db'' (crossConnOpName query)"

definition reportIfCrossConn :: "detector \<Rightarrow> ctx \<Rightarrow> string \<Rightarrow> session \<Rightarrow> world \<Rightarrow> world" where
  "reportIfCrossConn d c query se w =
     (case scopeAndMarkFrom c of
        (None, _) \<Rightarrow> w
      | (Some sc, mark) \<Rightarrow>
          (let total = sc_openTxs (w_scopes w sc);
               self = (if se_inTx se \<and> se_txScope se = Some sc then 1 else 0);
               foreign = total - self
           in if foreign \<le> 0 then
                (case mark of
                   None \<Rightarrow> w
                 | Some m \<Rightarrow>
                     if total = 0 then
                       reportStaleAllow d (stale_now (sc_name (w_scopes w sc)) (db_op query) (am_reason (w_marks w m))) w
                     else w)
              else decideAndReport d sc mark (db_op query) foreign zero_config w))"

fun observeKind :: "detector \<Rightarrow> ctx \<Rightarrow> string \<Rightarrow> statement_kind \<Rightarrow> session \<Rightarrow> world \<Rightarrow> session \<times> world" where
  "observeKind d c query KindBegin se w = (if \<not> se_inTx se then openTx d c se w else (se, w))"
| "observeKind d c query KindCommit se w = closeTx se w"
| "observeKind d c query KindRollback se w = closeTx se w"
| "observeKind d c query KindWrite se w = (se, reportIfCrossConn d c query se w)"
| "observeKind d c query _ se w = (se, w)"

definition Observe :: "detector \<Rightarrow> ctx \<Rightarrow> string \<Rightarrow> session \<Rightarrow> world \<Rightarrow> session \<times> world" where
  "Observe d c query se w =
     (case observeKind d c query (d_classify d query) se w of
        (se, w) \<Rightarrow> (se, if d_stmtCheckers d \<noteq> [] then runStatementCheckers d c query w else w))"

definition BeginTx :: "detector \<Rightarrow> ctx \<Rightarrow> session \<Rightarrow> world \<Rightarrow> session \<times> world" where
  "BeginTx d c se w = (case closeTx se w of (se, w) \<Rightarrow> openTx d c se w)"

definition EndTx :: "session \<Rightarrow> world \<Rightarrow> session \<times> world" where
  "EndTx se w = closeTx se w"

subsection \<open>What an operation does to the counters\<close>

lemma calm_crossConn [simp]: "calm w (reportIfCrossConn d c q se w)"
  by (auto simp: reportIfCrossConn_def Let_def split: prod.split option.split)

lemma opens_add [simp]: "opens (add_openTxs s n w) = (opens w)(s := opens w s + n)"
  by (simp add: add_openTxs_def opens_def fun_eq_iff)

lemma next_add [simp]: "w_next_scope (add_openTxs s n w) = w_next_scope w"
  by (simp add: add_openTxs_def)

text \<open>The scope a session's transaction is attributed to, and the fields' invariant.\<close>

definition session_holds :: "session \<Rightarrow> scope_ref option" where
  "session_holds se = (if se_inTx se then se_txScope se else None)"

definition session_valid :: "session \<Rightarrow> bool" where
  "session_valid se \<longleftrightarrow> se_inTx se \<or> se_txScope se = None"

lemma NewSession_simps [simp]: "session_valid NewSession" "session_holds NewSession = None"
  by (simp_all add: NewSession_def session_valid_def session_holds_def)

lemma openTx_effect:
  "fst (openTx d c se w) = \<lparr>se_inTx = True, se_txScope = scopeFrom c\<rparr>"
  "opens (snd (openTx d c se w)) s = opens w s + of_bool (scopeFrom c = Some s)"
  "w_next_scope (snd (openTx d c se w)) = w_next_scope w"
  using calm_unscoped[of w d] by (cases se; auto simp: openTx_def Let_def calm_def split: option.split)+

lemma closeTx_effect:
  assumes "session_valid se"
  shows "fst (closeTx se w) = NewSession"
    "opens (snd (closeTx se w)) s = opens w s - of_bool (session_holds se = Some s)"
  using assms
  by (cases se; auto simp: closeTx_def Let_def NewSession_def session_valid_def session_holds_def
      split: option.split)+

lemma next_closeTx [simp]: "w_next_scope (snd (closeTx se w)) = w_next_scope w"
  by (simp add: closeTx_def Let_def split: option.split)

datatype session_action = AObserve ctx string | ABeginTx ctx | AEndTx

fun session_exec :: "detector \<Rightarrow> session_action \<Rightarrow> session \<Rightarrow> world \<Rightarrow> session \<times> world" where
  "session_exec d (AObserve c query) se w = Observe d c query se w"
| "session_exec d (ABeginTx c) se w = BeginTx d c se w"
| "session_exec d AEndTx se w = EndTx se w"

fun session_ctx :: "session_action \<Rightarrow> ctx option" where
  "session_ctx (AObserve c query) = Some c"
| "session_ctx (ABeginTx c) = Some c"
| "session_ctx AEndTx = None"

text \<open>
  The specification of one connection: outside a transaction (\<open>None\<close>), or inside one that is
  attributed to a scope or to none.
\<close>

type_synonym tx_state = "scope_ref option option"

definition tx_state :: "session \<Rightarrow> tx_state" where
  "tx_state se = (if se_inTx se then Some (se_txScope se) else None)"

fun tx_spec :: "statement_kind \<Rightarrow> ctx \<Rightarrow> tx_state \<Rightarrow> tx_state" where
  "tx_spec KindBegin c None = Some (scopeFrom c)"
| "tx_spec KindCommit c st = None"
| "tx_spec KindRollback c st = None"
| "tx_spec _ c st = st"

definition tx_holds :: "tx_state \<Rightarrow> scope_ref option" where
  "tx_holds st = (case st of None \<Rightarrow> None | Some s \<Rightarrow> s)"

lemma session_holds_state: "session_holds se = tx_holds (tx_state se)"
  by (simp add: session_holds_def tx_holds_def tx_state_def)

lemma observeKind_spec:
  assumes "session_valid se"
  shows "session_valid (fst (observeKind d c q kind se w))"
    "tx_state (fst (observeKind d c q kind se w)) = tx_spec kind c (tx_state se)"
    "opens (snd (observeKind d c q kind se w)) s = opens w s - of_bool (session_holds se = Some s)
        + of_bool (session_holds (fst (observeKind d c q kind se w)) = Some s)"
    "w_next_scope (snd (observeKind d c q kind se w)) = w_next_scope w"
proof -
  have cross: "opens (reportIfCrossConn d c q se w) = opens w"
    "w_next_scope (reportIfCrossConn d c q se w) = w_next_scope w"
    using calm_crossConn[of w d c q se] by (simp_all add: calm_def)
  note ops = openTx_effect closeTx_effect[OF assms] cross
  show "session_valid (fst (observeKind d c q kind se w))"
    using assms by (cases kind) (simp_all add: ops session_valid_def NewSession_def)
  show "tx_state (fst (observeKind d c q kind se w)) = tx_spec kind c (tx_state se)"
    by (cases kind) (simp_all add: ops tx_state_def NewSession_def)
  show "w_next_scope (snd (observeKind d c q kind se w)) = w_next_scope w"
    by (cases kind) (simp_all add: ops)
  show "opens (snd (observeKind d c q kind se w)) s = opens w s - of_bool (session_holds se = Some s)
        + of_bool (session_holds (fst (observeKind d c q kind se w)) = Some s)"
    by (cases kind) (simp_all add: ops, simp_all add: session_holds_def NewSession_def)
qed

lemma Observe_parts:
  "fst (Observe d c q se w) = fst (observeKind d c q (d_classify d q) se w)"
  "calm (snd (observeKind d c q (d_classify d q) se w)) (snd (Observe d c q se w))"
  by (simp_all add: Observe_def case_prod_unfold)

interpretation sess: counted_connections "session_exec d" session_ctx session_holds session_valid
  "\<lambda>se. se = NewSession"
  for d
proof
  fix a :: session_action and se :: session and w :: world and s :: scope_ref
  show "w_next_scope (snd (session_exec d a se w)) = w_next_scope w"
  proof (cases a)
    case (AObserve c q)
    have "w_next_scope (snd (observeKind d c q (d_classify d q) se w)) = w_next_scope w"
      using calm_crossConn[of w d c q se]
      by (cases "d_classify d q") (simp_all add: openTx_effect calm_def)
    with Observe_parts(2)[of d c q se w] AObserve show ?thesis by (simp add: calm_def)
  qed (simp_all add: BeginTx_def EndTx_def case_prod_unfold openTx_effect)
  assume v: "session_valid se"
  note close = closeTx_effect[OF v]
  show "session_valid (fst (session_exec d a se w))"
  proof (cases a)
    case (AObserve c q)
    then show ?thesis by (simp add: Observe_parts observeKind_spec(1)[OF v])
  qed (simp_all add: BeginTx_def EndTx_def case_prod_unfold openTx_effect close, simp add: session_valid_def)
  show "opens (snd (session_exec d a se w)) s = opens w s - of_bool (session_holds se = Some s)
      + of_bool (session_holds (fst (session_exec d a se w)) = Some s)"
  proof (cases a)
    case (AObserve c q)
    with observeKind_spec(3)[OF v, of d c q "d_classify d q" w s] Observe_parts[of d c q se w]
    show ?thesis by (simp add: calm_def)
  qed (simp_all add: BeginTx_def EndTx_def case_prod_unfold openTx_effect close, simp add: session_holds_def)
  assume "session_holds (fst (session_exec d a se w)) = Some s"
  then show "session_holds se = Some s \<or> (\<exists>k. session_ctx a = Some k \<and> scopeFrom k = Some s)"
  proof (cases a)
    case (AObserve c q)
    with \<open>session_holds (fst (session_exec d a se w)) = Some s\<close> show ?thesis
      using observeKind_spec(2)[OF v, of d c q "d_classify d q" w]
      by (cases "d_classify d q"; cases "tx_state se")
        (auto simp: Observe_parts session_holds_state tx_holds_def)
  next
    case (ABeginTx c)
    with \<open>session_holds (fst (session_exec d a se w)) = Some s\<close> show ?thesis
      by (auto simp: BeginTx_def case_prod_unfold openTx_effect session_holds_def)
  next
    case AEndTx
    with \<open>session_holds (fst (session_exec d a se w)) = Some s\<close> show ?thesis
      by (simp add: EndTx_def close)
  qed
qed simp_all

subsection \<open>Any number of sessions, in any interleaving\<close>

text \<open>
  The steps of a program that shares one detector: connections are opened, each connection
  observes statements and transitions, and anyone starts and finishes scopes, derives allow
  regions and runs checkpoints. A context may only refer to a scope that was started.
\<close>

type_synonym sessions = "session list \<times> world"

inductive session_step :: "detector \<Rightarrow> sessions \<Rightarrow> sessions \<Rightarrow> bool" for d where
  ss_new: "session_step d (ss, w) (ss @ [NewSession], w)"
| ss_observe: "i < length ss \<Longrightarrow> ctx_ok w c \<Longrightarrow> Observe d c query (ss ! i) w = (se, w')
    \<Longrightarrow> session_step d (ss, w) (ss[i := se], w')"
| ss_begin: "i < length ss \<Longrightarrow> ctx_ok w c \<Longrightarrow> BeginTx d c (ss ! i) w = (se, w')
    \<Longrightarrow> session_step d (ss, w) (ss[i := se], w')"
| ss_end: "i < length ss \<Longrightarrow> EndTx (ss ! i) w = (se, w') \<Longrightarrow> session_step d (ss, w) (ss[i := se], w')"
| ss_start: "StartScope d c name (map WithScopeAttrs ass) w = (cr, w') \<Longrightarrow> session_step d (ss, w) (ss, w')"
| ss_finish: "session_step d (ss, w) (ss, finishScope d s w)"
| ss_allow: "AllowInTransactionHere c reason counts w = (c', w') \<Longrightarrow> session_step d (ss, w) (ss, w')"
| ss_check: "session_step d (ss, w) (ss, Check d c oper opts w)"

inductive_cases session_stepE: "session_step d (ss, w) st'"

definition session_reach :: "detector \<Rightarrow> sessions \<Rightarrow> bool" where
  "session_reach d st \<longleftrightarrow> (\<exists>clock callers. (session_step d)\<^sup>*\<^sup>* ([], initial_world clock callers) st)"

lemma session_step_simulated: "session_step d st st' \<Longrightarrow> sess.step d st st'"
proof (induction rule: session_step.induct)
  case (ss_new ss w)
  show ?case by (rule sess.connect) simp
next
  case (ss_observe i ss w c query se w')
  then show ?case
    by (intro sess.act[where a = "AObserve c query"]) simp_all
next
  case (ss_begin i ss w c se w')
  then show ?case
    by (intro sess.act[where a = "ABeginTx c"]) simp_all
next
  case (ss_end i ss w se w')
  then show ?case
    by (intro sess.act[where a = AEndTx]) simp_all
next
  case (ss_start c name ass w cr w' ss)
  then show ?case using StartScope_grows[of w d c name ass] by (auto intro: sess.elsewhere)
next
  case (ss_finish ss w s)
  show ?case by (intro sess.elsewhere calm_grows) simp
next
  case (ss_allow c reason counts w c' w' ss)
  then show ?case
    using calm_grows[OF calm_allow[of w c reason counts]] by (auto intro: sess.elsewhere)
next
  case (ss_check ss w c oper opts)
  show ?case unfolding Check_def by (intro sess.elsewhere calm_grows) simp
qed

lemma session_reach_counted:
  assumes "session_reach d st"
  shows "sess.counted st"
proof -
  obtain clock callers where r: "(session_step d)\<^sup>*\<^sup>* ([], initial_world clock callers) st"
    using assms by (auto simp: session_reach_def)
  have "(sess.step d)\<^sup>*\<^sup>* ([], initial_world clock callers) st"
    using r by (induction rule: rtranclp_induct) (auto intro: rtranclp.rtrancl_into_rtrancl session_step_simulated)
  then show ?thesis by (rule sess.reach_counted) (simp add: sess.counted_start initial_world_def)
qed

lemma session_reach_opens:
  assumes "session_reach d (ss, w)" "s < w_next_scope w"
  shows "opens w s = tx_count session_holds ss s"
  using session_reach_counted[OF assms(1)] assms(2) by (simp add: sess.counted_def)

lemma session_reach_step: "session_reach d st \<Longrightarrow> session_step d st st' \<Longrightarrow> session_reach d st'"
  by (auto simp: session_reach_def intro: rtranclp.rtrancl_into_rtrancl)

lemma session_reach_initial: "session_reach d ([], initial_world clock callers)"
  by (auto simp: session_reach_def)

subsection \<open>Properties\<close>

text \<open>
  C5. In every reachable state, the open-transaction counter of every scope is the number of
  connections whose current transaction is attributed to it; so it is never negative, never
  exceeds the number of connections, and no interleaving of begins, commits, duplicate or
  missing closes, scope finishes and checkpoints makes it drift.
\<close>

theorem open_counter_exact:
  assumes "session_reach d (ss, w)" "s < w_next_scope w"
  shows "sc_openTxs (w_scopes w s) = int (length (filter (\<lambda>se. session_holds se = Some s) ss))
    \<and> 0 \<le> sc_openTxs (w_scopes w s) \<and> sc_openTxs (w_scopes w s) \<le> int (length ss)"
  using session_reach_opens[OF assms] tx_count_bounds[of session_holds ss s]
  by (simp add: opens_def tx_count_filter)

text \<open>
  C21. One connection follows the transaction life cycle: a textual BEGIN opens a transaction
  attributed to the statement's scope only when none is open, COMMIT and ROLLBACK end it
  whatever opened it, no other statement changes it, \<^verbatim>\<open>BeginTx\<close> replaces it and \<^verbatim>\<open>EndTx\<close>
  ends it, idempotently.
\<close>

theorem session_follows_life_cycle:
  assumes "session_valid se"
  shows "tx_state (fst (Observe d c query se w)) = tx_spec (d_classify d query) c (tx_state se)
    \<and> tx_state (fst (BeginTx d c se w)) = Some (scopeFrom c)
    \<and> tx_state (fst (EndTx se w)) = None
    \<and> EndTx (fst (EndTx se w)) w' = (fst (EndTx se w), w')"
  using observeKind_spec(2)[OF assms, of d c query "d_classify d query" w]
  by (simp add: Observe_parts BeginTx_def EndTx_def case_prod_unfold openTx_effect closeTx_effect[OF assms])
    (simp add: tx_state_def NewSession_def closeTx_def)

theorem session_follows_life_cycle_witness:
  "let d = New [WithClassifier (\<lambda>q. KindBegin)];
       w = initial_world int (\<lambda>_. [])
   in tx_state (fst (Observe d (WithValue Background ScopeCtxKey (ScopeVal 0)) ''BEGIN'' NewSession w)) = Some (Some 0)"
  (is "let d = ?d; w = ?w in _")
proof -
  from conjunct1[OF session_follows_life_cycle[OF NewSession_simps(1), of ?d
        "WithValue Background ScopeCtxKey (ScopeVal 0)" "''BEGIN''" ?w]]
  have "tx_state (fst (Observe ?d (WithValue Background ScopeCtxKey (ScopeVal 0)) ''BEGIN'' NewSession ?w))
      = tx_spec (d_classify ?d ''BEGIN'') (WithValue Background ScopeCtxKey (ScopeVal 0)) (tx_state NewSession)" .
  moreover have "d_classify ?d ''BEGIN'' = KindBegin" by (simp add: New_def WithClassifier_def)
  moreover have "tx_state NewSession = None" by (simp add: tx_state_def NewSession_def)
  ultimately show ?thesis by (simp add: scopeFrom_fst Let_def)
qed

text \<open>A small run: one scope, two connections, the first with a transaction in the scope.\<close>

definition demo_ctx :: ctx where
  "demo_ctx = WithValue Background ScopeCtxKey (ScopeVal 0)"

definition demo_world :: "detector \<Rightarrow> world" where
  "demo_world d = add_openTxs 0 1 (snd (StartScope d Background ''S'' [] (initial_world int (\<lambda>_. []))))"

definition demo_sessions :: "session list" where
  "demo_sessions = [\<lparr>se_inTx = True, se_txScope = Some 0\<rparr>, NewSession]"

lemma demo_world_simps [simp]:
  assumes "d_attrsFunc d = None"
  shows "w_next_scope (demo_world d) = 1"
    "w_scopes (demo_world d) 0 = (new_scope ''S'')\<lparr>sc_openTxs := 1\<rparr>"
  using assms by (simp_all add: demo_world_def StartScope_def Let_def initial_world_def add_openTxs_def new_scope_def)

lemma scopeFrom_demo [simp]: "scopeFrom demo_ctx = Some 0" "scopeAndMarkFrom demo_ctx = (Some 0, None)"
  by (simp_all add: demo_ctx_def scopeFrom_fst)

lemma demo_reach: "session_reach d (demo_sessions, demo_world d)"
proof -
  let ?w0 = "initial_world int (\<lambda>_. [])"
  let ?w1 = "snd (StartScope d Background ''S'' [] ?w0)"
  have "session_reach d ([], ?w1)"
    by (rule session_reach_step[OF session_reach_initial[of d int "\<lambda>_. []"]
          ss_start[of d Background "''S''" "[]" ?w0 "fst (StartScope d Background ''S'' [] ?w0)"]]) simp
  then have "session_reach d ([NewSession, NewSession], ?w1)"
    using session_reach_step[OF session_reach_step[OF _ ss_new] ss_new] by fastforce
  moreover have "BeginTx d demo_ctx NewSession ?w1 = (\<lparr>se_inTx = True, se_txScope = Some 0\<rparr>, demo_world d)"
    by (simp add: BeginTx_def closeTx_def NewSession_def openTx_def demo_world_def)
  moreover have "ctx_ok ?w1 demo_ctx"
    by (simp add: ctx_ok_def StartScope_def Let_def initial_world_def)
  ultimately have "session_reach d ([NewSession, NewSession][0 := \<lparr>se_inTx = True, se_txScope = Some 0\<rparr>], demo_world d)"
    by (intro session_reach_step[OF _ ss_begin]) auto
  then show ?thesis by (simp add: demo_sessions_def)
qed

theorem open_counter_exact_witness:
  "sc_openTxs (w_scopes (demo_world (New [])) 0) = 1"
  using open_counter_exact[of "New []" demo_sessions "demo_world (New [])" 0] demo_reach[of "New []"]
  by (simp add: New_def demo_sessions_def session_holds_def NewSession_def)

text \<open>
  C6. The cross-connection verdict. In a reachable state, a write observed on a connection with
  a scope's context is judged first as a write: it counts as a side effect exactly when some
  \<^emph>\<open>other\<close> connection has a transaction open in that scope, and the reported number of open
  transactions is how many others do; the connection's own transaction never counts here. With
  no transaction open anywhere in the scope a write under an allow region reports the region as
  stale; when only the connection's own transaction is open this judgement is silent. The
  statement checkers the detector has registered, when there are any, then run on the statement
  in the world the verdict left, and what they match is checked as by any checkpoint, the
  connection's own transaction included; without checkers the verdict is all that happens. The
  connection's state never changes.
\<close>

theorem cross_connection_verdict:
  assumes "session_reach d (ss, w)" "i < length ss" "scopeAndMarkFrom c = (Some s, mark)"
    "s < w_next_scope w" "d_classify d query = KindWrite"
  shows "let others = int (length (filter (\<lambda>j. j \<noteq> i \<and> session_holds (ss ! j) = Some s) [0..<length ss]));
             own = (session_holds (ss ! i) = Some s);
             judged =
               (if others > 0 then decideAndReport d s mark (db_op query) others zero_config w
                else case mark of
                       None \<Rightarrow> w
                     | Some m \<Rightarrow>
                         if own then w
                         else reportStaleAllow d (stale_now (sc_name (w_scopes w s)) (db_op query) (am_reason (w_marks w m))) w)
         in Observe d c query (ss ! i) w =
      (ss ! i, if d_stmtCheckers d = [] then judged else runStatementCheckers d c query judged)"
proof -
  have "sess.counted (ss, w)" by (rule session_reach_counted[OF assms(1)])
  note own = sess.counted_connection(1)[OF this assms(2)] and total = sess.counted_others[OF this assms(2,4)]
  have "(se_inTx (ss ! i) \<and> se_txScope (ss ! i) = Some s) = (session_holds (ss ! i) = Some s)"
    using own by (simp add: session_holds_def session_valid_def)
  with total assms(3,5) show ?thesis
    by (auto simp: Observe_def reportIfCrossConn_def Let_def opens_def others_hold_def split: option.split)
qed

theorem cross_connection_verdict_witness:
  "let d = New [WithClassifier (\<lambda>q. KindWrite), WithReporter [CollectingReporter 0]];
       w = snd (Observe d demo_ctx ''DELETE FROM t'' NewSession (demo_world d))
   in map (\<lambda>v. (v_Scope v, v_OpenTxs v)) (Violations (rs_collectors (w_rs w) 0)) = [(''S'', 1)]"
  (is "let d = ?d; w = _ in _")
proof -
  have "session_reach ?d (demo_sessions, demo_world ?d)" by (rule demo_reach)
  moreover have "d_attrsFunc ?d = None" "d_classify ?d ''DELETE FROM t'' = KindWrite" "d_stmtCheckers ?d = []"
    "d_reporters ?d = [CollectingReporter 0]" "d_allowlist ?d = None"
    by (simp_all add: New_def WithClassifier_def WithReporter_def)
  moreover have "rs_collectors (w_rs (demo_world ?d)) 0 = new_collector"
    by (simp add: demo_world_def add_openTxs_def StartScope_def Let_def report_nested_def initial_world_def
        scopeFrom_fst initial_store_def)
  ultimately show ?thesis
    using cross_connection_verdict[of ?d demo_sessions "demo_world ?d" 1 demo_ctx 0 None "''DELETE FROM t''"]
    by (simp add: demo_sessions_def session_holds_def NewSession_def Let_def decide_rs option_covers_def
        region_covers_def list_covers_def zero_config_def collector_receive_def Violations_def
        new_collector_def new_scope_def upt_rec)
qed

text \<open>Ending the transaction of every connection.\<close>

fun EndAll :: "session list \<Rightarrow> world \<Rightarrow> session list \<times> world" where
  "EndAll [] w = ([], w)"
| "EndAll (se # ss) w =
     (case EndTx se w of (se', w1) \<Rightarrow> case EndAll ss w1 of (ss', w2) \<Rightarrow> (se' # ss', w2))"

lemma EndAll_opens:
  "\<forall>se\<in>set ss. session_valid se \<Longrightarrow>
     opens (snd (EndAll ss w)) s = opens w s - tx_count session_holds ss s"
proof (induction ss arbitrary: w)
  case (Cons se ss)
  then have "session_valid se" by simp
  from Cons closeTx_effect(2)[OF this, of w s] show ?case
    by (simp add: case_prod_unfold EndTx_def)
qed simp

text \<open>
  C22. Tearing every connection down drains every counter: after \<^verbatim>\<open>EndTx\<close> on each connection
  of a reachable state, no scope has an open transaction, so no stuck counter poisons later
  checkpoints.
\<close>

theorem teardown_drains_counters:
  assumes "session_reach d (ss, w)" "s < w_next_scope w"
  shows "sc_openTxs (w_scopes (snd (EndAll ss w)) s) = 0"
proof -
  have "\<forall>se\<in>set ss. session_valid se"
    using session_reach_counted[OF assms(1)] by (simp add: sess.counted_def)
  from EndAll_opens[OF this, of w s] session_reach_opens[OF assms] show ?thesis
    by (simp add: opens_def)
qed

theorem teardown_drains_counters_witness:
  "sc_openTxs (w_scopes (snd (EndAll demo_sessions (demo_world (New [])))) 0) = 0"
  by (rule teardown_drains_counters[OF demo_reach]) (simp add: New_def)

end
