(* ===== verification/Concurrent.thy ===== *)
theory Concurrent
  imports Session
begin

text \<open>
  Goroutines. A checkpoint, a session's verdict on a write and the end of a scope are not
  atomic: between two accesses to shared memory any other goroutine may run. Here
  \<^verbatim>\<open>check\<close> (check.go), \<^verbatim>\<open>reportIfCrossConn\<close> (session.go) and \<^verbatim>\<open>finishScope\<close> (detector.go)
  are cut at those accesses. A stage is a program point with the local variables
  that are live there; one step is one atomic access (the load of \<^verbatim>\<open>openTxs\<close>, a section under
  \<^verbatim>\<open>callMu\<close>, the \<^verbatim>\<open>Add\<close> on a region, \<^verbatim>\<open>Allowlist.decide\<close> under its mutex, the
  compare-and-swap of \<^verbatim>\<open>finished\<close>, one reporter's turn up to the end of its critical section)
  with the local computation around it.
  A schedule chooses who moves; the driver's side is there as changes of a scope's counter.
  The properties tie this to the atomic operations of the other theories: a goroutine that
  runs alone does what they do, and what the exact-call accounting promises does not depend on
  the schedule.
\<close>

subsection \<open>Stages of a checkpoint\<close>

datatype verdict = NoScope | NotOpen | Suppressed int | Reported int

datatype check_stage =
    CEntered
  | CInside scope_ref "mark_ref option" int
  | CCounted scope_ref "mark_ref option" int int
  | CRegion scope_ref "mark_ref option" int int "int list"
  | CList scope_ref int int "int list"
  | CNote scope_ref int int "int list" allow_decision
  | CEmit scope_ref int int "int list"
  | CDeliver report "reporter list" check_stage
  | CReturned verdict
  | CWriting bool

definition deliver_one :: "reporter \<Rightarrow> report \<Rightarrow> world \<Rightarrow> world" where
  "deliver_one rep r w = w\<lparr>w_rs := (if implements rep r then deliver rep r (w_rs w) else w_rs w)\<rparr>"

text \<open>
  One reporter's turn, up to the end of its critical section: a wrapper decides under its mutex
  and leaves the reporter it wraps to be called afterwards, when others may have moved.
\<close>

fun hand_over :: "reporter \<Rightarrow> report \<Rightarrow> world \<Rightarrow> reporter list \<times> world" where
  "hand_over (BaselineReporter b nxt) r w =
     (case baseline_pass b r (w_rs w) of (ok, st) \<Rightarrow> (if ok then [nxt] else [], w\<lparr>w_rs := st\<rparr>))"
| "hand_over (ThrottlingReporter t nxt) r w =
     (if \<not> implements nxt r then ([], w)
      else case throttle_pass t r (w_rs w) of (ok, st) \<Rightarrow> (if ok then [nxt] else [], w\<lparr>w_rs := st\<rparr>))"
| "hand_over rep r w = ([], deliver_one rep r w)"

definition config_of :: "check_option list \<Rightarrow> check_config" where
  "config_of opts = (if opts \<noteq> [] then appliedCheckConfig opts else zero_config)"

lemma config_of_Nil [simp]: "config_of [] = zero_config" "\<not> cfg_allowed zero_config"
  by (simp_all add: config_of_def zero_config_def)

definition scope_key :: "world \<Rightarrow> scope_ref \<Rightarrow> op \<Rightarrow> violation_key" where
  "scope_key w s oper = ViolationKey (sc_name (w_scopes w s)) (op_kind oper) (op_name oper)"

definition check_enter :: "detector \<Rightarrow> ctx \<Rightarrow> op \<Rightarrow> check_option list \<Rightarrow> world \<Rightarrow> check_stage \<times> world" where
  "check_enter d c oper opts w =
     (case scopeAndMarkFrom c of
        (None, _) \<Rightarrow>
          if d_reportUnscopedCheck d then
            (case capture d w of (stack, w1) \<Rightarrow>
             case now w1 of (t, w2) \<Rightarrow>
               (CDeliver (RUnscopedCheck \<lparr>uc_Op = oper, uc_Stack = stack, uc_Time = t\<rparr>) (d_reporters d)
                  (CReturned NoScope), w2))
          else (CReturned NoScope, w)
      | (Some s, mark) \<Rightarrow>
          (let cfg = config_of opts;
               opn = sc_openTxs (w_scopes w s);
               name = sc_name (w_scopes w s)
           in if opn \<le> 0 then
                (let region = (case mark of
                     None \<Rightarrow> CReturned NotOpen
                   | Some m \<Rightarrow> CDeliver (RStaleAllow (stale_now name oper (am_reason (w_marks w m))))
                       (d_reporters d) (CReturned NotOpen))
                 in (if cfg_allowed cfg
                     then CDeliver (RStaleAllow (stale_now name oper (cfg_allowReason cfg))) (d_reporters d) region
                     else region, w))
              else (CInside s mark opn, w)))"

text \<open>
  A session's verdict on a write enters the same accounting; \<open>own\<close> says that the connection's own
  transaction is one of the scope's.
\<close>

definition write_enter :: "detector \<Rightarrow> ctx \<Rightarrow> op \<Rightarrow> bool \<Rightarrow> world \<Rightarrow> check_stage \<times> world" where
  "write_enter d c oper own w =
     (case scopeAndMarkFrom c of
        (None, _) \<Rightarrow> (CReturned NoScope, w)
      | (Some s, mark) \<Rightarrow>
          (let total = sc_openTxs (w_scopes w s);
               foreign = total - (if own then 1 else 0)
           in (if foreign \<le> 0 then
                 (case mark of
                    None \<Rightarrow> CReturned NotOpen
                  | Some m \<Rightarrow>
                      if total = 0 then
                        CDeliver (RStaleAllow (stale_now (sc_name (w_scopes w s)) oper (am_reason (w_marks w m))))
                          (d_reporters d) (CReturned NotOpen)
                      else CReturned NotOpen)
               else CInside s mark foreign, w)))"

fun check_step :: "detector \<Rightarrow> ctx \<Rightarrow> op \<Rightarrow> check_option list \<Rightarrow> check_stage \<Rightarrow> world \<Rightarrow> check_stage \<times> world" where
  "check_step d c oper opts CEntered w = check_enter d c oper opts w"
| "check_step d c oper opts (CInside s mark opn) w =
     (let key = scope_key w s oper in
      (CCounted s mark opn (fst (bumpCall key (w_scopes w s))),
       update_scope s (\<lambda>sc. snd (bumpCall key sc)) w))"
| "check_step d c oper opts (CCounted s mark opn k) w =
     (let cfg = config_of opts in
      if cfg_allowed cfg then
        (if coversCalls (cfg_allowCounts cfg) k then CReturned (Suppressed k)
         else CRegion s mark opn k (cfg_allowCounts cfg),
         update_scope s (noteDeclared (scope_key w s oper) (cfg_allowCounts cfg) (cfg_allowReason cfg)) w)
      else (CRegion s mark opn k [], w))"
| "check_step d c oper opts (CRegion s mark opn k declined) w =
     (case mark of
        None \<Rightarrow> (CList s opn k declined, w)
      | Some m \<Rightarrow>
          (case mark_Add m w of (mk, w') \<Rightarrow>
            (if coversCalls (am_counts (w_marks w m)) mk then CReturned (Suppressed k)
             else CList s opn k (declined @ am_counts (w_marks w m)), w')))"
| "check_step d c oper opts (CList s opn k declined) w =
     (case d_allowlist d of
        None \<Rightarrow> (CEmit s opn k declined, w)
      | Some a \<Rightarrow>
          (case allowlist_decide (sc_name (w_scopes w s)) oper k (w_allowlists w a) of (dec, al) \<Rightarrow>
            (if ad_present dec then CNote s opn k declined dec else CEmit s opn k declined,
             w\<lparr>w_allowlists := (w_allowlists w)(a := al)\<rparr>)))"
| "check_step d c oper opts (CNote s opn k declined dec) w =
     (if ad_covered dec then CReturned (Suppressed k) else CEmit s opn k (declined @ ad_counts dec),
      update_scope s (noteDeclared (scope_key w s oper) (ad_counts dec) (ad_reason dec)) w)"
| "check_step d c oper opts (CEmit s opn k declined) w =
     (case capture d w of (stack, w1) \<Rightarrow>
      case now w1 of (t, w2) \<Rightarrow>
        (CDeliver
           (RViolation \<lparr>v_Op = oper, v_Scope = sc_name (w_scopes w s), v_OpenTxs = opn, v_Call = k,
                        v_AllowedCalls = declined, v_Stack = stack,
                        v_Attrs = sc_attrs (w_scopes w s) @ cfg_attrs (config_of opts), v_Time = t\<rparr>)
           (d_reporters d) (CReturned (Reported k)), w2))"
| "check_step d c oper opts (CDeliver r [] next) w = (next, w)"
| "check_step d c oper opts (CDeliver r (rep # reps) next) w =
     (case hand_over rep r w of (inner, w') \<Rightarrow> (CDeliver r (inner @ reps) next, w'))"
| "check_step d c oper opts (CReturned v) w = (CReturned v, w)"
| "check_step d c oper opts (CWriting own) w = write_enter d c oper own w"

subsection \<open>Stages of a scope's end\<close>

text \<open>
  The section of \<^verbatim>\<open>reportCallShortfalls\<close> under \<^verbatim>\<open>callMu\<close> is cut between the identities and
  each region's counter, which is loaded without the mutex of whoever adds to it. The loop over
  the regions runs over the list as it was when the loop began.
\<close>

datatype finish_stage =
    FEntered
  | FKeys
  | FMarks "mark_ref list" "stale_allow list"
  | FStale "stale_allow list"
  | FLeak
  | FDeliver report "reporter list" finish_stage
  | FReturned bool

fun finish_step :: "detector \<Rightarrow> scope_ref \<Rightarrow> finish_stage \<Rightarrow> world \<Rightarrow> finish_stage \<times> world" where
  "finish_step d s FEntered w =
     (if sc_finished (w_scopes w s) then (FReturned False, w)
      else (FKeys, update_scope s (\<lambda>sc. sc\<lparr>sc_finished := True\<rparr>) w))"
| "finish_step d s FKeys w =
     (let sc = w_scopes w s;
          keys = sortKeys (keys_where (\<lambda>c. cc_declared c \<noteq> []) (sc_calls sc))
      in (FMarks (sc_marks sc) (concat (map (key_shortfall sc) keys)), w))"
| "finish_step d s (FMarks [] stale) w = (FStale stale, w)"
| "finish_step d s (FMarks (m # ms) stale) w =
     (FMarks ms (stale @ mark_shortfall (w_scopes w s) (w_marks w m)), w)"
| "finish_step d s (FStale (sa # sas)) w = (FDeliver (RStaleAllow sa) (d_reporters d) (FStale sas), w)"
| "finish_step d s (FStale []) w = (if d_reportLeaked d then FLeak else FReturned True, w)"
| "finish_step d s FLeak w =
     (if sc_openTxs (w_scopes w s) > 0 then
        (case now w of (t, w') \<Rightarrow>
           (FDeliver (RLeakedTx \<lparr>lt_Scope = sc_name (w_scopes w s),
                                lt_OpenTxs = sc_openTxs (w_scopes w s), lt_Time = t\<rparr>)
              (d_reporters d) (FReturned True), w'))
      else (FReturned True, w))"
| "finish_step d s (FDeliver r [] next) w = (next, w)"
| "finish_step d s (FDeliver r (rep # reps) next) w =
     (case hand_over rep r w of (inner, w') \<Rightarrow> (FDeliver r (inner @ reps) next, w'))"
| "finish_step d s (FReturned won) w = (FReturned won, w)"

subsection \<open>Schedules\<close>

text \<open>
  A goroutine runs a checkpoint, ends a scope, or is a session's verdict on a write
  (\<^verbatim>\<open>reportIfCrossConn\<close>, session.go); the session's own fields belong to its goroutine.
\<close>

datatype job = CheckJob ctx op "check_option list" | FinishJob scope_ref | WriteJob ctx string session

definition writes_within :: "ctx \<Rightarrow> session \<Rightarrow> bool" where
  "writes_within c se \<longleftrightarrow> se_inTx se \<and> scopeFrom c \<noteq> None \<and> se_txScope se = scopeFrom c"

datatype goroutine = Checker ctx op "check_option list" check_stage | Finisher scope_ref finish_stage

type_synonym system = "goroutine list \<times> world"

datatype event = Run nat | Counter scope_ref int

fun start :: "job \<Rightarrow> goroutine" where
  "start (CheckJob c oper opts) = Checker c oper opts CEntered"
| "start (FinishJob s) = Finisher s FEntered"
| "start (WriteJob c query se) = Checker c (db_op query) [] (CWriting (writes_within c se))"

fun returned :: "goroutine \<Rightarrow> bool" where
  "returned (Checker c oper opts (CReturned v)) \<longleftrightarrow> True"
| "returned (Finisher s (FReturned won)) \<longleftrightarrow> True"
| "returned _ \<longleftrightarrow> False"

fun go_step :: "detector \<Rightarrow> goroutine \<Rightarrow> world \<Rightarrow> goroutine \<times> world" where
  "go_step d (Checker c oper opts st) w =
     (case check_step d c oper opts st w of (st', w') \<Rightarrow> (Checker c oper opts st', w'))"
| "go_step d (Finisher s st) w =
     (case finish_step d s st w of (st', w') \<Rightarrow> (Finisher s st', w'))"

text \<open>\<open>Counter\<close> is a session's \<^verbatim>\<open>openTxs.Add\<close>, by one when it begins, by minus one when it ends.\<close>

fun sched_step :: "detector \<Rightarrow> event \<Rightarrow> system \<Rightarrow> system" where
  "sched_step d (Run i) (gs, w) =
     (if i < length gs then (case go_step d (gs ! i) w of (g, w') \<Rightarrow> (gs[i := g], w')) else (gs, w))"
| "sched_step d (Counter s n) (gs, w) = (gs, add_openTxs s n w)"

definition run_schedule :: "detector \<Rightarrow> event list \<Rightarrow> system \<Rightarrow> system" where
  "run_schedule d es sys = foldl (\<lambda>sys e. sched_step d e sys) sys es"

lemma run_schedule_simps [simp]:
  "run_schedule d [] sys = sys"
  "run_schedule d (e # es) sys = run_schedule d es (sched_step d e sys)"
  "run_schedule d (es @ es') sys = run_schedule d es' (run_schedule d es sys)"
  by (simp_all add: run_schedule_def)


subsection \<open>A goroutine alone does what the atomic operation does\<close>

text \<open>
  What a stage still has to do, in the operations of the other theories: the abstraction under
  which every step of a goroutine is a stutter.
\<close>

definition list_rest :: "detector \<Rightarrow> op \<Rightarrow> check_config \<Rightarrow> scope_ref \<Rightarrow> int \<Rightarrow> int \<Rightarrow> int list \<Rightarrow> world \<Rightarrow> world" where
  "list_rest d oper cfg s opn k declined w =
     (case d_allowlist d of
        None \<Rightarrow> emitViolation d s oper opn k declined (cfg_attrs cfg) w
      | Some a \<Rightarrow>
          (case allowlist_decide (sc_name (w_scopes w s)) oper k (w_allowlists w a) of
             (dec, al) \<Rightarrow>
               (let w = w\<lparr>w_allowlists := (w_allowlists w)(a := al)\<rparr> in
                if ad_present dec then
                  (let w = update_scope s (noteDeclared (scope_key w s oper) (ad_counts dec) (ad_reason dec)) w in
                   if ad_covered dec then w
                   else emitViolation d s oper opn k (declined @ ad_counts dec) (cfg_attrs cfg) w)
                else emitViolation d s oper opn k declined (cfg_attrs cfg) w)))"

definition region_rest :: "detector \<Rightarrow> op \<Rightarrow> check_config \<Rightarrow> scope_ref \<Rightarrow> mark_ref option \<Rightarrow> int \<Rightarrow> int \<Rightarrow> int list \<Rightarrow> world \<Rightarrow> world" where
  "region_rest d oper cfg s mark opn k declined w =
     (case mark of
        None \<Rightarrow> list_rest d oper cfg s opn k declined w
      | Some m \<Rightarrow>
          (case mark_Add m w of (mk, w') \<Rightarrow>
             if coversCalls (am_counts (w_marks w m)) mk then w'
             else list_rest d oper cfg s opn k (declined @ am_counts (w_marks w m)) w'))"

definition count_rest :: "detector \<Rightarrow> op \<Rightarrow> check_config \<Rightarrow> scope_ref \<Rightarrow> mark_ref option \<Rightarrow> int \<Rightarrow> int \<Rightarrow> world \<Rightarrow> world" where
  "count_rest d oper cfg s mark opn k w =
     (if cfg_allowed cfg then
        (let w = update_scope s (noteDeclared (scope_key w s oper) (cfg_allowCounts cfg) (cfg_allowReason cfg)) w in
         if coversCalls (cfg_allowCounts cfg) k then w
         else region_rest d oper cfg s mark opn k (cfg_allowCounts cfg) w)
      else region_rest d oper cfg s mark opn k [] w)"

text \<open>A write's verdict, in terms of its operation and of whether it is within its own transaction.\<close>

definition cross_rest :: "detector \<Rightarrow> ctx \<Rightarrow> op \<Rightarrow> check_config \<Rightarrow> bool \<Rightarrow> world \<Rightarrow> world" where
  "cross_rest d c oper cfg own w =
     (case scopeAndMarkFrom c of
        (None, _) \<Rightarrow> w
      | (Some s, mark) \<Rightarrow>
          (let total = sc_openTxs (w_scopes w s);
               foreign = total - (if own then 1 else 0)
           in if foreign \<le> 0 then
                (case mark of
                   None \<Rightarrow> w
                 | Some m \<Rightarrow>
                     if total = 0 then
                       reportStaleAllow d (stale_now (sc_name (w_scopes w s)) oper (am_reason (w_marks w m))) w
                     else w)
              else decideAndReport d s mark oper foreign cfg w))"

lemma cross_rest_write: "cross_rest d c (db_op query) zero_config (writes_within c se) w = reportIfCrossConn d c query se w"
  by (auto simp: cross_rest_def reportIfCrossConn_def writes_within_def scopeFrom_def Let_def
      split: prod.split option.split)

fun check_rest :: "detector \<Rightarrow> ctx \<Rightarrow> op \<Rightarrow> check_option list \<Rightarrow> check_stage \<Rightarrow> world \<Rightarrow> world" where
  "check_rest d c oper opts CEntered w = check d c oper opts w"
| "check_rest d c oper opts (CInside s mark opn) w = decideAndReport d s mark oper opn (config_of opts) w"
| "check_rest d c oper opts (CCounted s mark opn k) w = count_rest d oper (config_of opts) s mark opn k w"
| "check_rest d c oper opts (CRegion s mark opn k declined) w =
     region_rest d oper (config_of opts) s mark opn k declined w"
| "check_rest d c oper opts (CList s opn k declined) w = list_rest d oper (config_of opts) s opn k declined w"
| "check_rest d c oper opts (CNote s opn k declined dec) w =
     (let w = update_scope s (noteDeclared (scope_key w s oper) (ad_counts dec) (ad_reason dec)) w in
      if ad_covered dec then w
      else emitViolation d s oper opn k (declined @ ad_counts dec) (cfg_attrs (config_of opts)) w)"
| "check_rest d c oper opts (CEmit s opn k declined) w =
     emitViolation d s oper opn k declined (cfg_attrs (config_of opts)) w"
| "check_rest d c oper opts (CDeliver r reps next) w =
     check_rest d c oper opts next (w\<lparr>w_rs := deliver_all reps r (w_rs w)\<rparr>)"
| "check_rest d c oper opts (CReturned v) w = w"
| "check_rest d c oper opts (CWriting own) w = cross_rest d c oper (config_of opts) own w"

lemma scope_key_update [simp]:
  "scope_key (w\<lparr>w_allowlists := al\<rparr>) s oper = scope_key w s oper"
  "scope_key (snd (mark_Add m w)) s oper = scope_key w s oper"
  "(\<And>sc. sc_name (f sc) = sc_name sc) \<Longrightarrow> scope_key (update_scope t f w) s oper = scope_key w s oper"
  by (simp_all add: scope_key_def)

lemma decide_count_rest:
  "decideAndReport d s mark oper opn cfg w =
     count_rest d oper cfg s mark opn (fst (bumpCall (scope_key w s oper) (w_scopes w s)))
       (update_scope s (\<lambda>sc. snd (bumpCall (scope_key w s oper) sc)) w)"
  by (cases mark)
    (simp_all add: decideAndReport_def count_rest_def region_rest_def list_rest_def Let_def
      scope_key_def case_prod_unfold split: option.split)

lemma world_rs_same [simp]: "w\<lparr>w_rs := w_rs w\<rparr> = (w :: world)"
  by simp

lemma check_rest_enter:
  "check_enter d c oper opts w = (st, w') \<Longrightarrow> check_rest d c oper opts st w' = check d c oper opts w"
  by (auto simp: check_enter_def check_def config_of_def Let_def case_prod_unfold reportStaleAllow_def
      emit_report_def split: prod.splits option.splits if_splits)

lemma w_scopes_deliver_one [simp, txn_frame]: "w_scopes (deliver_one rep r w) = w_scopes w"
  by (simp add: deliver_one_def)

lemma hand_over_frame [simp, txn_frame]:
  "w_scopes (snd (hand_over rep r w)) = w_scopes w" "w_marks (snd (hand_over rep r w)) = w_marks w"
  by (cases rep; simp add: deliver_one_def split: prod.split)+

lemma hand_over_world: "hand_over rep r w = (inner, w') \<Longrightarrow> w' = w\<lparr>w_rs := w_rs w'\<rparr>"
  by (cases rep) (auto simp: deliver_one_def split: prod.splits if_splits)

lemma hand_over_all:
  "hand_over rep r w = (inner, w') \<Longrightarrow>
     deliver_all (inner @ reps) r (w_rs w') = deliver_all reps r (if implements rep r then deliver rep r (w_rs w) else w_rs w)"
  by (cases rep) (auto simp: deliver_one_def split: prod.splits if_splits)

lemma hand_over_rest:
  assumes "hand_over rep r w = (inner, w')"
  shows "w'\<lparr>w_rs := deliver_all (inner @ reps) r (w_rs w')\<rparr>
    = w\<lparr>w_rs := deliver_all reps r (if implements rep r then deliver rep r (w_rs w) else w_rs w)\<rparr>"
proof -
  have "w'\<lparr>w_rs := st\<rparr> = w\<lparr>w_rs := st\<rparr>" for st
    by (subst hand_over_world[OF assms]) simp
  then show ?thesis by (simp only: hand_over_all[OF assms])
qed

lemma check_rest_step:
  assumes "check_step d c oper opts st w = (st', w')"
  shows "check_rest d c oper opts st' w' = check_rest d c oper opts st w"
  using assms
proof (cases "(d, c, oper, opts, st, w)" rule: check_step.cases)
  case 1
  with assms show ?thesis by (simp add: check_rest_enter)
next
  case 2
  with assms show ?thesis by (auto simp: decide_count_rest Let_def)
next
  case 3
  with assms show ?thesis by (auto simp: count_rest_def Let_def split: if_splits)
next
  case 4
  with assms show ?thesis by (auto simp: region_rest_def split: option.splits prod.splits if_splits)
next
  case 5
  with assms show ?thesis
    by (auto simp: list_rest_def Let_def split: option.splits prod.splits if_splits)
next
  case 6
  with assms show ?thesis by (auto simp: Let_def split: if_splits)
next
  case 7
  with assms show ?thesis
    by (auto simp: emitViolation_def emit_report_def Let_def split: prod.splits)
next
  case (9 _ _ _ _ r rep reps nxt _)
  obtain inner w1 where h: "hand_over rep r w = (inner, w1)" by fastforce
  with 9 assms hand_over_rest[OF h, of reps] show ?thesis by auto
next
  case 11
  with assms show ?thesis
    by (auto simp: write_enter_def cross_rest_def reportStaleAllow_def emit_report_def Let_def split: prod.splits option.splits if_splits)
qed (use assms in auto)


definition leak_now :: "detector \<Rightarrow> scope_ref \<Rightarrow> world \<Rightarrow> world" where
  "leak_now d s w =
     (if sc_openTxs (w_scopes w s) > 0 then
        (case now w of (t, w') \<Rightarrow>
           emit_report d (RLeakedTx \<lparr>lt_Scope = sc_name (w_scopes w s),
                                   lt_OpenTxs = sc_openTxs (w_scopes w s), lt_Time = t\<rparr>) w')
      else w)"

definition stale_rest :: "detector \<Rightarrow> scope_ref \<Rightarrow> stale_allow list \<Rightarrow> world \<Rightarrow> world" where
  "stale_rest d s sas w =
     (let w = reportStaleAllows d sas w in if d_reportLeaked d then leak_now d s w else w)"

fun finish_rest :: "detector \<Rightarrow> scope_ref \<Rightarrow> finish_stage \<Rightarrow> world \<Rightarrow> world" where
  "finish_rest d s FEntered w = finishScope d s w"
| "finish_rest d s FKeys w = stale_rest d s (call_shortfalls (w_marks w) (w_scopes w s)) w"
| "finish_rest d s (FMarks ms stale) w =
     stale_rest d s (stale @ concat (map (\<lambda>m. mark_shortfall (w_scopes w s) (w_marks w m)) ms)) w"
| "finish_rest d s (FStale sas) w = stale_rest d s sas w"
| "finish_rest d s FLeak w = leak_now d s w"
| "finish_rest d s (FDeliver r reps next) w = finish_rest d s next (w\<lparr>w_rs := deliver_all reps r (w_rs w)\<rparr>)"
| "finish_rest d s (FReturned won) w = w"

lemma finishScope_rest:
  "\<not> sc_finished (w_scopes w s) \<Longrightarrow> finishScope d s w =
     (let w = update_scope s (\<lambda>sc. sc\<lparr>sc_finished := True\<rparr>) w in
      stale_rest d s (call_shortfalls (w_marks w) (w_scopes w s)) w)"
  by (simp add: finishScope_def stale_rest_def leak_now_def reportCallShortfalls_def Let_def)

lemma stale_rest_Cons:
  "stale_rest d s (sa # sas) w = stale_rest d s sas (emit_report d (RStaleAllow sa) w)"
  by (simp add: stale_rest_def reportStaleAllows_def reportStaleAllow_def)

lemma shortfalls_by_parts:
  "call_shortfalls marks sc =
     concat (map (key_shortfall sc) (sortKeys (keys_where (\<lambda>c. cc_declared c \<noteq> []) (sc_calls sc))))
       @ concat (map (\<lambda>m. mark_shortfall sc (marks m)) (sc_marks sc))"
  by (simp add: call_shortfalls_def Let_def sortKeys_def)

lemma finish_rest_step:
  assumes "finish_step d s st w = (st', w')"
  shows "finish_rest d s st' w' = finish_rest d s st w"
  using assms
proof (cases "(d, s, st, w)" rule: finish_step.cases)
  case 1
  show ?thesis
  proof (cases "sc_finished (w_scopes w s)")
    case True
    with assms 1 show ?thesis by (auto simp: finishScope_def)
  next
    case False
    with assms 1 show ?thesis by (auto simp: finishScope_rest Let_def)
  qed
next
  case 2
  with assms show ?thesis by (auto simp: shortfalls_by_parts Let_def)
next
  case 5
  with assms show ?thesis by (auto simp: stale_rest_Cons emit_report_def)
next
  case 6
  with assms show ?thesis
    by (auto simp: stale_rest_def reportStaleAllows_def split: if_splits)
next
  case 7
  with assms show ?thesis by (auto simp: leak_now_def emit_report_def split: prod.splits if_splits)
next
  case (9 _ _ r rep reps nxt _)
  obtain inner w1 where h: "hand_over rep r w = (inner, w1)" by fastforce
  with 9 assms hand_over_rest[OF h, of reps] show ?thesis by auto
qed (use assms in auto)

fun go_rest :: "detector \<Rightarrow> goroutine \<Rightarrow> world \<Rightarrow> world" where
  "go_rest d (Checker c oper opts st) w = check_rest d c oper opts st w"
| "go_rest d (Finisher s st) w = finish_rest d s st w"

fun exec_job :: "detector \<Rightarrow> world \<Rightarrow> job \<Rightarrow> world" where
  "exec_job d w (CheckJob c oper opts) = check d c oper opts w"
| "exec_job d w (FinishJob s) = finishScope d s w"
| "exec_job d w (WriteJob c query se) = reportIfCrossConn d c query se w"

lemma go_rest_step: "go_step d g w = (g', w') \<Longrightarrow> go_rest d g' w' = go_rest d g w"
  by (cases g) (auto simp: check_rest_step finish_rest_step split: prod.splits)

lemma go_rest_start [simp]: "go_rest d (start j) w = exec_job d w j"
  by (cases j) (simp_all add: config_of_def cross_rest_write)

lemma go_rest_returned: "returned g \<Longrightarrow> go_rest d g w = w"
  by (cases g rule: returned.cases) simp_all

text \<open>
  How many turns a report takes at most: one for every wrapper and one for what it wraps. A wrapper
  that keeps the report to itself saves the turns of the inner ones.
\<close>

primrec layers :: "reporter \<Rightarrow> nat" where
  "layers (CollectingReporter c) = 1"
| "layers (SlogReporter l) = 1"
| "layers (BaselineReporter b nxt) = Suc (layers nxt)"
| "layers (ThrottlingReporter t nxt) = Suc (layers nxt)"
| "layers (UserReporter u exts) = 1"

definition turns :: "reporter list \<Rightarrow> nat" where
  "turns reps = sum_list (map layers reps)"

lemma turns_simps [simp]:
  "turns [] = 0" "turns (rep # reps) = layers rep + turns reps" "turns (reps @ reps') = turns reps + turns reps'"
  by (simp_all add: turns_def)

lemma hand_over_turns: "hand_over rep r w = (inner, w') \<Longrightarrow> turns inner < layers rep"
  by (cases rep) (auto split: prod.splits if_splits)

text \<open>How many steps a checkpoint has left at most, for a given number of turns of its reports.\<close>

fun check_left :: "nat \<Rightarrow> check_stage \<Rightarrow> nat" where
  "check_left R CEntered = 8 + 2 * R"
| "check_left R (CInside s mark opn) = 7 + R"
| "check_left R (CCounted s mark opn k) = 6 + R"
| "check_left R (CRegion s mark opn k declined) = 5 + R"
| "check_left R (CList s opn k declined) = 4 + R"
| "check_left R (CNote s opn k declined dec) = 3 + R"
| "check_left R (CEmit s opn k declined) = 2 + R"
| "check_left R (CDeliver r reps next) = Suc (turns reps + check_left R next)"
| "check_left R (CReturned v) = 0"
| "check_left R (CWriting own) = 8 + 2 * R"

lemma check_left_step:
  assumes "check_step d c oper opts st w = (st', w')"
  shows "check_left (turns (d_reporters d)) st' \<le> check_left (turns (d_reporters d)) st - 1"
  using assms
  by (cases "(d, c, oper, opts, st, w)" rule: check_step.cases)
    (auto simp: check_enter_def write_enter_def Let_def split: option.splits prod.splits if_splits dest: hand_over_turns)

lemma check_left_0: "check_left R st = 0 \<longleftrightarrow> (\<exists>v. st = CReturned v)"
  by (cases st) simp_all

text \<open>One goroutine moving on its own.\<close>

definition solo :: "detector \<Rightarrow> nat \<Rightarrow> goroutine \<times> world \<Rightarrow> goroutine \<times> world" where
  "solo d n x = ((\<lambda>(g, w). go_step d g w) ^^ n) x"

lemma solo_simps [simp]:
  "solo d 0 x = x"
  "solo d (Suc n) (g, w) = solo d n (go_step d g w)"
  "solo d (m + n) x = solo d n (solo d m x)"
  by (simp_all add: solo_def funpow_Suc_right del: funpow.simps)
    (metis add.commute comp_apply funpow_add)

lemma solo_rest: "solo d n (g, w) = (g', w') \<Longrightarrow> go_rest d g' w' = go_rest d g w"
proof (induction n arbitrary: g w)
  case (Suc n)
  then show ?case by (cases "go_step d g w") (auto dest: go_rest_step)
qed simp

lemma solo_checker:
  "check_left (turns (d_reporters d)) st \<le> n \<Longrightarrow>
     \<exists>v w'. solo d n (Checker c oper opts st, w) = (Checker c oper opts (CReturned v), w')"
proof (induction n arbitrary: st w)
  case 0
  then show ?case by (auto simp: check_left_0)
next
  case (Suc n)
  obtain st' w' where s: "check_step d c oper opts st w = (st', w')" by fastforce
  then have "check_left (turns (d_reporters d)) st' \<le> n"
    using check_left_step[OF s] Suc.prems by linarith
  with Suc.IH[of st' w'] s show ?case by simp
qed

definition settles :: "detector \<Rightarrow> goroutine \<Rightarrow> world \<Rightarrow> bool" where
  "settles d g w \<longleftrightarrow> (\<exists>n. returned (fst (solo d n (g, w))))"

lemma settles_step: "settles d (fst (go_step d g w)) (snd (go_step d g w)) \<Longrightarrow> settles d g w"
  unfolding settles_def by (metis prod.collapse solo_simps(2))

lemma settles_returned [simp]: "returned g \<Longrightarrow> settles d g w"
  unfolding settles_def by (rule exI[of _ 0]) simp

lemma settles_deliver:
  assumes "\<And>w. settles d (Finisher s next) w"
  shows "settles d (Finisher s (FDeliver r reps next)) w"
proof (induction "turns reps" arbitrary: reps w rule: less_induct)
  case (less reps w)
  show ?case
  proof (cases reps)
    case Nil
    show ?thesis unfolding Nil by (rule settles_step) (simp add: assms)
  next
    case (Cons rep reps')
    obtain inner w' where h: "hand_over rep r w = (inner, w')" by fastforce
    have "settles d (Finisher s (FDeliver r (inner @ reps') next)) w'"
      by (rule less) (simp add: Cons hand_over_turns[OF h])
    then show ?thesis
      unfolding Cons by (intro settles_step[of d "Finisher s (FDeliver r (rep # reps') next)"]) (simp add: h)
  qed
qed

lemma settles_leak: "settles d (Finisher s FLeak) w"
  by (rule settles_step) (simp add: case_prod_unfold settles_deliver)

lemma settles_stale: "settles d (Finisher s (FStale sas)) w"
proof (induction sas arbitrary: w)
  case Nil
  show ?case by (rule settles_step) (simp add: settles_leak)
next
  case (Cons sa sas)
  then show ?case by (intro settles_step[of d "Finisher s (FStale (sa # sas))"]) (simp add: settles_deliver)
qed

lemma settles_marks: "settles d (Finisher s (FMarks ms stale)) w"
proof (induction ms arbitrary: stale)
  case Nil
  show ?case by (rule settles_step) (simp add: settles_stale)
next
  case (Cons m ms)
  then show ?case by (intro settles_step[of d "Finisher s (FMarks (m # ms) stale)"]) simp
qed

lemma settles_checker: "settles d (Checker c oper opts st) w"
proof -
  obtain v w' where "solo d (check_left (turns (d_reporters d)) st) (Checker c oper opts st, w)
      = (Checker c oper opts (CReturned v), w')"
    using solo_checker[OF order_refl] by blast
  then have "returned (fst (solo d (check_left (turns (d_reporters d)) st) (Checker c oper opts st, w)))"
    by (simp only: fst_conv returned.simps)
  then show ?thesis unfolding settles_def by (rule exI)
qed

lemma settles_start: "settles d (start j) w"
proof (cases j)
  case (FinishJob s)
  have "settles d (Finisher s FKeys) w" for w
    by (rule settles_step) (simp add: Let_def settles_marks)
  then show ?thesis
    unfolding FinishJob by (intro settles_step[of d "start (FinishJob s)"]) simp
qed (simp_all add: settles_checker)

lemma run_solo:
  "i < length gs \<Longrightarrow> run_schedule d (replicate n (Run i)) (gs, w) =
     (case solo d n (gs ! i, w) of (g, w') \<Rightarrow> (gs[i := g], w'))"
proof (induction n arbitrary: gs w)
  case (Suc n)
  then show ?case by (cases "go_step d (gs ! i) w") simp
qed simp

lemma alone_executes:
  assumes "i < length gs" "gs ! i = start j"
  shows "\<exists>n g. run_schedule d (replicate n (Run i)) (gs, w) = (gs[i := g], exec_job d w j) \<and> returned g"
proof -
  obtain n where n: "returned (fst (solo d n (start j, w)))"
    using settles_start[of d j w] unfolding settles_def by blast
  obtain g w' where s: "solo d n (start j, w) = (g, w')" by fastforce
  then have "w' = exec_job d w j"
    using solo_rest[OF s] n by (simp add: go_rest_returned)
  with s n assms(2) run_solo[OF assms(1), of d n w] have
    "run_schedule d (replicate n (Run i)) (gs, w) = (gs[i := g], exec_job d w j) \<and> returned g" by simp
  then show ?thesis by blast
qed


lemma one_after_another:
  "n \<le> length jobs \<Longrightarrow> \<exists>es gs. run_schedule d es (map start jobs, w) = (gs, foldl (exec_job d) w (take n jobs))
     \<and> length gs = length jobs \<and> (\<forall>i < n. returned (gs ! i)) \<and> (\<forall>i < length jobs. n \<le> i \<longrightarrow> gs ! i = start (jobs ! i))"
proof (induction n)
  case 0
  show ?case by (rule exI[of _ "[]"]) simp
next
  case (Suc n)
  then obtain es gs where IH: "run_schedule d es (map start jobs, w) = (gs, foldl (exec_job d) w (take n jobs))"
    "length gs = length jobs" "\<forall>i < n. returned (gs ! i)"
    "\<forall>i < length jobs. n \<le> i \<longrightarrow> gs ! i = start (jobs ! i)"
    by auto
  have n: "n < length gs" using Suc.prems IH(2) by simp
  then have "gs ! n = start (jobs ! n)" using IH(2,4) by simp
  note alone = alone_executes[OF n this, of d "foldl (exec_job d) w (take n jobs)"]
  have "foldl (exec_job d) w (take (Suc n) jobs) = exec_job d (foldl (exec_job d) w (take n jobs)) (jobs ! n)"
    using n IH(2) by (simp add: take_Suc_conv_app_nth)
  with alone obtain k g where
    g: "run_schedule d (replicate k (Run n)) (gs, foldl (exec_job d) w (take n jobs))
         = (gs[n := g], foldl (exec_job d) w (take (Suc n) jobs))" "returned g"
    by (simp only:) blast
  have "\<forall>i < Suc n. returned (gs[n := g] ! i)" using IH(3) g(2) n by (auto simp: less_Suc_eq)
  moreover have "\<forall>i < length jobs. Suc n \<le> i \<longrightarrow> gs[n := g] ! i = start (jobs ! i)" using IH(4) by simp
  ultimately show ?case
    using IH(1,2) g(1) by (intro exI[of _ "es @ replicate k (Run n)"] exI[of _ "gs[n := g]"]) simp
qed

lemma checker_progress:
  assumes "i < length gs" "gs ! i = Checker c oper opts st" "run_schedule d es (gs, w) = (gs', w')"
  shows "\<exists>st'. gs' ! i = Checker c oper opts st'
    \<and> check_left (turns (d_reporters d)) st' \<le> check_left (turns (d_reporters d)) st - count_list es (Run i)"
  using assms
proof (induction es arbitrary: gs w st)
  case (Cons e es)
  let ?R = "turns (d_reporters d)"
  obtain gs1 w1 where s: "sched_step d e (gs, w) = (gs1, w1)" by fastforce
  have "i < length gs1 \<and> (\<exists>st1. gs1 ! i = Checker c oper opts st1
      \<and> check_left ?R st1 \<le> check_left ?R st - (if e = Run i then 1 else 0))"
  proof (cases "e = Run i")
    case True
    then show ?thesis
      using s Cons.prems by (auto split: prod.splits dest: check_left_step)
  next
    case False
    then show ?thesis
      using s Cons.prems by (cases e) (auto split: prod.splits if_splits)
  qed
  then obtain st1 where st1: "i < length gs1" "gs1 ! i = Checker c oper opts st1"
    "check_left ?R st1 \<le> check_left ?R st - (if e = Run i then 1 else 0)" by blast
  from Cons.IH[OF st1(1,2), of w1] s Cons.prems(3) obtain st' where
    "gs' ! i = Checker c oper opts st'" "check_left ?R st' \<le> check_left ?R st1 - count_list es (Run i)"
    by auto
  with st1(3) show ?case by (auto split: if_splits)
qed simp

subsection \<open>Balances and tallies: what every schedule adds up\<close>

text \<open>
  Books kept in shared memory, \<open>paid\<close> and \<open>due\<close>, and what each goroutine holds of them, its
  \<open>bag\<close>. Every step keeps the balance between them; \<open>fits\<close> is what a goroutine may rely on
  whatever the others do, \<open>fair\<close> which events a schedule may contain. Then every schedule keeps
  the balance of all goroutines together.
\<close>

locale balance =
  fixes d :: detector
    and good :: "world \<Rightarrow> bool"
    and fits :: "world \<Rightarrow> goroutine \<Rightarrow> bool"
    and fair :: "event \<Rightarrow> bool"
    and bag :: "goroutine \<Rightarrow> 'a multiset"
    and paid :: "world \<Rightarrow> 'a multiset"
    and due :: "world \<Rightarrow> 'a multiset"
  assumes keeps: "good w \<Longrightarrow> fits w g \<Longrightarrow> go_step d g w = (g', w') \<Longrightarrow> good w' \<and> fits w' g'
      \<and> bag g' + paid w' + due w = bag g + paid w + due w'"
    and stable: "good w \<Longrightarrow> fits w g \<Longrightarrow> go_step d g w = (g', w') \<Longrightarrow> fits w h \<Longrightarrow> fits w' h"
    and counter: "good w \<Longrightarrow> fair (Counter s n) \<Longrightarrow> good (add_openTxs s n w)
      \<and> paid (add_openTxs s n w) = paid w \<and> due (add_openTxs s n w) = due w
      \<and> (fits w h \<longrightarrow> fits (add_openTxs s n w) h)"
begin

definition held :: "goroutine list \<Rightarrow> 'a multiset" where
  "held gs = sum_list (map bag gs)"

lemma held_update:
  assumes "i < length gs"
  shows "held (gs[i := g]) = held (take i gs) + bag g + held (drop (Suc i) gs)"
  using assms by (simp add: upd_conv_take_nth_drop held_def add.assoc)

lemma held_split:
  "i < length gs \<Longrightarrow> held gs = held (take i gs) + bag (gs ! i) + held (drop (Suc i) gs)"
  using held_update[of i gs "gs ! i"] by simp

lemma sched_step:
  assumes "good w" "list_all (fits w) gs" "fair e" "sched_step d e (gs, w) = (gs', w')"
  shows "good w' \<and> list_all (fits w') gs' \<and> length gs' = length gs
    \<and> held gs' + paid w' + due w = held gs + paid w + due w'"
proof (cases e)
  case (Run i)
  show ?thesis
  proof (cases "i < length gs")
    case False
    with assms Run show ?thesis by auto
  next
    case True
    obtain g' where g: "go_step d (gs ! i) w = (g', w')" "gs' = gs[i := g']"
      using assms(4) Run True by (auto split: prod.splits)
    have f: "fits w (gs ! i)" using assms(2) True by (simp add: list_all_length)
    note k = keeps[OF assms(1) f g(1)]
    then have "held (take i gs) + held (drop (Suc i) gs) + (bag g' + paid w' + due w)
        = held (take i gs) + held (drop (Suc i) gs) + (bag (gs ! i) + paid w + due w')" by simp
    then have "held gs' + paid w' + due w = held gs + paid w + due w'"
      unfolding g(2) held_update[OF True] held_split[OF True] by (simp only: ac_simps)
    moreover have "list_all (fits w') gs'"
      using assms(2) k stable[OF assms(1) f g(1)] True
      by (auto simp: list_all_length g(2) nth_list_update)
    ultimately show ?thesis using k g(2) by simp
  qed
next
  case (Counter s n)
  with assms counter[of w s n] show ?thesis by (auto simp: list_all_length)
qed

lemma run_balance:
  assumes "good w" "list_all (fits w) gs" "list_all fair es" "run_schedule d es (gs, w) = (gs', w')"
  shows "good w' \<and> list_all (fits w') gs' \<and> length gs' = length gs
    \<and> held gs' + paid w' + due w = held gs + paid w + due w'"
  using assms
proof (induction es arbitrary: gs w)
  case (Cons e es)
  obtain gs1 w1 where s: "sched_step d e (gs, w) = (gs1, w1)" by fastforce
  with Cons.prems have s1: "good w1" "list_all (fits w1) gs1" "length gs1 = length gs"
    "held gs1 + paid w1 + due w = held gs + paid w + due w1"
    using sched_step[OF Cons.prems(1,2) _ s] by simp_all
  have IH: "good w'" "list_all (fits w') gs'" "length gs' = length gs1"
    "held gs' + paid w' + due w1 = held gs1 + paid w1 + due w'"
    using Cons.IH[OF s1(1,2)] Cons.prems(3,4) s by simp_all
  have "(held gs' + paid w' + due w1) + (held gs1 + paid w1 + due w)
      = (held gs1 + paid w1 + due w') + (held gs + paid w + due w1)"
    using s1(4) IH(4) by simp
  then have "(held gs1 + paid w1 + due w1) + (held gs' + paid w' + due w)
      = (held gs1 + paid w1 + due w1) + (held gs + paid w + due w')"
    by (simp only: ac_simps)
  with s1 IH show ?case by simp
qed simp

end

text \<open>
  The common case: a step either leaves account and tag alone or books one entry in the account
  and hands it to the goroutine that moves, which keeps it.
\<close>

locale tally =
  fixes d :: detector
    and good :: "world \<Rightarrow> bool"
    and fits :: "world \<Rightarrow> goroutine \<Rightarrow> bool"
    and fair :: "event \<Rightarrow> bool"
    and tag :: "goroutine \<Rightarrow> 'a option"
    and total :: "world \<Rightarrow> 'a multiset"
  assumes step: "good w \<Longrightarrow> fits w g \<Longrightarrow> go_step d g w = (g', w') \<Longrightarrow> good w' \<and> fits w' g'
      \<and> (tag g' = tag g \<and> total w' = total w
          \<or> (\<exists>a. tag g = None \<and> tag g' = Some a \<and> total w' = add_mset a (total w)))"
    and unharmed: "good w \<Longrightarrow> fits w g \<Longrightarrow> go_step d g w = (g', w') \<Longrightarrow> fits w h \<Longrightarrow> fits w' h"
    and opened: "good w \<Longrightarrow> fair (Counter s n) \<Longrightarrow> good (add_openTxs s n w)
      \<and> total (add_openTxs s n w) = total w \<and> (fits w h \<longrightarrow> fits (add_openTxs s n w) h)"

sublocale tally \<subseteq> balance d good fits fair "\<lambda>g. case tag g of None \<Rightarrow> {#} | Some a \<Rightarrow> {#a#}" "\<lambda>_. {#}" total
proof
  fix w g g' w'
  assume "good w" "fits w g" "go_step d g w = (g', w')"
  from step[OF this] show "good w' \<and> fits w' g'
      \<and> (case tag g' of None \<Rightarrow> {#} | Some a \<Rightarrow> {#a#}) + {#} + total w
        = (case tag g of None \<Rightarrow> {#} | Some a \<Rightarrow> {#a#}) + {#} + total w'"
    by auto
next
  fix w g g' w' h
  assume "good w" "fits w g" "go_step d g w = (g', w')" "fits w h"
  then show "fits w' h" by (rule unharmed)
next
  fix w s n h
  assume "good w" "fair (Counter s n)"
  from opened[OF this, of h] show "good (add_openTxs s n w) \<and> {#} = {#}
      \<and> total (add_openTxs s n w) = total w \<and> (fits w h \<longrightarrow> fits (add_openTxs s n w) h)"
    by blast
qed

context tally begin

definition tagged :: "goroutine list \<Rightarrow> 'a multiset" where
  "tagged gs = mset (List.map_filter tag gs)"

lemma held_tagged: "held gs = tagged gs"
  by (induction gs) (auto simp: held_def tagged_def map_filter_simps split: option.split)

lemma run:
  assumes "good w" "list_all (fits w) gs" "list_all fair es" "run_schedule d es (gs, w) = (gs', w')"
  shows "good w' \<and> list_all (fits w') gs' \<and> length gs' = length gs
    \<and> tagged gs' + total w = tagged gs + total w'"
  using run_balance[OF assms] by (simp add: held_tagged)

end


subsection \<open>The indices of the calls\<close>

fun call_index :: "check_stage \<Rightarrow> int option" where
  "call_index CEntered = None"
| "call_index (CInside s mark opn) = None"
| "call_index (CCounted s mark opn k) = Some k"
| "call_index (CRegion s mark opn k declined) = Some k"
| "call_index (CList s opn k declined) = Some k"
| "call_index (CNote s opn k declined dec) = Some k"
| "call_index (CEmit s opn k declined) = Some k"
| "call_index (CDeliver r reps next) = call_index next"
| "call_index (CReturned (Suppressed k)) = Some k"
| "call_index (CReturned (Reported k)) = Some k"
| "call_index (CReturned NoScope) = None"
| "call_index (CReturned NotOpen) = None"
| "call_index (CWriting own) = None"

fun stage_scope :: "check_stage \<Rightarrow> scope_ref option" where
  "stage_scope (CInside s mark opn) = Some s"
| "stage_scope (CCounted s mark opn k) = Some s"
| "stage_scope (CRegion s mark opn k declined) = Some s"
| "stage_scope (CList s opn k declined) = Some s"
| "stage_scope (CNote s opn k declined dec) = Some s"
| "stage_scope (CEmit s opn k declined) = Some s"
| "stage_scope (CDeliver r reps next) = stage_scope next"
| "stage_scope _ = None"

text \<open>The index a checkpoint of this operation, on this scope, was given, and none otherwise.\<close>

fun call_of :: "scope_ref \<Rightarrow> op \<Rightarrow> goroutine \<Rightarrow> int option" where
  "call_of s oper (Checker c oper' opts st) =
     (if scopeFrom c = Some s \<and> oper' = oper then call_index st else None)"
| "call_of s oper (Finisher s' st) = None"

fun in_own_scope :: "world \<Rightarrow> goroutine \<Rightarrow> bool" where
  "in_own_scope w (Checker c oper opts st) \<longleftrightarrow> (\<forall>s. stage_scope st = Some s \<longrightarrow> scopeFrom c = Some s)"
| "in_own_scope w (Finisher s st) \<longleftrightarrow> True"

definition counting :: "scope_ref \<Rightarrow> string \<Rightarrow> op \<Rightarrow> world \<Rightarrow> bool" where
  "counting s name oper w \<longleftrightarrow>
     sc_name (w_scopes w s) = name \<and> 0 \<le> calls_of (w_scopes w s) (key_for name oper)"

lemma w_scopes_enter:
  "check_enter d c oper opts w = (st, w') \<Longrightarrow> w_scopes w' = w_scopes w \<and> call_index st = None
     \<and> (\<forall>s. stage_scope st = Some s \<longrightarrow> scopeFrom c = Some s)"
  by (auto simp: check_enter_def scopeFrom_def Let_def split: prod.splits option.splits if_splits)
    (metis snd_conv w_capture(1) w_now(1))

lemma calls_finished [simp]: "calls_of (sc\<lparr>sc_finished := b\<rparr>) = calls_of sc"
  by (simp add: calls_of_def fun_eq_iff)

lemma key_for_inj: "key_for name oper = key_for name oper' \<longleftrightarrow> oper = oper'"
  by (cases oper; cases oper') (simp add: key_for_def)

lemma scope_key_for: "scope_key w s oper = key_for (sc_name (w_scopes w s)) oper"
  by (simp add: scope_key_def key_for_def)

text \<open>The one step that counts, and all the others.\<close>

lemma check_step_counts:
  assumes "check_step d c oper opts st w = (st', w')" "\<forall>s. stage_scope st = Some s \<longrightarrow> scopeFrom c = Some s"
  shows "(\<forall>s. stage_scope st' = Some s \<longrightarrow> scopeFrom c = Some s)
    \<and> (\<forall>s. sc_name (w_scopes w' s) = sc_name (w_scopes w s))
    \<and> (call_index st' = call_index st \<and> (\<forall>s. calls_of (w_scopes w' s) = calls_of (w_scopes w s))
       \<or> (\<exists>s k. scopeFrom c = Some s \<and> call_index st = None \<and> call_index st' = Some k
            \<and> k = calls_of (w_scopes w s) (key_for (sc_name (w_scopes w s)) oper) + 1
            \<and> (\<forall>t. calls_of (w_scopes w' t) = (if t = s
                 then (calls_of (w_scopes w s))(key_for (sc_name (w_scopes w s)) oper := k)
                 else calls_of (w_scopes w t)))))"
  using assms
proof (cases "(d, c, oper, opts, st, w)" rule: check_step.cases)
  case 1
  with assms show ?thesis by (auto dest!: w_scopes_enter)
next
  case 7
  with assms show ?thesis by (auto simp: capture_def now_def time_now_def)
next
  case 11
  with assms show ?thesis by (auto simp: write_enter_def scopeFrom_def Let_def split: prod.splits option.splits if_splits)
qed (use assms in \<open>auto simp: scope_key_for Let_def case_prod_unfold split: if_splits option.splits\<close>)

lemma finish_step_frame:
  "finish_step d s st w = (st', w') \<Longrightarrow>
     sc_name (w_scopes w' t) = sc_name (w_scopes w t) \<and> calls_of (w_scopes w' t) = calls_of (w_scopes w t)
     \<and> w_marks w' = w_marks w"
  by (cases "(d, s, st, w)" rule: finish_step.cases)
    (auto simp: Let_def case_prod_unfold now_def time_now_def split: if_splits)

lemma mset_upto_Suc: "0 \<le> n \<Longrightarrow> mset [1..n + 1] = add_mset (n + 1) (mset [1..n::int])"
  by (simp add: upto_rec2)

lemma calls_add_openTxs [simp]:
  "calls_of (w_scopes (add_openTxs t n w) s) = calls_of (w_scopes w s)"
  "sc_name (w_scopes (add_openTxs t n w) s) = sc_name (w_scopes w s)"
  by (auto simp: add_openTxs_def calls_of_def fun_eq_iff)

interpretation indices: tally d "counting s name oper" in_own_scope "\<lambda>_. True" "call_of s oper"
  "\<lambda>w. mset [1..calls_of (w_scopes w s) (key_for name oper)]"
  for d s name oper
proof
  fix w w' g g' h
  assume w: "counting s name oper w" and g: "in_own_scope w g" "go_step d g w = (g', w')"
  show "counting s name oper w' \<and> in_own_scope w' g'
      \<and> (call_of s oper g' = call_of s oper g
           \<and> mset [1..calls_of (w_scopes w' s) (key_for name oper)] = mset [1..calls_of (w_scopes w s) (key_for name oper)]
         \<or> (\<exists>a. call_of s oper g = None \<and> call_of s oper g' = Some a
           \<and> mset [1..calls_of (w_scopes w' s) (key_for name oper)]
             = add_mset a (mset [1..calls_of (w_scopes w s) (key_for name oper)])))"
  proof (cases g)
    case (Finisher t st)
    with w g show ?thesis by (auto simp: counting_def dest!: finish_step_frame[of _ _ _ _ _ _ s] split: prod.splits)
  next
    case (Checker c oper' opts st)
    with g obtain st' where st: "check_step d c oper' opts st w = (st', w')" "g' = Checker c oper' opts st'"
      by (auto split: prod.splits)
    from check_step_counts[OF st(1)] g(1) w Checker st(2) show ?thesis
      by (fastforce simp: counting_def key_for_inj mset_upto_Suc)
  qed
  show "in_own_scope w h \<Longrightarrow> in_own_scope w' h" by (cases h) auto
next
  fix w t n h
  assume "counting s name oper w"
  then show "counting s name oper (add_openTxs t n w)
      \<and> mset [1..calls_of (w_scopes (add_openTxs t n w) s) (key_for name oper)]
        = mset [1..calls_of (w_scopes w s) (key_for name oper)]
      \<and> (in_own_scope w h \<longrightarrow> in_own_scope (add_openTxs t n w) h)"
    by (cases h) (simp_all add: counting_def)
qed


lemma in_own_scope_start: "list_all (in_own_scope w) (map start jobs)"
  by (induction jobs) (auto simp: in_own_scope.simps elim!: start.elims split: job.split, case_tac a, auto)

lemma call_of_start: "List.map_filter (call_of s oper) (map start jobs) = []"
proof (induction jobs)
  case (Cons j jobs)
  then show ?case by (cases j) (simp_all add: map_filter_simps)
qed (simp add: map_filter_simps)

lemma indices_handed_out:
  assumes "0 \<le> calls_of (w_scopes w s) (key_for (sc_name (w_scopes w s)) oper)"
    "run_schedule d es (map start jobs, w) = (gs, w')"
  defines "key \<equiv> key_for (sc_name (w_scopes w s)) oper"
  shows "mset (List.map_filter (call_of s oper) gs) + mset [1..calls_of (w_scopes w s) key]
      = mset [1..calls_of (w_scopes w' s) key]
    \<and> calls_of (w_scopes w s) key \<le> calls_of (w_scopes w' s) key \<and> length gs = length jobs
    \<and> sc_name (w_scopes w' s) = sc_name (w_scopes w s)"
proof -
  have "counting s (sc_name (w_scopes w s)) oper w" using assms(1) by (simp add: counting_def)
  from indices.run[OF this in_own_scope_start _ assms(2)] have r:
    "counting s (sc_name (w_scopes w s)) oper w'" "length gs = length jobs"
    "mset (List.map_filter (call_of s oper) gs) + mset [1..calls_of (w_scopes w s) key]
      = mset [1..calls_of (w_scopes w' s) key]"
    by (simp_all add: indices.tagged_def call_of_start key_def list_all_length)
  from r(3) have "size (mset [1..calls_of (w_scopes w s) key]) \<le> size (mset [1..calls_of (w_scopes w' s) key])"
    by (metis le_add2 size_union)
  with assms(1) r show ?thesis by (simp add: counting_def key_def nat_le_eq_zle)
qed

subsection \<open>The latch of a finished scope\<close>

fun past_latch :: "finish_stage \<Rightarrow> unit option" where
  "past_latch FEntered = None"
| "past_latch (FReturned won) = (if won then Some () else None)"
| "past_latch (FDeliver r reps next) = past_latch next"
| "past_latch _ = Some ()"

text \<open>The goroutines that have won the right to report the end of this scope.\<close>

fun won_latch :: "scope_ref \<Rightarrow> goroutine \<Rightarrow> unit option" where
  "won_latch s (Finisher s' st) = (if s' = s then past_latch st else None)"
| "won_latch s (Checker c oper opts st) = None"

lemma finish_step_latch:
  assumes "finish_step d s st w = (st', w')"
  shows "(past_latch st' = past_latch st \<and> (\<forall>t. sc_finished (w_scopes w' t) = sc_finished (w_scopes w t)))
    \<or> (past_latch st = None \<and> past_latch st' = Some () \<and> \<not> sc_finished (w_scopes w s)
       \<and> (\<forall>t. sc_finished (w_scopes w' t) \<longleftrightarrow> t = s \<or> sc_finished (w_scopes w t)))"
  using assms
  by (cases "(d, s, st, w)" rule: finish_step.cases)
    (auto simp: Let_def case_prod_unfold now_def time_now_def split: if_splits)

lemma check_step_latch:
  assumes "check_step d c oper opts st w = (st', w')"
  shows "sc_finished (w_scopes w' t) = sc_finished (w_scopes w t) \<and> sc_marks (w_scopes w' t) = sc_marks (w_scopes w t)
    \<and> sc_openTxs (w_scopes w' t) = sc_openTxs (w_scopes w t)"
  using assms
proof (cases "(d, c, oper, opts, st, w)" rule: check_step.cases)
  case 1
  with assms show ?thesis by (auto dest!: w_scopes_enter)
next
  case 7
  with assms show ?thesis by (auto simp: capture_def now_def time_now_def)
qed (use assms in \<open>auto simp: write_enter_def Let_def case_prod_unfold split: if_splits option.splits\<close>)

interpretation latch: tally d "\<lambda>_. True" "\<lambda>_ _. True" "\<lambda>_. True" "won_latch s"
  "\<lambda>w. if sc_finished (w_scopes w s) then {#()#} else {#}"
  for d s
proof
  fix w w' g g' h
  assume g: "go_step d g w = (g', w')"
  show "True \<and> True \<and> (won_latch s g' = won_latch s g
        \<and> (if sc_finished (w_scopes w' s) then {#()#} else {#}) = (if sc_finished (w_scopes w s) then {#()#} else {#})
      \<or> (\<exists>a. won_latch s g = None \<and> won_latch s g' = Some a
        \<and> (if sc_finished (w_scopes w' s) then {#()#} else {#})
          = add_mset a (if sc_finished (w_scopes w s) then {#()#} else {#})))"
  proof (cases g)
    case (Finisher t st)
    with g obtain st' where st: "finish_step d t st w = (st', w')" "g' = Finisher t st'"
      by (auto split: prod.splits)
    from finish_step_latch[OF st(1)] Finisher st(2) show ?thesis by auto
  next
    case (Checker c oper opts st)
    with g show ?thesis by (auto simp: check_step_latch split: prod.splits)
  qed
qed (simp_all add: add_openTxs_def)

lemma won_latch_start: "List.map_filter (won_latch s) (map start jobs) = []"
proof (induction jobs)
  case (Cons j jobs)
  then show ?case by (cases j) (simp_all add: map_filter_simps)
qed (simp add: map_filter_simps)

lemma latch_won_once:
  assumes "run_schedule d es (map start jobs, w) = (gs, w')"
  shows "mset (List.map_filter (won_latch s) gs) + (if sc_finished (w_scopes w s) then {#()#} else {#})
    = (if sc_finished (w_scopes w' s) then {#()#} else {#}) \<and> length gs = length jobs"
  using latch.run[OF _ _ _ assms, of s]
  by (simp add: latch.tagged_def won_latch_start list_all_length)


subsection \<open>Racing calls of a pinned checkpoint\<close>

text \<open>
  Goroutines that all run the same checkpoint, whose option pins the counts, on contexts of one
  scope and outside any allow region; the detector has no allowlist and one collecting reporter.
\<close>

definition pinned_job :: "scope_ref \<Rightarrow> op \<Rightarrow> string \<Rightarrow> int list \<Rightarrow> job \<Rightarrow> bool" where
  "pinned_job s oper reason counts j \<longleftrightarrow>
     (\<exists>c. j = CheckJob c oper [AllowInTransaction reason counts] \<and> scopeAndMarkFrom c = (Some s, None))"

text \<open>A schedule that closes no transaction of the scope; it may open some.\<close>

fun keeps_open :: "scope_ref \<Rightarrow> event \<Rightarrow> bool" where
  "keeps_open s (Run i) \<longleftrightarrow> True"
| "keeps_open s (Counter s' n) \<longleftrightarrow> s' \<noteq> s \<or> 0 \<le> n"

type_synonym brief = "string \<times> op \<times> int \<times> int list"

definition brief :: "violation \<Rightarrow> brief" where
  "brief v = (v_Scope v, v_Op v, v_Call v, v_AllowedCalls v)"

definition pinned_noted :: "scope_ref \<Rightarrow> violation_key \<Rightarrow> string \<Rightarrow> int list \<Rightarrow> world \<Rightarrow> bool" where
  "pinned_noted s key reason counts w \<longleftrightarrow>
     (\<exists>n. sc_calls (w_scopes w s) = [(key, \<lparr>cc_n = n, cc_declared = counts, cc_reason = reason\<rparr>)])"

fun pinned_stage :: "scope_ref \<Rightarrow> string \<Rightarrow> op \<Rightarrow> string \<Rightarrow> int list \<Rightarrow> nat \<Rightarrow> world \<Rightarrow> check_stage \<Rightarrow> bool" where
  "pinned_stage s name oper reason counts r w CEntered \<longleftrightarrow> True"
| "pinned_stage s name oper reason counts r w (CInside s' mark opn) \<longleftrightarrow> s' = s \<and> mark = None"
| "pinned_stage s name oper reason counts r w (CCounted s' mark opn k) \<longleftrightarrow>
     s' = s \<and> mark = None \<and> map fst (sc_calls (w_scopes w s)) = [key_for name oper]"
| "pinned_stage s name oper reason counts r w (CRegion s' mark opn k declined) \<longleftrightarrow>
     s' = s \<and> mark = None \<and> declined = counts \<and> \<not> coversCalls counts k \<and> pinned_noted s (key_for name oper) reason counts w"
| "pinned_stage s name oper reason counts r w (CList s' opn k declined) \<longleftrightarrow>
     s' = s \<and> declined = counts \<and> \<not> coversCalls counts k \<and> pinned_noted s (key_for name oper) reason counts w"
| "pinned_stage s name oper reason counts r w (CEmit s' opn k declined) \<longleftrightarrow>
     s' = s \<and> declined = counts \<and> \<not> coversCalls counts k \<and> pinned_noted s (key_for name oper) reason counts w"
| "pinned_stage s name oper reason counts r w (CDeliver rep reps next) \<longleftrightarrow>
     (\<exists>v. rep = RViolation v \<and> reps \<in> {[CollectingReporter r], []} \<and> next = CReturned (Reported (v_Call v))
        \<and> brief v = (name, oper, v_Call v, counts) \<and> \<not> coversCalls counts (v_Call v)) \<and> pinned_noted s (key_for name oper) reason counts w"
| "pinned_stage s name oper reason counts r w (CReturned (Suppressed k)) \<longleftrightarrow>
     coversCalls counts k \<and> pinned_noted s (key_for name oper) reason counts w"
| "pinned_stage s name oper reason counts r w (CReturned (Reported k)) \<longleftrightarrow>
     \<not> coversCalls counts k \<and> pinned_noted s (key_for name oper) reason counts w"
| "pinned_stage s name oper reason counts r w _ \<longleftrightarrow> False"

fun delivered :: "string \<Rightarrow> op \<Rightarrow> int list \<Rightarrow> check_stage \<Rightarrow> brief option" where
  "delivered name oper counts (CDeliver (RViolation v) [] next) = Some (brief v)"
| "delivered name oper counts (CReturned (Reported k)) = Some (name, oper, k, counts)"
| "delivered name oper counts _ = None"

text \<open>The scope and the collector while the goroutines race.\<close>

definition racing :: "scope_ref \<Rightarrow> string \<Rightarrow> op \<Rightarrow> nat \<Rightarrow> stale_allow list \<Rightarrow> world \<Rightarrow> bool" where
  "racing s name oper r stale w \<longleftrightarrow>
     sc_name (w_scopes w s) = name \<and> 0 < sc_openTxs (w_scopes w s) \<and> \<not> sc_finished (w_scopes w s)
     \<and> sc_marks (w_scopes w s) = [] \<and> map fst (sc_calls (w_scopes w s)) \<in> {[], [key_for name oper]}
     \<and> StaleAllows (rs_collectors (w_rs w) r) = stale"


fun pinned_goroutine :: "scope_ref \<Rightarrow> string \<Rightarrow> op \<Rightarrow> string \<Rightarrow> int list \<Rightarrow> nat \<Rightarrow> world \<Rightarrow> goroutine \<Rightarrow> bool" where
  "pinned_goroutine s name oper reason counts r w (Checker c oper' opts st) \<longleftrightarrow>
     scopeAndMarkFrom c = (Some s, None) \<and> oper' = oper \<and> opts = [AllowInTransaction reason counts]
     \<and> pinned_stage s name oper reason counts r w st"
| "pinned_goroutine s name oper reason counts r w (Finisher s' st) \<longleftrightarrow> False"

fun delivered_by :: "string \<Rightarrow> op \<Rightarrow> int list \<Rightarrow> goroutine \<Rightarrow> brief option" where
  "delivered_by name oper counts (Checker c oper' opts st) = delivered name oper counts st"
| "delivered_by name oper counts (Finisher s st) = None"

definition pinned_detector :: "detector \<Rightarrow> nat \<Rightarrow> int list \<Rightarrow> bool" where
  "pinned_detector d r counts \<longleftrightarrow>
     d_allowlist d = None \<and> d_reporters d = [CollectingReporter r] \<and> counts \<noteq> []"

lemma single_entry: "map fst m = [key] \<Longrightarrow> \<exists>c. m = [(key, c)]"
  by (cases m) auto

lemma bump_single:
  "sc_calls sc = [] \<Longrightarrow> sc_calls (snd (bumpCall key sc)) = [(key, \<lparr>cc_n = 1, cc_declared = [], cc_reason = []\<rparr>)]"
  "sc_calls sc = [(key, c)] \<Longrightarrow> sc_calls (snd (bumpCall key sc)) = [(key, c\<lparr>cc_n := cc_n c + 1\<rparr>)]"
  by (simp_all add: bumpCall_def map_put_def Let_def)

lemma note_single:
  "sc_calls sc = [(key, c)] \<Longrightarrow> counts \<noteq> [] \<Longrightarrow>
     sc_calls (noteDeclared key counts reason sc)
       = [(key, \<lparr>cc_n = cc_n c, cc_declared = counts, cc_reason = reason\<rparr>)]"
  by (cases c) (simp add: noteDeclared_def map_put_def)

lemma config_of_pinned [simp]:
  "config_of [AllowInTransaction reason counts] =
     \<lparr>cfg_allowed = True, cfg_allowReason = reason, cfg_allowCounts = counts, cfg_attrs = []\<rparr>"
  by (simp add: config_of_def)

lemma keys_cases:
  assumes "map fst m \<in> {[], [key]}"
  obtains "m = []" | c where "m = [(key, c)]"
  using assms single_entry[of m key] by auto

text \<open>A pinned goroutine keeps what the others rely on: the entry of its key, and its declaration.\<close>

lemma pinned_calls_step:
  assumes "racing s name oper r stale w" "counts \<noteq> []"
    "scopeAndMarkFrom c = (Some s, None)" "pinned_stage s name oper reason counts r w st"
    "check_step d c oper [AllowInTransaction reason counts] st w = (st', w')"
  shows "map fst (sc_calls (w_scopes w' s)) \<in> {[], [key_for name oper]}
    \<and> (map fst (sc_calls (w_scopes w s)) = [key_for name oper] \<longrightarrow> map fst (sc_calls (w_scopes w' s)) = [key_for name oper])
    \<and> (pinned_noted s (key_for name oper) reason counts w \<longrightarrow> pinned_noted s (key_for name oper) reason counts w')"
proof -
  have k: "scope_key w s oper = key_for name oper" "map fst (sc_calls (w_scopes w s)) \<in> {[], [key_for name oper]}"
    using assms(1) by (simp_all add: racing_def scope_key_for)
  show ?thesis
    using assms(4,5)
  proof (cases "(d, c, oper, [AllowInTransaction reason counts], st, w)" rule: check_step.cases)
    case 1
    with assms(5) k show ?thesis by (auto dest!: w_scopes_enter simp: pinned_noted_def)
  next
    case 2
    with assms(4,5) k(1) show ?thesis
      by (rule_tac keys_cases[OF k(2)]) (auto simp: Let_def bump_single pinned_noted_def)
  next
    case 3
    with assms(2,4,5) k(1) show ?thesis
      by (rule_tac keys_cases[OF k(2)]) (auto simp: Let_def note_single pinned_noted_def)
  next
    case 7
    with assms(5) k show ?thesis by (auto simp: capture_def now_def time_now_def pinned_noted_def)
  qed (use assms(4,5) k in \<open>auto simp: pinned_noted_def split: option.splits prod.splits\<close>)
qed


lemma pinned_stage_scope:
  "pinned_stage s name oper reason counts r w st \<Longrightarrow> stage_scope st = Some t \<Longrightarrow> t = s"
  by (cases st) auto

text \<open>What a step makes of the stage, and of the collector.\<close>

lemma pinned_stage_step:
  assumes "racing s name oper r stale w" "pinned_detector d r counts"
    "scopeAndMarkFrom c = (Some s, None)" "pinned_stage s name oper reason counts r w st"
    "check_step d c oper [AllowInTransaction reason counts] st w = (st', w')"
  shows "pinned_stage s name oper reason counts r w' st'
    \<and> StaleAllows (rs_collectors (w_rs w') r) = StaleAllows (rs_collectors (w_rs w) r)
    \<and> (delivered name oper counts st' = delivered name oper counts st
         \<and> Violations (rs_collectors (w_rs w') r) = Violations (rs_collectors (w_rs w) r)
       \<or> (\<exists>v. delivered name oper counts st = None \<and> delivered name oper counts st' = Some (brief v)
         \<and> Violations (rs_collectors (w_rs w') r) = Violations (rs_collectors (w_rs w) r) @ [v]))"
proof -
  have k: "scope_key w s oper = key_for name oper" "map fst (sc_calls (w_scopes w s)) \<in> {[], [key_for name oper]}"
    "sc_name (w_scopes w s) = name" "0 < sc_openTxs (w_scopes w s)"
    using assms(1) by (simp_all add: racing_def scope_key_for)
  have d: "d_allowlist d = None" "d_reporters d = [CollectingReporter r]" "counts \<noteq> []"
    using assms(2) by (simp_all add: pinned_detector_def)
  show ?thesis
    using assms(4,5)
  proof (cases "(d, c, oper, [AllowInTransaction reason counts], st, w)" rule: check_step.cases)
    case 1
    with assms(3,5) k(4) show ?thesis by (auto simp: check_enter_def Let_def)
  next
    case 2
    with assms(4,5) k(1) show ?thesis
      by (rule_tac keys_cases[OF k(2)]) (auto simp: Let_def bump_single)
  next
    case 3
    with assms(4,5) d(3) k(1) single_entry[of "sc_calls (w_scopes w s)" "key_for name oper"] show ?thesis
      by (auto simp: Let_def note_single pinned_noted_def)
  next
    case 7
    with assms(4,5) d(2) k(3) show ?thesis
      by (auto simp: capture_def now_def time_now_def pinned_noted_def brief_def)
  next
    case 9
    with assms(4,5) show ?thesis
      by (auto simp: deliver_one_def collector_receive_def StaleAllows_def Violations_def pinned_noted_def brief_def) blast+
  qed (use assms(4,5) d(1) in \<open>auto simp: brief_def\<close>)
qed

lemma pinned_stable:
  assumes "map fst (sc_calls (w_scopes w s)) = [key_for name oper]
        \<longrightarrow> map fst (sc_calls (w_scopes w' s)) = [key_for name oper]"
    "pinned_noted s (key_for name oper) reason counts w \<longrightarrow> pinned_noted s (key_for name oper) reason counts w'"
    "pinned_goroutine s name oper reason counts r w g"
  shows "pinned_goroutine s name oper reason counts r w' g"
proof (cases g)
  case (Checker c oper' opts st)
  with assms show ?thesis
    by (cases "(s, name, oper, reason, counts, r, w, st)" rule: pinned_stage.cases) auto
next
  case (Finisher s' st)
  with assms show ?thesis by simp
qed


interpretation pinned: tally d
  "\<lambda>w. pinned_detector d r counts \<and> racing s name oper r stale w"
  "pinned_goroutine s name oper reason counts r" "keeps_open s" "delivered_by name oper counts"
  "\<lambda>w. mset (map brief (Violations (rs_collectors (w_rs w) r)))"
  for d r counts s name oper stale reason
proof
  fix w w' g g' h
  assume w: "pinned_detector d r counts \<and> racing s name oper r stale w"
    and g: "pinned_goroutine s name oper reason counts r w g" "go_step d g w = (g', w')"
  from g obtain c st st' where c: "scopeAndMarkFrom c = (Some s, None)"
    "pinned_stage s name oper reason counts r w st" "g = Checker c oper [AllowInTransaction reason counts] st"
    "check_step d c oper [AllowInTransaction reason counts] st w = (st', w')"
    "g' = Checker c oper [AllowInTransaction reason counts] st'"
    by (cases g) (auto split: prod.splits)
  have r: "racing s name oper r stale w" "pinned_detector d r counts" "counts \<noteq> []"
    using w by (simp_all add: pinned_detector_def)
  note calls = pinned_calls_step[OF r(1,3) c(1,2,4)]
  note stage = pinned_stage_step[OF r(1,2) c(1,2,4)]
  have "sc_name (w_scopes w' s) = sc_name (w_scopes w s)"
    using check_step_counts[OF c(4)] pinned_stage_scope[OF c(2)] c(1) by (simp add: scopeFrom_def)
  with calls stage check_step_latch[OF c(4), of s] r(1) have "racing s name oper r stale w'"
    by (simp add: racing_def)
  with stage w c show "(pinned_detector d r counts \<and> racing s name oper r stale w')
      \<and> pinned_goroutine s name oper reason counts r w' g'
      \<and> (delivered_by name oper counts g' = delivered_by name oper counts g
           \<and> mset (map brief (Violations (rs_collectors (w_rs w') r)))
             = mset (map brief (Violations (rs_collectors (w_rs w) r)))
         \<or> (\<exists>a. delivered_by name oper counts g = None \<and> delivered_by name oper counts g' = Some a
             \<and> mset (map brief (Violations (rs_collectors (w_rs w') r)))
               = add_mset a (mset (map brief (Violations (rs_collectors (w_rs w) r))))))"
    by (auto simp del: split_paired_Ex)
  show "pinned_goroutine s name oper reason counts r w h \<Longrightarrow> pinned_goroutine s name oper reason counts r w' h"
    by (rule pinned_stable[of w s name oper w' reason counts r h]) (use calls in auto)
next
  fix w t n h
  assume "pinned_detector d r counts \<and> racing s name oper r stale w" "keeps_open s (Counter t n)"
  then show "(pinned_detector d r counts \<and> racing s name oper r stale (add_openTxs t n w))
      \<and> mset (map brief (Violations (rs_collectors (w_rs (add_openTxs t n w)) r)))
        = mset (map brief (Violations (rs_collectors (w_rs w) r)))
      \<and> (pinned_goroutine s name oper reason counts r w h
          \<longrightarrow> pinned_goroutine s name oper reason counts r (add_openTxs t n w) h)"
    using pinned_stable[of w s name oper "add_openTxs t n w" reason counts r h]
    by (auto simp: racing_def add_openTxs_def pinned_noted_def)
qed


lemma filter_past_max:
  assumes "counts \<noteq> []"
  shows "filter (\<lambda>k. \<not> coversCalls counts k) [1..n] = [maxCount counts + 1..n]"
proof (rule sorted_distinct_set_unique)
  show "set (filter (\<lambda>k. \<not> coversCalls counts k) [1..n]) = set [maxCount counts + 1..n]"
    using assms maxCount_nonneg[of counts] by (auto simp: coversCalls_def)
qed (simp_all add: sorted_wrt_filter)

lemma pinned_returned:
  assumes "list_all (pinned_goroutine s name oper reason counts r w) gs" "list_all returned gs"
  shows "List.map_filter (delivered_by name oper counts) gs = map (\<lambda>k. (name, oper, k, counts))
      (filter (\<lambda>k. \<not> coversCalls counts k) (List.map_filter (call_of s oper) gs))
    \<and> length (List.map_filter (call_of s oper) gs) = length gs
    \<and> (gs \<noteq> [] \<longrightarrow> pinned_noted s (key_for name oper) reason counts w)"
  using assms
proof (induction gs)
  case (Cons g gs)
  from Cons.prems obtain c opts v where g: "g = Checker c oper opts (CReturned v)" "scopeFrom c = Some s"
    "pinned_stage s name oper reason counts r w (CReturned v)"
    by (cases g rule: returned.cases) (auto simp: scopeFrom_def)
  from g(3) have "pinned_noted s (key_for name oper) reason counts w" by (cases v) simp_all
  with Cons g show ?case by (cases v) (simp_all add: map_filter_simps)
qed (simp add: map_filter_simps)

lemma only_counters_move:
  "run_schedule d es ([], w) = (gs, w') \<Longrightarrow> sc_calls (w_scopes w' s) = sc_calls (w_scopes w s)"
proof (induction es arbitrary: w)
  case (Cons e es)
  then show ?case by (cases e) (auto simp: add_openTxs_def)
qed simp

lemma pinned_start:
  "list_all (pinned_job s oper reason counts) jobs \<Longrightarrow>
     list_all (pinned_goroutine s name oper reason counts r w) (map start jobs)
     \<and> List.map_filter (delivered_by name oper counts) (map start jobs) = []"
  by (induction jobs) (auto simp: pinned_job_def map_filter_simps)

text \<open>The scope and the collector when every goroutine has returned.\<close>

lemma pinned_race:
  fixes w w' :: world and jobs :: "job list" and s :: scope_ref
  defines "name \<equiv> sc_name (w_scopes w s)"
  assumes d: "pinned_detector d r counts" and jobs: "list_all (pinned_job s oper reason counts) jobs"
    and w: "0 < sc_openTxs (w_scopes w s)" "sc_calls (w_scopes w s) = []" "sc_marks (w_scopes w s) = []"
      "\<not> sc_finished (w_scopes w s)"
    and run: "list_all (keeps_open s) es" "run_schedule d es (map start jobs, w) = (gs, w')" "list_all returned gs"
  shows "racing s name oper r (StaleAllows (rs_collectors (w_rs w) r)) w'
    \<and> sc_calls (w_scopes w' s) = entry_after (length jobs) counts reason (key_for name oper)
    \<and> mset (map brief (Violations (rs_collectors (w_rs w') r))) = mset (map brief (Violations (rs_collectors (w_rs w) r)))
        + mset (map (\<lambda>k. (name, oper, k, counts)) [maxCount counts + 1..int (length jobs)])"
proof -
  let ?key = "key_for name oper"
  have c0: "calls_of (w_scopes w s) ?key = 0" using w(2) by (simp add: calls_of_def)
  have "pinned_detector d r counts \<and> racing s name oper r (StaleAllows (rs_collectors (w_rs w) r)) w"
    using d w by (simp add: racing_def name_def)
  from pinned.run[OF this conjunct1[OF pinned_start[OF jobs]] run(1,2)]
  have p: "racing s name oper r (StaleAllows (rs_collectors (w_rs w) r)) w'"
    "list_all (pinned_goroutine s name oper reason counts r w') gs" "length gs = length jobs"
    "mset (List.map_filter (delivered_by name oper counts) gs) + mset (map brief (Violations (rs_collectors (w_rs w) r)))
       = mset (map brief (Violations (rs_collectors (w_rs w') r)))"
    by (simp_all add: pinned.tagged_def pinned_start[OF jobs])
  note ret = pinned_returned[OF p(2) run(3)]
  have i: "mset (List.map_filter (call_of s oper) gs) = mset [1..calls_of (w_scopes w' s) ?key]"
    "0 \<le> calls_of (w_scopes w' s) ?key"
    using indices_handed_out[OF _ run(2), of s oper] c0 by (simp_all add: name_def)
  from i(1) have "length (List.map_filter (call_of s oper) gs) = length [1..calls_of (w_scopes w' s) ?key]"
    by (rule mset_eq_length)
  then have "nat (calls_of (w_scopes w' s) ?key) = length jobs" using ret p(3) by simp
  with i(2) have n: "calls_of (w_scopes w' s) ?key = int (length jobs)" by linarith
  have cn: "counts \<noteq> []" using d by (simp add: pinned_detector_def)
  let ?past = "\<lambda>k. \<not> coversCalls counts k" and ?f = "\<lambda>k. (name, oper, k, counts)"
  have "mset (filter ?past (List.map_filter (call_of s oper) gs)) = mset (filter ?past [1..int (length jobs)])"
    using i(1) unfolding n mset_filter by (rule arg_cong)
  also have "\<dots> = mset [maxCount counts + 1..int (length jobs)]"
    by (simp only: filter_past_max[OF cn])
  finally have "mset (List.map_filter (delivered_by name oper counts) gs)
      = mset (map ?f [maxCount counts + 1..int (length jobs)])"
    by (simp only: ret mset_map)
  with p(4) have v: "mset (map brief (Violations (rs_collectors (w_rs w') r)))
      = mset (map brief (Violations (rs_collectors (w_rs w) r)))
        + mset (map ?f [maxCount counts + 1..int (length jobs)])"
    by (simp only: add.commute)
  have "sc_calls (w_scopes w' s) = entry_after (length jobs) counts reason ?key"
  proof (cases "jobs = []")
    case True
    with run(2) w(2) show ?thesis by (simp add: entry_after_def only_counters_move)
  next
    case False
    with ret p(3) obtain m where
      "sc_calls (w_scopes w' s) = [(?key, \<lparr>cc_n = m, cc_declared = counts, cc_reason = reason\<rparr>)]"
      by (auto simp: pinned_noted_def)
    with n False show ?thesis by (simp add: calls_of_def entry_after_def)
  qed
  with p(1) v show ?thesis by blast
qed


lemma upto_remainder:
  fixes b c :: int
  assumes "A \<union> {1..b} = {1..c}" "A \<inter> {1..b} = {}" "0 \<le> b"
  shows "A = {b <.. c}"
proof -
  have "A = {1..c} - {1..b}" using assms(1,2) by blast
  with assms(3) show ?thesis by auto
qed

subsection \<open>Properties\<close>


text \<open>
  C23. A checkpoint, or a session's verdict on a write, returns after at most eight accesses of its
  own and two for each reporter and each wrapper around one, whatever the other goroutines do
  and however the schedule interleaves them.
\<close>

theorem check_is_wait_free:
  assumes "i < length gs" "gs ! i = start j" "\<And>s. j \<noteq> FinishJob s"
    "8 + 2 * turns (d_reporters d) \<le> count_list es (Run i)"
  shows "returned (fst (run_schedule d es (gs, w)) ! i)"
proof -
  obtain gs' w' where r: "run_schedule d es (gs, w) = (gs', w')" by fastforce
  obtain c oper opts st where j: "gs ! i = Checker c oper opts st" "check_left (turns (d_reporters d)) st = 8 + 2 * turns (d_reporters d)"
    using assms(2,3) by (cases j) auto
  from checker_progress[OF assms(1) j(1) r] j(2) assms(4)
  obtain st' where "gs' ! i = Checker c oper opts st'" "check_left (turns (d_reporters d)) st' = 0"
    by auto
  with r show ?thesis by (auto simp: check_left_0)
qed

theorem check_is_wait_free_witness:
  "returned (fst (run_schedule (New []) (concat (replicate 8 [Run 1, Run 0, Counter 0 1]))
     ([start (CheckJob Background (Op ''mail'' ''m'') []), start (FinishJob 0)], initial_world int (\<lambda>_. []))) ! 0)"
  by (rule check_is_wait_free[where j = "CheckJob Background (Op ''mail'' ''m'') []"])
    (simp_all add: New_def eval_nat_numeral)

text \<open>
  C12. The indices of the in-transaction calls are handed out exactly once: under every schedule
  the goroutines that counted a call of an operation on a scope hold the indices from the count
  before to the count now, each one of them.
\<close>

theorem call_indices_distinct:
  assumes "0 \<le> calls_of (w_scopes w s) (key_for (sc_name (w_scopes w s)) oper)"
    "run_schedule d es (map start jobs, w) = (gs, w')"
  shows "let key = key_for (sc_name (w_scopes w s)) oper; ks = List.map_filter (call_of s oper) gs in
    distinct ks \<and> set ks = {calls_of (w_scopes w s) key <.. calls_of (w_scopes w' s) key}
    \<and> calls_of (w_scopes w' s) key = calls_of (w_scopes w s) key + int (length ks)"
proof -
  let ?key = "key_for (sc_name (w_scopes w s)) oper" and ?ks = "List.map_filter (call_of s oper) gs"
  let ?b = "calls_of (w_scopes w s) ?key" and ?c = "calls_of (w_scopes w' s) ?key"
  note h = indices_handed_out[OF assms]
  have e: "mset (?ks @ [1..?b]) = mset [1..?c]" using h by simp
  have d: "distinct (?ks @ [1..?b])" using mset_eq_imp_distinct_iff[OF e] by simp
  have "set ?ks \<union> {1..?b} = {1..?c}" using mset_eq_setD[OF e] by simp
  with d assms(1) have "set ?ks = {?b <.. ?c}" by (simp add: upto_remainder)
  moreover have "int (length ?ks) = ?c - ?b"
    using mset_eq_length[OF e] assms(1) conjunct1[OF conjunct2[OF h]] by simp
  ultimately show ?thesis using d by (simp add: Let_def)
qed

definition race_world :: world where
  "race_world = update_scope 0 (\<lambda>sc. sc\<lparr>sc_name := ''S'', sc_openTxs := 1\<rparr>) (initial_world int (\<lambda>_. []))"

definition race_detector :: detector where
  "race_detector = New [WithReporter [CollectingReporter 0]]"

definition race_jobs :: "job list" where
  "race_jobs = replicate 2 (CheckJob (WithValue Background ScopeCtxKey (ScopeVal 0)) (Op ''mail'' ''m'')
     [AllowInTransaction ''why'' [1]])"

text \<open>The second goroutine is counted first.\<close>

definition race_prefix :: "event list" where
  "race_prefix = [Run 0, Run 1, Run 1, Run 0]"

definition race_schedule :: "event list" where
  "race_schedule = race_prefix @ [Counter 0 1, Run 0, Run 1, Run 0, Run 0, Run 0, Run 0, Run 0]"

lemmas race_defs = race_world_def race_detector_def race_jobs_def race_prefix_def race_schedule_def
  initial_world_def initial_store_def new_scope_def New_def WithReporter_def add_openTxs_def
  key_for_def scope_key_def check_enter_def write_enter_def scopeAndMarkFrom_def

theorem call_indices_distinct_witness:
  "let gs = fst (run_schedule race_detector race_prefix (map start race_jobs, race_world)) in
     distinct (List.map_filter (call_of 0 (Op ''mail'' ''m'')) gs)
     \<and> List.map_filter (call_of 0 (Op ''mail'' ''m'')) gs = [2, 1]"
proof -
  have c: "0 \<le> calls_of (w_scopes race_world 0) (key_for (sc_name (w_scopes race_world 0)) (Op ''mail'' ''m''))"
    by (simp add: race_defs calls_of_def)
  have "List.map_filter (call_of 0 (Op ''mail'' ''m''))
      (fst (run_schedule race_detector race_prefix (map start race_jobs, race_world))) = [2, 1]"
    by (simp add: race_defs calls_of_def Let_def eval_nat_numeral map_filter_simps scopeFrom_def)
  then show ?thesis
    using call_indices_distinct[OF c surjective_pairing, of race_detector race_prefix race_jobs]
    by (simp add: Let_def)
qed

text \<open>
  C16. However many goroutines end a scope, and however they race, at most one of them goes past
  the latch to report the shortfalls and the leaked transactions; exactly one has once the scope
  is marked finished.
\<close>

theorem scope_end_reported_by_one:
  assumes "run_schedule d es (map start jobs, w) = (gs, w')" "\<not> sc_finished (w_scopes w s)"
  shows "length (filter (\<lambda>g. won_latch s g = Some ()) gs) = (if sc_finished (w_scopes w' s) then 1 else 0)"
proof -
  have "length (List.map_filter (won_latch s) gs) = (if sc_finished (w_scopes w' s) then 1 else 0)"
    using latch_won_once[OF assms(1), of s] assms(2)
    by (auto split: if_splits dest: arg_cong[of _ _ size])
  then show ?thesis by (simp add: map_filter_def)
qed

definition three_ends :: system where
  "three_ends = run_schedule (New []) [Run 1, Run 0, Run 2]
     (map start (replicate 3 (FinishJob 0)), initial_world int (\<lambda>_. []))"

theorem scope_end_reported_by_one_witness:
  "length (filter (\<lambda>g. won_latch 0 g = Some ()) (fst three_ends)) = 1"
proof -
  have "\<not> sc_finished (w_scopes (initial_world int (\<lambda>_. [])) 0)"
    by (simp add: initial_world_def new_scope_def)
  from scope_end_reported_by_one[OF surjective_pairing this, of "New []" "[Run 1, Run 0, Run 2]" "replicate 3 (FinishJob 0)"]
  have "length (filter (\<lambda>g. won_latch 0 g = Some ()) (fst three_ends))
      = (if sc_finished (w_scopes (snd three_ends) 0) then 1 else 0)"
    unfolding three_ends_def .
  moreover have "sc_finished (w_scopes (snd three_ends) 0)"
    by (simp add: three_ends_def initial_world_def new_scope_def eval_nat_numeral)
  ultimately show ?thesis by simp
qed

text \<open>
  C9. Racing calls of a pinned checkpoint are judged as if they ran one after another. The
  detector has no allowlist and a single reporter, an empty collector; the scope is unfinished,
  has a transaction open, has counted no call yet and has no counted region; n goroutines run
  the same checkpoint with the same non-empty counts, on contexts of the scope outside every
  allow region; and the schedule closes no transaction of the scope, though it may open some and
  may move other scopes. Then every such schedule in which they all return leaves the same
  violations up to their order, one for each index past the largest declared count, and the end
  of the scope then reports the declaration exactly when n is positive, not past that count and
  not declared.
\<close>

theorem racing_calls_pinned:
  assumes "d_allowlist d = None" "d_reporters d = [CollectingReporter r]" "counts \<noteq> []"
    "list_all (pinned_job s oper reason counts) jobs"
    "0 < sc_openTxs (w_scopes w s)" "sc_calls (w_scopes w s) = []" "sc_marks (w_scopes w s) = []"
    "\<not> sc_finished (w_scopes w s)" "rs_collectors (w_rs w) r = new_collector"
    "list_all (keeps_open s) es" "run_schedule d es (map start jobs, w) = (gs, w')" "list_all returned gs"
  shows "let name = sc_name (w_scopes w s); n = length jobs;
             col = rs_collectors (w_rs (finishScope d s w')) r in
      mset (map brief (Violations col)) = mset (map (\<lambda>k. (name, oper, k, counts)) [maxCount counts + 1..int n])
    \<and> StaleAllows col =
        (if n \<noteq> 0 \<and> int n \<le> maxCount counts \<and> int n \<notin> set counts
         then [\<lparr>st_Scope = name, st_Op = oper, st_Reason = reason, st_Calls = int n, st_AllowedCalls = counts\<rparr>]
         else [])"
proof -
  let ?name = "sc_name (w_scopes w s)"
  have "pinned_detector d r counts" using assms(1-3) by (simp add: pinned_detector_def)
  from pinned_race[OF this assms(4-8,10-12)] assms(9)
  have p: "racing s ?name oper r [] w'"
    "sc_calls (w_scopes w' s) = entry_after (length jobs) counts reason (key_for ?name oper)"
    "mset (map brief (Violations (rs_collectors (w_rs w') r)))
       = mset (map (\<lambda>k. (?name, oper, k, counts)) [maxCount counts + 1..int (length jobs)])"
    by (simp_all add: new_collector_def Violations_def StaleAllows_def)
  have "call_shortfalls (w_marks w') (w_scopes w' s) =
    (if length jobs \<noteq> 0 \<and> misses_counts counts (int (length jobs))
     then [\<lparr>st_Scope = ?name, st_Op = oper, st_Reason = reason, st_Calls = int (length jobs), st_AllowedCalls = counts\<rparr>]
     else [])"
    using shortfalls_entry[of "w_scopes w' s" "length jobs" counts reason oper "w_marks w'"] p(1,2) assms(3)
    by (simp add: racing_def)
  moreover have "StaleAllows (rs_collectors (w_rs (finishScope d s w')) r)
      = StaleAllows (rs_collectors (w_rs w') r) @ call_shortfalls (w_marks w') (w_scopes w' s)"
    "Violations (rs_collectors (w_rs (finishScope d s w')) r) = Violations (rs_collectors (w_rs w') r)"
    using p(1) assms(2)
    by (simp_all add: racing_def finishScope_rs Let_def collector_delivered collector_stale StaleAllows_def
        Violations_def collector_receive_def del: deliver_reports_simps)
  ultimately show ?thesis using p(1,3) by (simp add: racing_def Let_def misses_counts_def)
qed


theorem racing_calls_pinned_witness:
  "let col = rs_collectors (w_rs (finishScope race_detector 0
       (snd (run_schedule race_detector race_schedule (map start race_jobs, race_world))))) 0
   in mset (map brief (Violations col)) = {#(''S'', Op ''mail'' ''m'', 2, [1])#} \<and> StaleAllows col = []"
proof -
  have "d_allowlist race_detector = None" "d_reporters race_detector = [CollectingReporter 0]" "[1] \<noteq> ([] :: int list)"
    "list_all (pinned_job 0 (Op ''mail'' ''m'') ''why'' [1]) race_jobs"
    "0 < sc_openTxs (w_scopes race_world 0)" "sc_calls (w_scopes race_world 0) = []"
    "sc_marks (w_scopes race_world 0) = []" "\<not> sc_finished (w_scopes race_world 0)"
    "rs_collectors (w_rs race_world) 0 = new_collector" "list_all (keeps_open 0) race_schedule"
    by (simp_all add: race_defs pinned_job_def eval_nat_numeral)
  note hyps = this
  have "list_all returned (fst (run_schedule race_detector race_schedule (map start race_jobs, race_world)))"
    by (simp add: race_defs calls_of_def Let_def eval_nat_numeral coversCalls_def maxCount_def
        capture_def now_def time_now_def case_prod_unfold)
  from racing_calls_pinned[OF hyps surjective_pairing this]
  show ?thesis
    by (simp add: Let_def maxCount_def race_jobs_def) (simp add: race_defs)
qed

end
