(* ===== verification/RacingRegions.thy ===== *)
theory RacingRegions
  imports Concurrent
begin

text \<open>
  Goroutines inside one counted allow region (allow.go, check.go, session.go). Each runs a
  checkpoint of its own, of any operation, or writes through a connection that holds no
  transaction of the scope, on a context that carries the region; they share the region's
  atomic counter. Which of them the region declines depends on the schedule, how many does not.
\<close>

subsection \<open>Goroutines in a region\<close>

text \<open>
  The context carries the region \<open>m\<close> of the scope \<open>s\<close>; a checkpoint has no allow at its call
  site, and a write is outside its own connection's transaction.
\<close>

fun region_job :: "scope_ref \<Rightarrow> mark_ref \<Rightarrow> job \<Rightarrow> bool" where
  "region_job s m (CheckJob c oper opts) \<longleftrightarrow>
     scopeAndMarkFrom c = (Some s, Some m) \<and> \<not> cfg_allowed (config_of opts)"
| "region_job s m (WriteJob c query se) \<longleftrightarrow> scopeAndMarkFrom c = (Some s, Some m) \<and> \<not> writes_within c se"
| "region_job s m (FinishJob t) \<longleftrightarrow> False"

fun checked_op :: "job \<Rightarrow> op" where
  "checked_op (CheckJob c oper opts) = oper"
| "checked_op (WriteJob c query se) = db_op query"
| "checked_op (FinishJob s) = zero_op"

fun op_of :: "goroutine \<Rightarrow> op" where
  "op_of (Checker c oper opts st) = oper"
| "op_of (Finisher s st) = zero_op"

fun region_stage :: "scope_ref \<Rightarrow> mark_ref \<Rightarrow> string \<Rightarrow> int list \<Rightarrow> nat \<Rightarrow> op \<Rightarrow> check_stage \<Rightarrow> bool" where
  "region_stage s m name counts r oper CEntered \<longleftrightarrow> True"
| "region_stage s m name counts r oper (CInside s' mark opn) \<longleftrightarrow> s' = s \<and> mark = Some m"
| "region_stage s m name counts r oper (CCounted s' mark opn k) \<longleftrightarrow> s' = s \<and> mark = Some m"
| "region_stage s m name counts r oper (CRegion s' mark opn k declined) \<longleftrightarrow>
     s' = s \<and> mark = Some m \<and> declined = []"
| "region_stage s m name counts r oper (CList s' opn k declined) \<longleftrightarrow> s' = s \<and> declined = counts"
| "region_stage s m name counts r oper (CEmit s' opn k declined) \<longleftrightarrow> s' = s \<and> declined = counts"
| "region_stage s m name counts r oper (CDeliver rep reps next) \<longleftrightarrow>
     (\<exists>v k. rep = RViolation v \<and> reps \<in> {[CollectingReporter r], []} \<and> next = CReturned (Reported k)
        \<and> v_Op v = oper \<and> v_Scope v = name \<and> v_AllowedCalls v = counts)"
| "region_stage s m name counts r oper (CReturned (Suppressed k)) \<longleftrightarrow> True"
| "region_stage s m name counts r oper (CReturned (Reported k)) \<longleftrightarrow> True"
| "region_stage s m name counts r oper (CWriting own) \<longleftrightarrow> \<not> own"
| "region_stage s m name counts r oper _ \<longleftrightarrow> False"

fun in_region :: "scope_ref \<Rightarrow> mark_ref \<Rightarrow> string \<Rightarrow> int list \<Rightarrow> nat \<Rightarrow> goroutine \<Rightarrow> bool" where
  "in_region s m name counts r (Checker c oper opts st) \<longleftrightarrow>
     region_job s m (CheckJob c oper opts) \<and> region_stage s m name counts r oper st"
| "in_region s m name counts r (Finisher t st) \<longleftrightarrow> False"

text \<open>Past the region's counter: whether the region covered the call.\<close>

fun judged :: "check_stage \<Rightarrow> bool option" where
  "judged (CList s opn k declined) = Some False"
| "judged (CEmit s opn k declined) = Some False"
| "judged (CDeliver rep reps next) = Some False"
| "judged (CReturned (Suppressed k)) = Some True"
| "judged (CReturned (Reported k)) = Some False"
| "judged _ = None"

fun judged_by :: "goroutine \<Rightarrow> bool option" where
  "judged_by (Checker c oper opts st) = judged st"
| "judged_by (Finisher s st) = None"

text \<open>Past the reporter's call: the operation it was told.\<close>

fun told_by :: "goroutine \<Rightarrow> op option" where
  "told_by (Checker c oper opts (CDeliver rep [] next)) = Some oper"
| "told_by (Checker c oper opts (CReturned (Reported k))) = Some oper"
| "told_by _ = None"

text \<open>The shared state while the goroutines race.\<close>

definition region_detector :: "detector \<Rightarrow> nat \<Rightarrow> bool" where
  "region_detector d r \<longleftrightarrow> d_allowlist d = None \<and> d_reporters d = [CollectingReporter r]"

definition undeclared :: "scope \<Rightarrow> bool" where
  "undeclared sc \<longleftrightarrow> keys_where (\<lambda>c. cc_declared c \<noteq> []) (sc_calls sc) = []"

definition region_open :: "scope_ref \<Rightarrow> mark_ref \<Rightarrow> string \<Rightarrow> string \<Rightarrow> int list \<Rightarrow> nat \<Rightarrow> world \<Rightarrow> bool" where
  "region_open s m name reason counts r w \<longleftrightarrow>
     sc_name (w_scopes w s) = name \<and> 0 < sc_openTxs (w_scopes w s) \<and> \<not> sc_finished (w_scopes w s)
     \<and> sc_marks (w_scopes w s) = [m] \<and> undeclared (w_scopes w s)
     \<and> am_reason (w_marks w m) = reason \<and> am_counts (w_marks w m) = counts \<and> 0 \<le> am_n (w_marks w m)
     \<and> StaleAllows (rs_collectors (w_rs w) r) = []
     \<and> (\<forall>v \<in> set (Violations (rs_collectors (w_rs w) r)). v_Scope v = name \<and> v_AllowedCalls v = counts)"

subsection \<open>What one step does\<close>

lemma undeclared_bump [simp]: "undeclared sc \<Longrightarrow> undeclared (snd (bumpCall key sc))"
  by (auto simp: undeclared_def bumpCall_def Let_def intro!: keys_where_put_none
      dest: keys_where_lookup split: option.split)

lemma undeclared_other [simp]: "undeclared (sc\<lparr>sc_openTxs := n\<rparr>) = undeclared sc"
  by (simp add: undeclared_def)

lemma region_step:
  assumes "region_open s m name reason counts r w" "region_detector d r"
    "region_job s m (CheckJob c oper opts)" "region_stage s m name counts r oper st"
    "check_step d c oper opts st w = (st', w')"
  shows "region_open s m name reason counts r w' \<and> region_stage s m name counts r oper st'
    \<and> (judged st' = judged st \<and> am_n (w_marks w' m) = am_n (w_marks w m)
       \<or> judged st = None \<and> judged st' = Some (coversCalls counts (am_n (w_marks w' m)))
         \<and> am_n (w_marks w' m) = am_n (w_marks w m) + 1)
    \<and> (told_by (Checker c oper opts st') = told_by (Checker c oper opts st)
         \<and> Violations (rs_collectors (w_rs w') r) = Violations (rs_collectors (w_rs w) r)
       \<or> (\<exists>v. v_Op v = oper \<and> told_by (Checker c oper opts st) = None \<and> told_by (Checker c oper opts st') = Some oper
         \<and> Violations (rs_collectors (w_rs w') r) = Violations (rs_collectors (w_rs w) r) @ [v]))"
proof -
  have o: "0 < sc_openTxs (w_scopes w s)" "sc_name (w_scopes w s) = name" "undeclared (w_scopes w s)"
    "am_counts (w_marks w m) = counts" "0 \<le> am_n (w_marks w m)"
    using assms(1) by (simp_all add: region_open_def)
  have d: "d_allowlist d = None" "d_reporters d = [CollectingReporter r]"
    using assms(2) by (simp_all add: region_detector_def)
  have c: "scopeAndMarkFrom c = (Some s, Some m)" "\<not> cfg_allowed (config_of opts)"
    using assms(3) by simp_all
  show ?thesis
    using assms(4,5)
  proof (cases "(d, c, oper, opts, st, w)" rule: check_step.cases)
    case 1
    with assms(1,5) o(1) c(1) show ?thesis by (auto simp: check_enter_def Let_def)
  next
    case 2
    with assms(1,4,5) show ?thesis by (auto simp: Let_def region_open_def)
  next
    case 3
    with assms(1,4,5) c(2) show ?thesis by (auto simp: Let_def)
  next
    case 4
    with assms(1,4,5) show ?thesis
      by (auto simp: region_open_def case_prod_unfold split: if_splits)
  next
    case 7
    with assms(1,4,5) d(2) o(2) show ?thesis
      by (auto simp: capture_def now_def time_now_def region_open_def)
  next
    case 9
    with assms(1,4,5) show ?thesis
      by (auto simp: deliver_one_def collector_receive_def StaleAllows_def Violations_def region_open_def) blast+
  next
    case 11
    with assms(1,4,5) o(1) c(1) show ?thesis by (auto simp: write_enter_def Let_def)
  qed (use assms(1,4,5) d(1) in \<open>auto\<close>)
qed

text \<open>The verdicts the region has given, in the order of its counter.\<close>

definition verdicts :: "int list \<Rightarrow> int \<Rightarrow> bool list" where
  "verdicts counts n = map (coversCalls counts) [1..n]"

lemma verdicts_next: "0 \<le> n \<Longrightarrow> mset (verdicts counts (n + 1)) = add_mset (coversCalls counts (n + 1)) (mset (verdicts counts n))"
  by (simp add: verdicts_def upto_rec2)

lemma region_step_go:
  assumes "region_open s m name reason counts r w" "region_detector d r"
    "in_region s m name counts r g" "go_step d g w = (g', w')"
  shows "region_open s m name reason counts r w' \<and> in_region s m name counts r g' \<and> op_of g' = op_of g
    \<and> (judged_by g' = judged_by g \<and> am_n (w_marks w' m) = am_n (w_marks w m)
       \<or> judged_by g = None \<and> judged_by g' = Some (coversCalls counts (am_n (w_marks w' m)))
         \<and> am_n (w_marks w' m) = am_n (w_marks w m) + 1)
    \<and> (told_by g' = told_by g
         \<and> Violations (rs_collectors (w_rs w') r) = Violations (rs_collectors (w_rs w) r)
       \<or> (\<exists>v. told_by g = None \<and> told_by g' = Some (v_Op v)
         \<and> Violations (rs_collectors (w_rs w') r) = Violations (rs_collectors (w_rs w) r) @ [v]))"
proof -
  from assms(3,4) obtain c oper opts st st' where g: "region_job s m (CheckJob c oper opts)"
    "region_stage s m name counts r oper st" "g = Checker c oper opts st"
    "check_step d c oper opts st w = (st', w')" "g' = Checker c oper opts st'"
    by (cases g) (auto split: prod.splits)
  from region_step[OF assms(1,2) g(1,2,4)] g(1) show ?thesis
    unfolding g(3,5) by auto
qed

lemma region_open_counter:
  assumes "region_open s m name reason counts r w" "keeps_open s (Counter t n)"
  shows "region_open s m name reason counts r (add_openTxs t n w)"
  using assms by (auto simp: region_open_def add_openTxs_def)

lemma add_openTxs_frame [simp, txn_frame]:
  "w_marks (add_openTxs t n w) = w_marks w" "w_rs (add_openTxs t n w) = w_rs w"
  by (simp_all add: add_openTxs_def)

text \<open>The region's counter and the collector, as accounts of what the goroutines hold.\<close>

interpretation verdict_tally: tally d
  "\<lambda>w. region_detector d r \<and> region_open s m name reason counts r w"
  "\<lambda>_. in_region s m name counts r" "keeps_open s" judged_by
  "\<lambda>w. mset (verdicts counts (am_n (w_marks w m)))"
  for d r s m name reason counts
proof
  fix w w' g g' h
  assume w: "region_detector d r \<and> region_open s m name reason counts r w"
    and g: "in_region s m name counts r g" "go_step d g w = (g', w')"
  have n: "0 \<le> am_n (w_marks w m)" using w by (simp add: region_open_def)
  from region_step_go[OF conjunct2[OF w] conjunct1[OF w] g] w
  show "(region_detector d r \<and> region_open s m name reason counts r w') \<and> in_region s m name counts r g'
      \<and> (judged_by g' = judged_by g
          \<and> mset (verdicts counts (am_n (w_marks w' m))) = mset (verdicts counts (am_n (w_marks w m)))
        \<or> (\<exists>a. judged_by g = None \<and> judged_by g' = Some a
          \<and> mset (verdicts counts (am_n (w_marks w' m)))
            = add_mset a (mset (verdicts counts (am_n (w_marks w m))))))"
    by (auto simp: verdicts_next[OF n])
qed (simp_all add: region_open_counter)

interpretation report_tally: tally d
  "\<lambda>w. region_detector d r \<and> region_open s m name reason counts r w"
  "\<lambda>_. in_region s m name counts r" "keeps_open s" told_by
  "\<lambda>w. mset (map v_Op (Violations (rs_collectors (w_rs w) r)))"
  for d r s m name reason counts
proof
  fix w w' g g' h
  assume w: "region_detector d r \<and> region_open s m name reason counts r w"
    and g: "in_region s m name counts r g" "go_step d g w = (g', w')"
  from region_step_go[OF conjunct2[OF w] conjunct1[OF w] g] w
  show "(region_detector d r \<and> region_open s m name reason counts r w') \<and> in_region s m name counts r g'
      \<and> (told_by g' = told_by g
          \<and> mset (map v_Op (Violations (rs_collectors (w_rs w') r)))
            = mset (map v_Op (Violations (rs_collectors (w_rs w) r)))
        \<or> (\<exists>a. told_by g = None \<and> told_by g' = Some a
          \<and> mset (map v_Op (Violations (rs_collectors (w_rs w') r)))
            = add_mset a (mset (map v_Op (Violations (rs_collectors (w_rs w) r))))))"
    by auto
qed (simp_all add: region_open_counter)

text \<open>A schedule moves goroutines, it does not change what they run.\<close>

lemma op_of_start [simp]: "op_of (start j) = checked_op j"
  by (cases j) simp_all

lemma op_of_step: "go_step d g w = (g', w') \<Longrightarrow> op_of g' = op_of g"
  by (cases g) (auto split: prod.splits)

lemma run_schedule_ops: "run_schedule d es (gs, w) = (gs', w') \<Longrightarrow> map op_of gs' = map op_of gs"
proof (induction es arbitrary: gs w)
  case (Cons e es)
  obtain gs1 w1 where s: "sched_step d e (gs, w) = (gs1, w1)" by fastforce
  have "map op_of gs1 = map op_of gs"
  proof (cases e)
    case (Run i)
    with s show ?thesis
      by (auto simp: map_update list_update_same_conv dest!: op_of_step split: if_splits prod.splits)
  qed (use s in auto)
  with Cons s show ?case by simp
qed simp

lemma region_start:
  assumes "list_all (region_job s m) jobs"
  shows "list_all (in_region s m name counts r) (map start jobs)"
    "List.map_filter judged_by (map start jobs) = []" "List.map_filter told_by (map start jobs) = []"
  using assms
proof (induction jobs)
  case (Cons j jobs)
  {
    case 1
    with Cons show ?case by (cases j) auto
  next
    case 2
    with Cons show ?case by (cases j) (auto simp: map_filter_simps)
  next
    case 3
    with Cons show ?case by (cases j) (auto simp: map_filter_simps)
  }
qed (simp_all add: map_filter_simps)

lemma subset_add_mset: "A \<subseteq># B \<Longrightarrow> A \<subseteq># add_mset x B"
  by (erule subset_mset.order_trans) simp

lemma region_returned:
  assumes "list_all (in_region s m name counts r) gs" "list_all returned gs"
  shows "length (List.map_filter judged_by gs) = length gs
    \<and> length (List.map_filter told_by gs) = length (filter Not (List.map_filter judged_by gs))
    \<and> mset (List.map_filter told_by gs) \<subseteq># mset (map op_of gs)"
  using assms
proof (induction gs)
  case (Cons g gs)
  from Cons.prems obtain c oper opts v where g: "g = Checker c oper opts (CReturned v)"
    "region_stage s m name counts r oper (CReturned v)"
    by (cases g rule: returned.cases) auto
  with Cons show ?case by (cases v) (auto simp: map_filter_simps intro: subset_add_mset)
qed (simp add: map_filter_simps)

lemma length_refused:
  "counts \<noteq> [] \<Longrightarrow> length (filter Not (verdicts counts n)) = nat (n - maxCount counts)"
  by (simp add: verdicts_def filter_map comp_def filter_past_max)

text \<open>The shared state when every goroutine has returned.\<close>

lemma region_race:
  assumes d: "region_detector d r" and c: "counts \<noteq> []" and jobs: "list_all (region_job s m) jobs"
    and w: "region_open s m name reason counts r w" "am_n (w_marks w m) = 0"
      "Violations (rs_collectors (w_rs w) r) = []"
    and run: "list_all (keeps_open s) es" "run_schedule d es (map start jobs, w) = (gs, w')" "list_all returned gs"
  shows "region_open s m name reason counts r w' \<and> am_n (w_marks w' m) = int (length jobs)
    \<and> length (Violations (rs_collectors (w_rs w') r)) = nat (int (length jobs) - maxCount counts)
    \<and> mset (map v_Op (Violations (rs_collectors (w_rs w') r))) \<subseteq># mset (map checked_op jobs)"
proof -
  let ?n = "am_n (w_marks w' m)" and ?vs = "Violations (rs_collectors (w_rs w') r)"
  note st = region_start[OF jobs]
  from verdict_tally.run[OF conjI[OF d w(1)] st(1) run(1,2)]
  have v: "region_open s m name reason counts r w'" "list_all (in_region s m name counts r) gs"
    "length gs = length jobs" "mset (List.map_filter judged_by gs) = mset (verdicts counts ?n)"
    using w(2) by (simp_all add: verdict_tally.tagged_def st verdicts_def)
  from report_tally.run[OF conjI[OF d w(1)] st(1) run(1,2)]
  have t: "mset (List.map_filter told_by gs) = mset (map v_Op ?vs)"
    using w(3) by (simp add: report_tally.tagged_def st)
  note ret = region_returned[OF v(2) run(3)]
  have "nat ?n = length jobs"
    using mset_eq_length[OF v(4)] ret v(3) by (simp add: verdicts_def)
  moreover have "0 \<le> ?n" using v(1) by (simp add: region_open_def)
  ultimately have n: "?n = int (length jobs)" by linarith
  have "length ?vs = length (filter Not (List.map_filter judged_by gs))"
    using mset_eq_length[OF t] ret by simp
  also have "\<dots> = length (filter Not (verdicts counts ?n))"
    using v(4) by (metis mset_eq_length mset_filter)
  finally have "length ?vs = nat (int (length jobs) - maxCount counts)"
    using length_refused[OF c] n by simp
  moreover have "map op_of gs = map checked_op jobs"
    using run_schedule_ops[OF run(2)] by (simp add: comp_def)
  ultimately show ?thesis using v(1) n ret t by simp
qed

lemma region_shortfall:
  assumes "region_open s m name reason counts r w" "counts \<noteq> []"
  shows "call_shortfalls (w_marks w) (w_scopes w s) =
    (if misses_counts counts (am_n (w_marks w m))
     then [\<lparr>st_Scope = name, st_Op = zero_op, st_Reason = reason, st_Calls = am_n (w_marks w m), st_AllowedCalls = counts\<rparr>]
     else [])"
  using assms
  by (auto simp: region_open_def undeclared_def call_shortfalls_def mark_shortfall_def misses_counts_def)

text \<open>Entering the region, as the code does it, sets the race up.\<close>

lemma region_entered:
  assumes "scopeFrom c = Some s" "counts \<noteq> []" "AllowInTransactionHere c reason counts w = (actx, w0)"
    "0 < sc_openTxs (w_scopes w s)" "\<not> sc_finished (w_scopes w s)" "sc_marks (w_scopes w s) = []"
    "undeclared (w_scopes w s)" "rs_collectors (w_rs w) r = new_collector"
  obtains m where "scopeAndMarkFrom actx = (Some s, Some m)"
    "region_open s m (sc_name (w_scopes w s)) reason counts r w0" "am_n (w_marks w0 m) = 0"
    "Violations (rs_collectors (w_rs w0) r) = []"
proof
  show "scopeAndMarkFrom actx = (Some s, Some (w_next_mark w))"
    "region_open s (w_next_mark w) (sc_name (w_scopes w s)) reason counts r w0"
    "am_n (w_marks w0 (w_next_mark w)) = 0" "Violations (rs_collectors (w_rs w0) r) = []"
    using assms
    by (auto simp: AllowInTransactionHere_def scopeFrom_def scopeAndMarkFrom_def Let_def region_open_def
        new_collector_def Violations_def StaleAllows_def registerMark_def undeclared_def
        split: option.splits prod.splits)
qed

subsection \<open>Properties\<close>

text \<open>A side effect under this context: a checkpoint without an allow, or a write of another connection.\<close>

fun side_effect :: "ctx \<Rightarrow> job \<Rightarrow> bool" where
  "side_effect actx (CheckJob c oper opts) \<longleftrightarrow> c = actx \<and> \<not> cfg_allowed (config_of opts)"
| "side_effect actx (WriteJob c query se) \<longleftrightarrow> c = actx \<and> \<not> writes_within c se"
| "side_effect actx (FinishJob s) \<longleftrightarrow> False"

text \<open>
  C10. A counted region pins its own total under any race. The detector has no allowlist and a
  single reporter, an empty collector; a region with non-empty counts is entered in an unfinished
  scope that has a transaction open, no other counted region and no exact-call declaration in its
  book. Then n goroutines act under that region: each runs a checkpoint of any operation without
  an allow of its own (a call its own option allows would not count against the region), or
  writes through a connection that is not itself inside a transaction of the scope; and the
  schedule closes no transaction of the scope. Every such schedule in which they all return
  reports exactly as many violations as n exceeds the largest declared count, each of them of one
  of the side effects and carrying the declared counts; only which ones they are depends on the
  schedule. The end of the scope then reports the region exactly when n is not past that count
  and not declared.
\<close>

theorem racing_region_pinned:
  assumes "d_allowlist d = None" "d_reporters d = [CollectingReporter r]" "counts \<noteq> []"
    "scopeFrom c = Some s" "0 < sc_openTxs (w_scopes w s)" "\<not> sc_finished (w_scopes w s)"
    "sc_marks (w_scopes w s) = []" "undeclared (w_scopes w s)" "rs_collectors (w_rs w) r = new_collector"
    "AllowInTransactionHere c reason counts w = (actx, w0)" "list_all (side_effect actx) jobs"
    "list_all (keeps_open s) es" "run_schedule d es (map start jobs, w0) = (gs, w')" "list_all returned gs"
  shows "let name = sc_name (w_scopes w s); n = int (length jobs);
             col = rs_collectors (w_rs (finishScope d s w')) r in
      length (Violations col) = nat (n - maxCount counts)
    \<and> mset (map v_Op (Violations col)) \<subseteq># mset (map checked_op jobs)
    \<and> (\<forall>v \<in> set (Violations col). v_Scope v = name \<and> v_AllowedCalls v = counts)
    \<and> StaleAllows col =
        (if n \<le> maxCount counts \<and> n \<notin> set counts
         then [\<lparr>st_Scope = name, st_Op = zero_op, st_Reason = reason, st_Calls = n, st_AllowedCalls = counts\<rparr>]
         else [])"
proof -
  let ?name = "sc_name (w_scopes w s)"
  obtain m where m: "scopeAndMarkFrom actx = (Some s, Some m)" "region_open s m ?name reason counts r w0"
    "am_n (w_marks w0 m) = 0" "Violations (rs_collectors (w_rs w0) r) = []"
    using region_entered[OF assms(4,3,10,5,6,7,8,9)] by blast
  have d: "region_detector d r" using assms(1,2) by (simp add: region_detector_def)
  have "region_job s m j" if "side_effect actx j" for j
    using that m(1) by (cases j) simp_all
  with assms(11) have jobs: "list_all (region_job s m) jobs" by (simp add: list_all_iff)
  from region_race[OF d assms(3) jobs m(2,3,4) assms(12,13,14)]
  have p: "region_open s m ?name reason counts r w'" "am_n (w_marks w' m) = int (length jobs)"
    "length (Violations (rs_collectors (w_rs w') r)) = nat (int (length jobs) - maxCount counts)"
    "mset (map v_Op (Violations (rs_collectors (w_rs w') r))) \<subseteq># mset (map checked_op jobs)"
    by blast+
  have "StaleAllows (rs_collectors (w_rs (finishScope d s w')) r)
      = StaleAllows (rs_collectors (w_rs w') r) @ call_shortfalls (w_marks w') (w_scopes w' s)"
    "Violations (rs_collectors (w_rs (finishScope d s w')) r) = Violations (rs_collectors (w_rs w') r)"
    using p(1) assms(2)
    by (simp_all add: region_open_def finishScope_rs Let_def collector_delivered collector_stale StaleAllows_def
        Violations_def collector_receive_def del: deliver_reports_simps)
  with p region_shortfall[OF p(1) assms(3)] assms(3) show ?thesis
    by (simp add: region_open_def misses_counts_def Let_def)
qed

text \<open>A mail and a write under a region of one: the write starts second and reaches the region first.\<close>

definition region_start_state :: "ctx \<times> world" where
  "region_start_state = AllowInTransactionHere (WithValue Background ScopeCtxKey (ScopeVal 0)) ''why'' [1] race_world"

definition region_jobs :: "job list" where
  "region_jobs = [CheckJob (fst region_start_state) (Op ''mail'' ''m'') [],
     WriteJob (fst region_start_state) ''DELETE FROM t'' NewSession]"

definition region_schedule :: "event list" where
  "region_schedule = [Run 0, Run 0, Run 0, Run 1, Counter 0 1, Run 1, Run 1, Run 1] @ replicate 5 (Run 0)"

definition region_end_state :: system where
  "region_end_state = run_schedule race_detector region_schedule (map start region_jobs, snd region_start_state)"

lemmas region_race_defs = race_defs region_jobs_def region_schedule_def region_start_state_def
  region_end_state_def AllowInTransactionHere_def NewSession_def writes_within_def

theorem racing_region_pinned_witness:
  "let col = rs_collectors (w_rs (finishScope race_detector 0 (snd region_end_state))) 0
   in length (Violations col) = 1 \<and> mset (map v_Op (Violations col)) \<subseteq># {#Op ''mail'' ''m'', db_op ''DELETE FROM t''#}
      \<and> StaleAllows col = []"
proof -
  have "d_allowlist race_detector = None" "d_reporters race_detector = [CollectingReporter 0]" "[1] \<noteq> ([] :: int list)"
    "scopeFrom (WithValue Background ScopeCtxKey (ScopeVal 0)) = Some 0"
    "0 < sc_openTxs (w_scopes race_world 0)" "\<not> sc_finished (w_scopes race_world 0)"
    "sc_marks (w_scopes race_world 0) = []" "undeclared (w_scopes race_world 0)"
    "rs_collectors (w_rs race_world) 0 = new_collector"
    by (simp_all add: race_defs undeclared_def scopeFrom_def)
  note hyps = this
  have jobs: "list_all (side_effect (fst region_start_state)) region_jobs"
    by (simp add: region_jobs_def config_of_def zero_config_def NewSession_def writes_within_def)
  have enter: "AllowInTransactionHere (WithValue Background ScopeCtxKey (ScopeVal 0)) ''why'' [1] race_world
      = (fst region_start_state, snd region_start_state)"
    by (simp add: region_start_state_def)
  have sched: "list_all (keeps_open 0) region_schedule" by (simp add: region_schedule_def eval_nat_numeral)
  have "list_all returned (fst region_end_state)"
    by (simp add: region_race_defs calls_of_def Let_def eval_nat_numeral coversCalls_def maxCount_def
        capture_def now_def time_now_def case_prod_unfold mark_Add_def config_of_def zero_config_def registerMark_def)
  from racing_region_pinned[OF hyps enter jobs sched surjective_pairing this[unfolded region_end_state_def]]
  show ?thesis
    by (simp add: Let_def maxCount_def region_end_state_def) (simp add: region_jobs_def)
qed

end
