(* ===== verification/SharedThrottle.thy ===== *)
theory SharedThrottle
  imports RacingRegions
begin

text \<open>
  Goroutines that share a throttle (throttle.go). A throttle decides under its mutex and forwards
  after it, so the wrapped reporter may hear the reports in another order than they were decided
  in, and while others are being decided. What is heard and what is counted as suppressed add up
  all the same.
\<close>

subsection \<open>Goroutines behind one throttle\<close>

text \<open>
  A checkpoint of a scope, outside every region and with no allow of its own, or a write of a
  connection that holds no transaction of the scope.
\<close>

fun plain_job :: "scope_ref \<Rightarrow> job \<Rightarrow> bool" where
  "plain_job s (CheckJob c oper opts) \<longleftrightarrow>
     scopeAndMarkFrom c = (Some s, None) \<and> \<not> cfg_allowed (config_of opts)"
| "plain_job s (WriteJob c query se) \<longleftrightarrow> scopeAndMarkFrom c = (Some s, None) \<and> \<not> writes_within c se"
| "plain_job s (FinishJob t) \<longleftrightarrow> False"

text \<open>The window of an operation's violations in a scope of this name.\<close>

definition op_window :: "string \<Rightarrow> op \<Rightarrow> string" where
  "op_window name oper = identityKey (key_for name oper)"

fun queued_stage :: "scope_ref \<Rightarrow> string \<Rightarrow> nat \<Rightarrow> reporter \<Rightarrow> op \<Rightarrow> check_stage \<Rightarrow> bool" where
  "queued_stage s name t usr oper CEntered \<longleftrightarrow> True"
| "queued_stage s name t usr oper (CInside s' mark opn) \<longleftrightarrow> s' = s \<and> mark = None"
| "queued_stage s name t usr oper (CCounted s' mark opn k) \<longleftrightarrow> s' = s \<and> mark = None"
| "queued_stage s name t usr oper (CRegion s' mark opn k declined) \<longleftrightarrow> s' = s \<and> mark = None"
| "queued_stage s name t usr oper (CList s' opn k declined) \<longleftrightarrow> s' = s"
| "queued_stage s name t usr oper (CEmit s' opn k declined) \<longleftrightarrow> s' = s"
| "queued_stage s name t usr oper (CDeliver rep reps next) \<longleftrightarrow>
     (\<exists>v k. rep = RViolation v \<and> v_Op v = oper \<and> v_Scope v = name
        \<and> reps \<in> {[ThrottlingReporter t usr], [usr], []} \<and> next = CReturned (Reported k))"
| "queued_stage s name t usr oper (CReturned (Reported k)) \<longleftrightarrow> True"
| "queued_stage s name t usr oper (CWriting own) \<longleftrightarrow> \<not> own"
| "queued_stage s name t usr oper _ \<longleftrightarrow> False"

fun queued :: "scope_ref \<Rightarrow> string \<Rightarrow> nat \<Rightarrow> reporter \<Rightarrow> goroutine \<Rightarrow> bool" where
  "queued s name t usr (Checker c oper opts st) \<longleftrightarrow>
     plain_job s (CheckJob c oper opts) \<and> queued_stage s name t usr oper st"
| "queued s name t usr (Finisher s' st) \<longleftrightarrow> False"

text \<open>A goroutine that is done with its report, and one that was let through and has yet to forward it.\<close>

fun settled :: "string \<Rightarrow> string \<Rightarrow> goroutine \<Rightarrow> nat" where
  "settled name key (Checker c oper opts (CDeliver rep [] next)) = (if op_window name oper = key then 1 else 0)"
| "settled name key (Checker c oper opts (CReturned v)) = (if op_window name oper = key then 1 else 0)"
| "settled name key g = 0"

fun forwarding :: "string \<Rightarrow> string \<Rightarrow> goroutine \<Rightarrow> nat" where
  "forwarding name key (Checker c oper opts (CDeliver rep [UserReporter u exts] next)) =
     (if op_window name oper = key then 1 else 0)"
| "forwarding name key g = 0"

text \<open>What the user's reporter heard in a window, what the throttle suppressed, and whether it is open.\<close>

definition heard_in :: "nat \<Rightarrow> string \<Rightarrow> world \<Rightarrow> nat" where
  "heard_in u key w = length (filter (\<lambda>r. report_key r = (None, key)) (rs_users (w_rs w) u))"

definition the_window :: "nat \<Rightarrow> string \<Rightarrow> world \<Rightarrow> throttle_state option" where
  "the_window t key w = map_of (th_violations (rs_throttles (w_rs w) t)) key"

definition suppressed_in :: "nat \<Rightarrow> string \<Rightarrow> world \<Rightarrow> nat" where
  "suppressed_in t key w = (case the_window t key w of None \<Rightarrow> 0 | Some st \<Rightarrow> nat (ts_suppressed st))"

definition opened_in :: "nat \<Rightarrow> string \<Rightarrow> world \<Rightarrow> nat" where
  "opened_in t key w = (if the_window t key w = None then 0 else 1)"

definition throttled_detector :: "detector \<Rightarrow> nat \<Rightarrow> nat \<Rightarrow> extension list \<Rightarrow> bool" where
  "throttled_detector d t u exts \<longleftrightarrow>
     d_allowlist d = None \<and> d_reporters d = [ThrottlingReporter t (UserReporter u exts)]"

definition throttling :: "scope_ref \<Rightarrow> string \<Rightarrow> nat \<Rightarrow> string \<Rightarrow> world \<Rightarrow> bool" where
  "throttling s name t key w \<longleftrightarrow>
     sc_name (w_scopes w s) = name \<and> 0 < sc_openTxs (w_scopes w s)
     \<and> 0 < th_interval (rs_throttles (w_rs w) t) \<and> map_ok (th_violations (rs_throttles (w_rs w) t))
     \<and> (\<forall>st. the_window t key w = Some st \<longrightarrow> 0 \<le> ts_suppressed st)"

text \<open>The clock stands still as far as the throttle can tell: all its readings fall in one interval.\<close>

definition still :: "nat \<Rightarrow> string \<Rightarrow> world \<Rightarrow> bool" where
  "still t key w \<longleftrightarrow>
     (\<forall>i j. time_sub (rs_clock (w_rs w) i) (rs_clock (w_rs w) j) < th_interval (rs_throttles (w_rs w) t))
     \<and> (\<forall>st. the_window t key w = Some st \<longrightarrow> ts_lastForwarded st \<in> range (rs_clock (w_rs w)))"

subsection \<open>What one step does\<close>

lemma pass_violation:
  assumes "0 < th_interval (rs_throttles st t)"
  shows "throttle_pass t (RViolation v) st =
    (let th = rs_throttles st t; k = identityKey (violation_key_of v);
         x = window_step (th_interval th) (rs_clock st (rs_reads st)) (map_of (th_violations th) k)
     in (fst x, st\<lparr>rs_reads := Suc (rs_reads st),
                   rs_throttles := (rs_throttles st)(t := th\<lparr>th_violations := map_put k (snd x) (th_violations th)\<rparr>)\<rparr>))"
  using assms
  by (simp add: throttle_pass_def time_now_def reads_clock_def uncapped_def admit_step Let_def case_prod_unfold)

lemma window_kept:
  "rs_throttles (w_rs w') = rs_throttles (w_rs w) \<Longrightarrow> the_window t key w' = the_window t key w"
  by (simp add: the_window_def)

text \<open>The steps before the report is handed over touch neither the throttle nor the user's reporter.\<close>

lemma before_delivery:
  assumes "check_step d c oper opts st w = (st', w')" "throttled_detector d t u exts"
    "0 < sc_openTxs (w_scopes w s)" "sc_name (w_scopes w s) = name"
    "plain_job s (CheckJob c oper opts)" "queued_stage s name t (UserReporter u exts) oper st"
    "\<nexists>r reps nxt. st = CDeliver r reps nxt"
  shows "queued_stage s name t (UserReporter u exts) oper st'
    \<and> rs_throttles (w_rs w') = rs_throttles (w_rs w) \<and> rs_users (w_rs w') = rs_users (w_rs w)
    \<and> rs_clock (w_rs w') = rs_clock (w_rs w)
    \<and> settled name key (Checker c oper opts st') = settled name key (Checker c oper opts st)
    \<and> forwarding name key (Checker c oper opts st') = forwarding name key (Checker c oper opts st)"
proof -
  have d: "d_allowlist d = None" "d_reporters d = [ThrottlingReporter t (UserReporter u exts)]"
    using assms(2) by (simp_all add: throttled_detector_def)
  show ?thesis
    using assms(1,6,7)
  proof (cases "(d, c, oper, opts, st, w)" rule: check_step.cases)
    case 1
    with assms(1,3,5) show ?thesis by (auto simp: check_enter_def Let_def)
  next
    case 2
    with assms(1,6) show ?thesis by (auto simp: Let_def)
  next
    case 3
    with assms(1,5,6) show ?thesis by (auto simp: Let_def)
  next
    case 7
    with assms(1,4,6) d(2) show ?thesis by (auto simp: capture_def now_def time_now_def)
  next
    case 11
    with assms(1,3,5,6) show ?thesis by (auto simp: write_enter_def Let_def)
  qed (use assms(1,6,7) d(1) in auto)
qed

text \<open>What one pass through the throttle does, in terms of its windows.\<close>

lemma throttle_turn:
  assumes "hand_over (ThrottlingReporter t (UserReporter u exts)) (RViolation v) w = (inner, w')"
    "throttling s name t key w" "v_Scope v = name"
  defines "x \<equiv> window_step (th_interval (rs_throttles (w_rs w) t)) (rs_clock (w_rs w) (rs_reads (w_rs w)))
      (the_window t (op_window name (v_Op v)) w)"
  shows "inner = (if fst x then [UserReporter u exts] else [])"
    "w_scopes w' = w_scopes w" "rs_users (w_rs w') = rs_users (w_rs w)" "rs_clock (w_rs w') = rs_clock (w_rs w)"
    "th_interval (rs_throttles (w_rs w') t) = th_interval (rs_throttles (w_rs w) t)"
    "map_ok (th_violations (rs_throttles (w_rs w') t))"
    "the_window t key w' = (if op_window name (v_Op v) = key then Some (snd x) else the_window t key w)"
proof -
  have i: "0 < th_interval (rs_throttles (w_rs w) t)" using assms(2) by (simp add: throttling_def)
  have k: "identityKey (violation_key_of v) = op_window name (v_Op v)"
    using assms(3) by (simp add: op_window_def key_for_def violation_key_of_def)
  have "throttle_pass t (RViolation v) (w_rs w) = (fst x, (w_rs w)\<lparr>rs_reads := Suc (rs_reads (w_rs w)),
      rs_throttles := (rs_throttles (w_rs w))(t := (rs_throttles (w_rs w) t)\<lparr>th_violations :=
        map_put (op_window name (v_Op v)) (snd x) (th_violations (rs_throttles (w_rs w) t))\<rparr>)\<rparr>)"
    unfolding pass_violation[OF i] x_def the_window_def k Let_def ..
  with assms(1) have w: "inner = (if fst x then [UserReporter u exts] else [])"
    "w' = w\<lparr>w_rs := (w_rs w)\<lparr>rs_reads := Suc (rs_reads (w_rs w)),
      rs_throttles := (rs_throttles (w_rs w))(t := (rs_throttles (w_rs w) t)\<lparr>th_violations :=
        map_put (op_window name (v_Op v)) (snd x) (th_violations (rs_throttles (w_rs w) t))\<rparr>)\<rparr>\<rparr>"
    by simp_all
  show "inner = (if fst x then [UserReporter u exts] else [])" by (rule w(1))
  show "w_scopes w' = w_scopes w" "rs_users (w_rs w') = rs_users (w_rs w)" "rs_clock (w_rs w') = rs_clock (w_rs w)"
    "th_interval (rs_throttles (w_rs w') t) = th_interval (rs_throttles (w_rs w) t)"
    "map_ok (th_violations (rs_throttles (w_rs w') t))"
    "the_window t key w' = (if op_window name (v_Op v) = key then Some (snd x) else the_window t key w)"
    unfolding w(2) using assms(2) by (simp_all add: the_window_def throttling_def)
qed

text \<open>The books of one window: who is let through, who is counted.\<close>

lemma window_turn:
  assumes "ws' = snd (window_step interval tm ws)" "ok = fst (window_step interval tm ws)"
    "0 < interval" "\<forall>st. ws = Some st \<longrightarrow> 0 \<le> ts_suppressed st"
  shows "0 \<le> ts_suppressed ws'"
    "nat (ts_suppressed ws') = (case ws of None \<Rightarrow> 0 | Some st \<Rightarrow> nat (ts_suppressed st)) + (if ok then 0 else 1)"
    "\<forall>st. ws = Some st \<longrightarrow> time_sub tm (ts_lastForwarded st) < interval \<Longrightarrow>
       (ok \<longleftrightarrow> ws = None) \<and> (ts_lastForwarded ws' = (case ws of None \<Rightarrow> tm | Some st \<Rightarrow> ts_lastForwarded st))"
  using assms by (cases ws; auto simp: window_step_def nat_add_distrib split: if_splits)+

lemma at_throttle:
  assumes "hand_over (ThrottlingReporter t (UserReporter u exts)) (RViolation v) w = (inner, w')"
    "throttling s name t key w" "v_Scope v = name"
  shows "inner \<in> {[UserReporter u exts], []} \<and> throttling s name t key w'
    \<and> rs_users (w_rs w') = rs_users (w_rs w)
    \<and> suppressed_in t key w' =
        suppressed_in t key w + (if inner = [] \<and> op_window name (v_Op v) = key then 1 else 0)
    \<and> (still t key w \<longrightarrow> still t key w'
        \<and> opened_in t key w' = opened_in t key w + (if inner \<noteq> [] \<and> op_window name (v_Op v) = key then 1 else 0))"
proof -
  note t = throttle_turn[OF assms]
  show ?thesis
  proof (cases "op_window name (v_Op v) = key")
    case False
    with t assms(2) show ?thesis
      by (auto simp: throttling_def suppressed_in_def opened_in_def still_def)
  next
    case True
    let ?x = "window_step (th_interval (rs_throttles (w_rs w) t)) (rs_clock (w_rs w) (rs_reads (w_rs w))) (the_window t key w)"
    have o: "0 < th_interval (rs_throttles (w_rs w) t)" "\<forall>st. the_window t key w = Some st \<longrightarrow> 0 \<le> ts_suppressed st"
      using assms(2) by (simp_all add: throttling_def)
    note x = window_turn[OF refl refl o, where tm = "rs_clock (w_rs w) (rs_reads (w_rs w))"]
    have books: "throttling s name t key w'" "suppressed_in t key w' = suppressed_in t key w + (if inner = [] then 1 else 0)"
      using t x(1,2) assms(2) True by (simp_all add: throttling_def suppressed_in_def)
    have "still t key w' \<and> opened_in t key w' = opened_in t key w + (if inner \<noteq> [] then 1 else 0)"
      if st: "still t key w"
    proof -
      have "\<forall>st. the_window t key w = Some st \<longrightarrow> time_sub (rs_clock (w_rs w) (rs_reads (w_rs w))) (ts_lastForwarded st)
          < th_interval (rs_throttles (w_rs w) t)"
        using st by (auto simp: still_def)
      note y = x(3)[OF this]
      show ?thesis
        using st t y True by (auto simp: still_def opened_in_def split: option.splits)
    qed
    with books t(1,3) True show ?thesis by auto
  qed
qed

lemma window_of_violation: "identityKey (violation_key_of v) = op_window (v_Scope v) (v_Op v)"
  by (simp add: op_window_def key_for_def violation_key_of_def)

lemma at_user:
  assumes "hand_over (UserReporter u exts) (RViolation v) w = (inner, w')" "v_Scope v = name"
  shows "inner = [] \<and> w_scopes w' = w_scopes w \<and> rs_throttles (w_rs w') = rs_throttles (w_rs w)
    \<and> rs_clock (w_rs w') = rs_clock (w_rs w)
    \<and> heard_in u key w' = heard_in u key w + (if op_window name (v_Op v) = key then 1 else 0)"
  using assms
  by (auto simp: deliver_one_def heard_in_def window_of_violation supports_def split: if_splits)

lemma books_kept:
  assumes "rs_throttles (w_rs w') = rs_throttles (w_rs w)"
  shows "suppressed_in t key w' = suppressed_in t key w" "opened_in t key w' = opened_in t key w"
    "w_scopes w' = w_scopes w \<Longrightarrow> throttling s name t key w' = throttling s name t key w"
    "rs_clock (w_rs w') = rs_clock (w_rs w) \<Longrightarrow> still t key w' = still t key w"
  using assms by (simp_all add: suppressed_in_def opened_in_def throttling_def still_def the_window_def)

lemma queued_scope: "queued_stage s name t usr oper st \<Longrightarrow> stage_scope st = Some s' \<Longrightarrow> s' = s"
  by (cases st) auto

lemma throttling_kept:
  assumes "throttling s name t key w" "rs_throttles (w_rs w') = rs_throttles (w_rs w)"
    "sc_name (w_scopes w' s) = sc_name (w_scopes w s)" "0 < sc_openTxs (w_scopes w' s)"
  shows "throttling s name t key w'"
  using assms by (simp add: throttling_def the_window_def)

text \<open>Every step keeps the books of a window balanced.\<close>

lemma queued_step:
  assumes "throttling s name t key w" "throttled_detector d t u exts"
    "queued s name t (UserReporter u exts) g" "go_step d g w = (g', w')"
  shows "throttling s name t key w' \<and> queued s name t (UserReporter u exts) g'
    \<and> settled name key g' + (heard_in u key w + suppressed_in t key w)
        = settled name key g + (heard_in u key w' + suppressed_in t key w')
    \<and> (still t key w \<longrightarrow> still t key w'
        \<and> forwarding name key g' + heard_in u key w' + opened_in t key w
          = forwarding name key g + heard_in u key w + opened_in t key w')"
proof -
  from assms(3,4) obtain c oper opts st st' where g: "plain_job s (CheckJob c oper opts)"
    "queued_stage s name t (UserReporter u exts) oper st" "g = Checker c oper opts st"
    "check_step d c oper opts st w = (st', w')" "g' = Checker c oper opts st'"
    by (cases g) (auto split: prod.splits)
  have o: "0 < sc_openTxs (w_scopes w s)" "sc_name (w_scopes w s) = name"
    using assms(1) by (simp_all add: throttling_def)
  show ?thesis
  proof (cases "\<exists>r reps nxt. st = CDeliver r reps nxt")
    case False
    note b = before_delivery[OF g(4) assms(2) o g(1,2) False, of key]
    have "sc_name (w_scopes w' s) = sc_name (w_scopes w s)" "0 < sc_openTxs (w_scopes w' s)"
      using check_step_counts[OF g(4)] check_step_latch[OF g(4), of s] queued_scope[OF g(2)] g(1) o(1)
      by (auto simp: scopeFrom_def)
    with throttling_kept[OF assms(1)] b books_kept[where w = w and w' = w' and t = t and key = key] g(1) show ?thesis
      unfolding g(3,5) by (simp add: heard_in_def)
  next
    case True
    with g(2) obtain v k reps where st: "st = CDeliver (RViolation v) reps (CReturned (Reported k))"
      "v_Op v = oper" "v_Scope v = name" "reps \<in> {[ThrottlingReporter t (UserReporter u exts)], [UserReporter u exts], []}"
      by auto
    from st(4) consider "reps = []" | "reps = [UserReporter u exts]" | "reps = [ThrottlingReporter t (UserReporter u exts)]"
      by blast
    then show ?thesis
    proof cases
      case 1
      with g assms(1) st show ?thesis by auto
    next
      case 2
      obtain inner w1 where h: "hand_over (UserReporter u exts) (RViolation v) w = (inner, w1)" by fastforce
      have w: "st' = CDeliver (RViolation v) inner (CReturned (Reported k))" "w' = w1"
        using g(4) unfolding st(1) 2 check_step.simps h by auto
      note u = at_user[OF h st(3), of key]
      with books_kept[where w = w and w' = w1 and t = t and key = key] assms(1) g(1) st(2,3) show ?thesis
        unfolding g(3,5) w st(1) 2 by simp
    next
      case 3
      obtain inner w1 where h: "hand_over (ThrottlingReporter t (UserReporter u exts)) (RViolation v) w = (inner, w1)"
        by fastforce
      have w: "st' = CDeliver (RViolation v) inner (CReturned (Reported k))" "w' = w1"
        using g(4) unfolding st(1) 3 check_step.simps h by auto
      from at_throttle[OF h assms(1) st(3)] g(1) st(2,3) show ?thesis
        unfolding g(3,5) w st(1) 3 by (auto simp: heard_in_def)
    qed
  qed
qed

lemma throttling_opened:
  assumes "throttling s name t key w" "keeps_open s (Counter s' n)"
  shows "throttling s name t key (add_openTxs s' n w)"
  using assms by (auto simp: throttling_def the_window_def add_openTxs_def)

lemma books_opened [simp]:
  "heard_in u key (add_openTxs s n w) = heard_in u key w"
  "suppressed_in t key (add_openTxs s n w) = suppressed_in t key w"
  "opened_in t key (add_openTxs s n w) = opened_in t key w" "still t key (add_openTxs s n w) = still t key w"
  by (simp_all add: heard_in_def suppressed_in_def opened_in_def still_def the_window_def)

text \<open>Every report ends up heard or counted as suppressed; while the clock stands still one is let through.\<close>

interpretation heard_or_suppressed: balance d
  "\<lambda>w. throttled_detector d t u exts \<and> throttling s name t key w" "\<lambda>_. queued s name t (UserReporter u exts)"
  "keeps_open s" "\<lambda>g. replicate_mset (settled name key g) ()" "\<lambda>_. {#}"
  "\<lambda>w. replicate_mset (heard_in u key w + suppressed_in t key w) ()"
  for d t u exts s name key
proof
  fix w w' g g'
  assume "throttled_detector d t u exts \<and> throttling s name t key w" "queued s name t (UserReporter u exts) g"
    "go_step d g w = (g', w')"
  with queued_step[of s name t key w d u exts g g' w']
  show "(throttled_detector d t u exts \<and> throttling s name t key w') \<and> queued s name t (UserReporter u exts) g'
      \<and> replicate_mset (settled name key g') () + {#} + replicate_mset (heard_in u key w + suppressed_in t key w) ()
        = replicate_mset (settled name key g) () + {#} + replicate_mset (heard_in u key w' + suppressed_in t key w') ()"
    by (simp add: multiset_eq_iff)
qed (simp_all add: throttling_opened)

interpretation let_through: balance d
  "\<lambda>w. throttled_detector d t u exts \<and> throttling s name t key w \<and> still t key w"
  "\<lambda>_. queued s name t (UserReporter u exts)"
  "keeps_open s" "\<lambda>g. replicate_mset (forwarding name key g) ()" "\<lambda>w. replicate_mset (heard_in u key w) ()"
  "\<lambda>w. replicate_mset (opened_in t key w) ()"
  for d t u exts s name key
proof
  fix w w' g g'
  assume "throttled_detector d t u exts \<and> throttling s name t key w \<and> still t key w"
    "queued s name t (UserReporter u exts) g" "go_step d g w = (g', w')"
  with queued_step[of s name t key w d u exts g g' w']
  show "(throttled_detector d t u exts \<and> throttling s name t key w' \<and> still t key w')
      \<and> queued s name t (UserReporter u exts) g'
      \<and> replicate_mset (forwarding name key g') () + replicate_mset (heard_in u key w') () + replicate_mset (opened_in t key w) ()
        = replicate_mset (forwarding name key g) () + replicate_mset (heard_in u key w) () + replicate_mset (opened_in t key w') ()"
    by (simp add: multiset_eq_iff)
qed (simp_all add: throttling_opened)

lemma sum_units: "sum_list (map (\<lambda>g. replicate_mset (f g) ()) gs) = replicate_mset (sum_list (map f gs)) ()"
  by (induction gs) (simp_all add: multiset_eq_iff)

lemma queued_start:
  "list_all (plain_job s) jobs \<Longrightarrow> list_all (queued s name t usr) (map start jobs)
     \<and> sum_list (map (settled name key) (map start jobs)) = 0
     \<and> sum_list (map (forwarding name key) (map start jobs)) = 0"
proof (induction jobs)
  case (Cons j jobs)
  then show ?case by (cases j) auto
qed simp

lemma queued_returned:
  "list_all (queued s name t usr) gs \<Longrightarrow> list_all returned gs \<Longrightarrow>
     sum_list (map (forwarding name key) gs) = 0
     \<and> sum_list (map (settled name key) gs)
       = length (filter (\<lambda>oper. op_window name oper = key) (map op_of gs))"
proof (induction gs)
  case (Cons g gs)
  then show ?case by (cases g rule: returned.cases) auto
qed simp

text \<open>The books when every goroutine has returned.\<close>

lemma throttle_race:
  assumes d: "throttled_detector d t u exts" and jobs: "list_all (plain_job s) jobs"
    and w: "throttling s name t key w" "heard_in u key w = 0" "the_window t key w = None"
    and run: "list_all (keeps_open s) es" "run_schedule d es (map start jobs, w) = (gs, w')" "list_all returned gs"
  shows "throttling s name t key w'
    \<and> heard_in u key w' + suppressed_in t key w' = length (filter (\<lambda>j. op_window name (checked_op j) = key) jobs)
    \<and> (still t key w \<longrightarrow> heard_in u key w' = opened_in t key w')"
proof -
  note st = queued_start[OF jobs, of name t "UserReporter u exts"]
  have zero: "suppressed_in t key w = 0" "opened_in t key w = 0"
    using w(3) by (simp_all add: suppressed_in_def opened_in_def)
  from heard_or_suppressed.run_balance[OF conjI[OF d w(1)] conjunct1[OF st] run(1,2)]
  have h: "throttling s name t key w'" "list_all (queued s name t (UserReporter u exts)) gs"
    "sum_list (map (settled name key) gs) = heard_in u key w' + suppressed_in t key w'"
    unfolding heard_or_suppressed.held_def sum_units using st zero w(2) by (simp_all add: multiset_eq_iff)
  have "map op_of gs = map checked_op jobs"
    using run_schedule_ops[OF run(2)] by (simp add: comp_def)
  then have ops: "length (filter (\<lambda>oper. op_window name oper = key) (map op_of gs))
      = length (filter (\<lambda>j. op_window name (checked_op j) = key) jobs)"
    by (simp add: filter_map comp_def)
  have "heard_in u key w' = opened_in t key w'" if "still t key w"
    using let_through.run_balance[OF conjI[OF d conjI[OF w(1) that]] conjunct1[OF st] run(1,2)]
      queued_returned[OF h(2) run(3)] st zero w(2)
    unfolding let_through.held_def sum_units by (simp add: multiset_eq_iff)
  with h(1,3) queued_returned[OF h(2) run(3), of key] show ?thesis unfolding ops by simp
qed

lemma suppressed_shown:
  "throttling s name t key w \<Longrightarrow>
     (case map_of (SuppressedViolations (rs_throttles (w_rs w) t)) key of None \<Rightarrow> 0 | Some n \<Rightarrow> nat n) = suppressed_in t key w"
  by (auto simp: throttling_def SuppressedViolations_def map_of_snapshot suppressed_in_def the_window_def
      split: option.split)

subsection \<open>Properties\<close>

text \<open>
  C11. A throttle shared by racing goroutines loses no report and dedups exactly. The detector
  has no allowlist, and its only reporter is a fresh throttle with a positive interval over a
  user's reporter that has heard nothing. Any number of goroutines act on contexts of one scope
  outside every allow region: each runs a checkpoint without an allow of its own, or writes
  through a connection that is not itself inside a transaction of the scope, so every call is a
  violation; the scope has a transaction open and the schedule closes none of them. Under every
  such schedule in which they all return, in every window, what the user's reporter heard and
  what \<^verbatim>\<open>SuppressedViolations\<close> counts add up to the calls that fell into it. And when all readings
  of the clock fall within one interval, the reporter heard exactly one violation of every window
  that was called at all, although the throttle forwards outside its mutex.
\<close>

theorem racing_throttle_dedups:
  assumes "d_allowlist d = None" "d_reporters d = [ThrottlingReporter t (UserReporter u exts)]"
    "list_all (plain_job s) jobs" "0 < sc_openTxs (w_scopes w s)"
    "rs_throttles (w_rs w) t = NewThrottlingReporter interval" "0 < interval" "rs_users (w_rs w) u = []"
    "list_all (keeps_open s) es" "run_schedule d es (map start jobs, w) = (gs, w')" "list_all returned gs"
  shows "let name = sc_name (w_scopes w s);
             calls = length (filter (\<lambda>j. op_window name (checked_op j) = key) jobs);
             heard = length (filter (\<lambda>r. report_key r = (None, key)) (rs_users (w_rs w') u));
             suppressed = (case map_of (SuppressedViolations (rs_throttles (w_rs w') t)) key of
                             None \<Rightarrow> 0 | Some n \<Rightarrow> nat n)
         in heard + suppressed = calls
          \<and> ((\<forall>i j. time_sub (rs_clock (w_rs w) i) (rs_clock (w_rs w) j) < interval)
               \<longrightarrow> heard = (if calls = 0 then 0 else 1))"
proof -
  let ?name = "sc_name (w_scopes w s)"
  have d: "throttled_detector d t u exts" using assms(1,2) by (simp add: throttled_detector_def)
  have none: "the_window t key w = None"
    by (simp add: the_window_def assms(5) NewThrottlingReporter_def)
  have w: "throttling s ?name t key w" "heard_in u key w = 0"
    using assms(4-7) none by (simp_all add: throttling_def heard_in_def NewThrottlingReporter_def map_ok_def)
  note race = throttle_race[OF d assms(3) w none assms(8-10)]
  have "heard_in u key w' = (if heard_in u key w' + suppressed_in t key w' = 0 then 0 else 1)"
    if "\<forall>i j. time_sub (rs_clock (w_rs w) i) (rs_clock (w_rs w) j) < interval"
  proof -
    have "still t key w" using that assms(5) none by (simp add: still_def)
    with race have "heard_in u key w' = opened_in t key w'" by blast
    then show ?thesis by (simp add: opened_in_def suppressed_in_def)
  qed
  with race suppressed_shown[of s ?name t key w'] show ?thesis
    by (simp add: Let_def heard_in_def)
qed

text \<open>Two calls of one checkpoint; the second is decided, and has returned, before the first is forwarded.\<close>

definition throttle_world :: world where
  "throttle_world = (let w = update_scope 0 (\<lambda>sc. sc\<lparr>sc_name := ''S'', sc_openTxs := 1\<rparr>) (initial_world (\<lambda>_. 7) (\<lambda>_. []))
     in w\<lparr>w_rs := (w_rs w)\<lparr>rs_throttles := (\<lambda>_. NewThrottlingReporter 10)\<rparr>\<rparr>)"

definition throttle_detector :: detector where
  "throttle_detector = New [WithReporter [ThrottlingReporter 0 (UserReporter 0 [])]]"

definition throttle_jobs :: "job list" where
  "throttle_jobs = replicate 2 (CheckJob (WithValue Background ScopeCtxKey (ScopeVal 0)) (Op ''mail'' ''m'') [])"

definition throttle_schedule :: "event list" where
  "throttle_schedule = replicate 7 (Run 0) @ replicate 8 (Run 1) @ replicate 2 (Run 0)"

definition throttle_end :: system where
  "throttle_end = run_schedule throttle_detector throttle_schedule (map start throttle_jobs, throttle_world)"

lemmas throttle_defs = throttle_world_def throttle_detector_def throttle_jobs_def throttle_schedule_def
  throttle_end_def initial_world_def initial_store_def new_scope_def New_def WithReporter_def

theorem racing_throttle_dedups_witness:
  "let w' = snd throttle_end; key = op_window ''S'' (Op ''mail'' ''m'')
   in length (filter (\<lambda>r. report_key r = (None, key)) (rs_users (w_rs w') 0)) = 1
    \<and> (case map_of (SuppressedViolations (rs_throttles (w_rs w') 0)) key of None \<Rightarrow> 0 | Some n \<Rightarrow> nat n) = 1"
proof -
  have "d_allowlist throttle_detector = None"
    "d_reporters throttle_detector = [ThrottlingReporter 0 (UserReporter 0 [])]"
    "list_all (plain_job 0) throttle_jobs" "0 < sc_openTxs (w_scopes throttle_world 0)"
    "rs_throttles (w_rs throttle_world) 0 = NewThrottlingReporter 10" "0 < (10 :: int)"
    "rs_users (w_rs throttle_world) 0 = []" "list_all (keeps_open 0) throttle_schedule"
    by (simp_all add: throttle_defs Let_def scopeAndMarkFrom_def config_of_def zero_config_def eval_nat_numeral)
  note hyps = this
  have "list_all returned (fst throttle_end)"
    by (simp add: throttle_defs eval_nat_numeral check_enter_def scopeAndMarkFrom_def config_of_def zero_config_def
        Let_def bumpCall_def map_put_def scope_key_def capture_def now_def time_now_def throttle_pass_def admit_def
        NewThrottlingReporter_def deliver_one_def case_prod_unfold reads_clock_def uncapped_def window_of_def
        identityKey_def violation_key_of_def time_sub_def)
  note returned = this[unfolded throttle_end_def]
  have name: "sc_name (w_scopes throttle_world 0) = ''S''" "rs_clock (w_rs throttle_world) i = 7" for i
    by (simp_all add: throttle_defs Let_def)
  from racing_throttle_dedups[OF hyps surjective_pairing returned, of "op_window ''S'' (Op ''mail'' ''m'')"]
  show ?thesis
    by (simp add: Let_def name throttle_end_def throttle_jobs_def numeral_2_eq_2 time_sub_def)
qed

end
