(* ===== verification/Wellformed.thy ===== *)
theory Wellformed
  imports Session
begin

text \<open>
  What the types of the program do not say and every operation keeps: Go maps have one entry
  per key, a scope's book holds only its own identities, each counted at least once, a counted
  region is verified by one scope, and no context or connection refers to an object that was
  not created. A program here is any sequence of calls of the library's exported operations on
  the contexts, scopes and connections it was given.
\<close>

subsection \<open>The invariant\<close>

definition store_wf :: "rstore \<Rightarrow> bool" where
  "store_wf st \<longleftrightarrow> (\<forall>b. map_ok (rs_baselines st b)) \<and> (\<forall>t e. map_ok (window_map e (rs_throttles st t)))"

definition book_wf :: "(mark_ref \<Rightarrow> allow_mark) \<Rightarrow> nat \<Rightarrow> scope \<Rightarrow> bool" where
  "book_wf marks fresh sc \<longleftrightarrow>
     calls_ok sc \<and> (\<forall>key \<in> fst ` set (sc_calls sc). vk_scope key = sc_name sc)
     \<and> distinct (sc_marks sc) \<and> (\<forall>m \<in> set (sc_marks sc). m < fresh \<and> am_counts (marks m) \<noteq> [])"

definition world_wf :: "world \<Rightarrow> bool" where
  "world_wf w \<longleftrightarrow>
     (\<forall>s. book_wf (w_marks w) (w_next_mark w) (w_scopes w s))
     \<and> (\<forall>s t. s \<noteq> t \<longrightarrow> set (sc_marks (w_scopes w s)) \<inter> set (sc_marks (w_scopes w t)) = {})
     \<and> (\<forall>m. 0 \<le> am_n (w_marks w m))
     \<and> (\<forall>a. map_ok (w_allowlists w a)) \<and> store_wf (w_rs w)"

definition ctx_wf :: "world \<Rightarrow> ctx \<Rightarrow> bool" where
  "ctx_wf w c \<longleftrightarrow>
     (case scopeAndMarkFrom c of
        (None, m) \<Rightarrow> m = None
      | (Some s, m) \<Rightarrow> s < w_next_scope w \<and> (\<forall>r. m = Some r \<longrightarrow> r < w_next_mark w))"

definition session_wf :: "world \<Rightarrow> session \<Rightarrow> bool" where
  "session_wf w se \<longleftrightarrow> session_valid se \<and> (\<forall>s. se_txScope se = Some s \<longrightarrow> s < w_next_scope w)"

text \<open>No operation takes back an object that was created.\<close>

definition extends :: "world \<Rightarrow> world \<Rightarrow> bool" where
  "extends w w' \<longleftrightarrow> (world_wf w \<longrightarrow> world_wf w')
     \<and> w_next_scope w \<le> w_next_scope w' \<and> w_next_mark w \<le> w_next_mark w'"

lemma extends_refl [simp]: "extends w w"
  by (simp add: extends_def)

lemma extends_trans: "extends w w' \<Longrightarrow> extends w' w'' \<Longrightarrow> extends w w''"
  by (auto simp: extends_def)

lemma extends_foldl: "(\<And>x w. extends w (f w x)) \<Longrightarrow> extends w (foldl f w xs)"
  by (induction xs arbitrary: w) (auto intro: extends_trans)

lemma ctx_wf_extends: "ctx_wf w c \<Longrightarrow> extends w w' \<Longrightarrow> ctx_wf w' c"
  by (auto simp: ctx_wf_def extends_def split: prod.splits option.splits)

lemma session_wf_extends: "session_wf w se \<Longrightarrow> extends w w' \<Longrightarrow> session_wf w' se"
  by (auto simp: session_wf_def extends_def)

subsection \<open>Reporters\<close>

lemma store_wf_deliver: "store_wf st \<Longrightarrow> store_wf (deliver rep r st)"
proof (induction rep arbitrary: st)
  case (BaselineReporter b nxt)
  have "store_wf (snd (baseline_pass b r st))"
    using BaselineReporter.prems bl.suppress_invar
    by (auto simp: store_wf_def baseline_pass_def case_prod_unfold split: report.split option.split)
  with BaselineReporter.IH show ?case by (simp add: case_prod_unfold)
next
  case (ThrottlingReporter t nxt)
  have "store_wf (snd (throttle_pass t r st))"
    using ThrottlingReporter.prems
    by (auto simp: store_wf_def throttle_pass_def time_now_def Let_def case_prod_unfold map_ok_gate)
  with ThrottlingReporter show ?case by (simp add: case_prod_unfold)
qed (simp_all add: store_wf_def)

lemma store_wf_deliver_all: "store_wf st \<Longrightarrow> store_wf (deliver_all reps r st)"
  by (induction reps arbitrary: st) (simp_all add: store_wf_deliver)

lemma extends_rs:
  assumes "w_scopes w' = w_scopes w" "w_next_scope w' = w_next_scope w" "w_marks w' = w_marks w"
    "w_next_mark w' = w_next_mark w" "w_allowlists w' = w_allowlists w"
    "store_wf (w_rs w) \<Longrightarrow> store_wf (w_rs w')"
  shows "extends w w'"
  using assms by (simp add: extends_def world_wf_def)

lemma store_wf_reads [simp]: "store_wf (st\<lparr>rs_reads := n\<rparr>) = store_wf st"
  by (simp add: store_wf_def)

lemma extends_emit [simp]: "extends w w' \<Longrightarrow> extends w (emit_report d r w')"
  by (erule extends_trans, rule extends_rs) (simp_all add: emit_report_def store_wf_deliver_all)

lemma extends_now [simp]: "extends w w' \<Longrightarrow> extends w (snd (now w'))"
  by (erule extends_trans, rule extends_rs) (simp_all add: now_def time_now_def)

lemma extends_capture [simp]: "extends w w' \<Longrightarrow> extends w (snd (capture d w'))"
  by (erule extends_trans, rule extends_rs) simp_all

lemma extends_stale [simp]: "extends w w' \<Longrightarrow> extends w (reportStaleAllow d sa w')"
  by (simp add: reportStaleAllow_def)

lemma extends_shortfalls [simp]: "extends w w' \<Longrightarrow> extends w (reportCallShortfalls d s w')"
  unfolding reportCallShortfalls_def reportStaleAllows_def
  by (erule extends_trans) (rule extends_foldl, simp)

lemma extends_unscoped [simp]: "extends w (reportUnscopedTx d w)"
  by (simp add: reportUnscopedTx_def case_prod_unfold)

subsection \<open>Scopes\<close>

lemma world_wf_scope:
  assumes "world_wf w" "book_wf (w_marks w) (w_next_mark w) sc" "sc_marks sc = sc_marks (w_scopes w s)"
  shows "world_wf (w\<lparr>w_scopes := (w_scopes w)(s := sc)\<rparr>)"
  using assms by (auto simp: world_wf_def)

lemma extends_scope:
  assumes "\<And>sc. book_wf (w_marks w) (w_next_mark w) sc \<Longrightarrow> book_wf (w_marks w) (w_next_mark w) (f sc)"
    "\<And>sc. sc_marks (f sc) = sc_marks sc"
  shows "extends w (update_scope s f w)"
  using assms world_wf_scope[of w "f (w_scopes w s)" s]
  by (auto simp: extends_def update_scope_def world_wf_def)

lemma keys_bump [simp]: "fst ` set (sc_calls (snd (bumpCall key sc))) = insert key (fst ` set (sc_calls sc))"
  by (simp add: bumpCall_def Let_def)

lemma keys_note [simp]: "fst ` set (sc_calls (noteDeclared key counts reason sc)) = fst ` set (sc_calls sc)"
  by (cases "map_of (sc_calls sc) key")
    (force simp: noteDeclared_def insert_absorb dest: map_of_SomeD)+

lemma book_wf_bump: "book_wf marks n sc \<Longrightarrow> book_wf marks n (snd (bumpCall (key_for (sc_name sc) oper) sc))"
  by (simp add: book_wf_def key_for_def)

lemma book_wf_note: "book_wf marks n sc \<Longrightarrow> book_wf marks n (noteDeclared key counts reason sc)"
  by (simp add: book_wf_def)

lemma book_wf_noted: "book_wf marks n sc \<Longrightarrow> book_wf marks n (noted_scope d w mark oper cfg sc)"
  by (auto simp: noted_scope_def Let_def intro!: book_wf_note book_wf_bump split: option.split)

lemma extends_add_openTxs [simp]: "extends w (add_openTxs s n w)"
  unfolding add_openTxs_def
  by (rule extends_scope) (simp_all add: book_wf_def calls_ok_def)

lemma extends_finish [simp]: "extends w (finishScope d s w)"
proof -
  have "extends w (update_scope s (\<lambda>sc. sc\<lparr>sc_finished := True\<rparr>) w)"
    by (rule extends_scope) (simp_all add: book_wf_def calls_ok_def)
  then show ?thesis
    by (simp add: finishScope_def Let_def case_prod_unfold)
qed

lemma book_wf_marks:
  "(\<And>m. am_counts (marks' m) = am_counts (marks m)) \<Longrightarrow> n \<le> n' \<Longrightarrow> book_wf marks n sc \<Longrightarrow> book_wf marks' n' sc"
  by (auto simp: book_wf_def)

lemma extends_decide [simp]: "extends w (decideAndReport d s mark oper opn cfg w)"
proof -
  let ?w' = "decideAndReport d s mark oper opn cfg w"
  have m: "am_counts (w_marks ?w' m) = am_counts (w_marks w m)" "am_n (w_marks w m) \<le> am_n (w_marks ?w' m)" for m
    by (simp_all add: decide_marks split: option.split)
  have b: "book_wf (w_marks ?w') (w_next_mark ?w') (w_scopes ?w' t)" if "world_wf w" for t
    by (rule book_wf_marks[of _ "w_marks w" "w_next_mark w"])
      (use that m(1) in \<open>simp_all add: decide_scopes world_wf_def book_wf_noted\<close>)
  have k: "sc_marks (w_scopes ?w' t) = sc_marks (w_scopes w t)" for t by (simp add: decide_scopes)
  have l: "\<forall>a. map_ok (w_allowlists ?w' a)" if "world_wf w"
    using that by (simp add: decide_lists world_wf_def split: option.split)
  have r: "store_wf (w_rs ?w')" if "world_wf w"
    using that by (simp add: decide_rs world_wf_def store_wf_deliver_all)
  have "0 \<le> am_n (w_marks ?w' n)" if "world_wf w" for n
    using that m(2)[of n] by (force simp: world_wf_def dest: spec[of _ n])
  then show ?thesis using b l r by (auto simp: extends_def k world_wf_def)
qed


lemma extends_check [simp]: "extends w (check d c oper opts w)"
  by (simp add: check_def Let_def case_prod_unfold split: option.split)

lemma extends_crossConn [simp]: "extends w (reportIfCrossConn d c q se w)"
  by (auto simp: reportIfCrossConn_def Let_def split: prod.split option.split)

lemma extends_run_stale: "extends w (run_stale_checkers d name reason q chks w)"
proof (induction chks arbitrary: w)
  case (Cons chk chks)
  have "extends w (if b then reportStaleAllow d sa w else w)" for b sa by simp
  from extends_trans[OF this Cons.IH] show ?case by (simp add: case_prod_unfold)
qed simp

lemma extends_run_open: "extends w (run_open_checkers d s mark opn q chks w)"
proof (induction chks arbitrary: w)
  case (Cons chk chks)
  have "extends w (if b then decideAndReport d s mark oper opn zero_config w else w)" for b oper by simp
  from extends_trans[OF this Cons.IH] show ?case by (simp add: case_prod_unfold)
qed simp

lemma extends_checkers [simp]: "extends w (runStatementCheckers d c q w)"
  by (auto simp: runStatementCheckers_def Let_def extends_run_stale extends_run_open split: prod.split option.split)

lemma world_wf_new_scope:
  assumes "world_wf w" "f = (w_scopes w)(r := sc)" "sc_calls sc = []" "sc_marks sc = []"
  shows "world_wf (w\<lparr>w_scopes := f, w_next_scope := n\<rparr>)"
  using assms by (auto simp: world_wf_def book_wf_def calls_ok_def)

lemma extends_StartScope: "extends w (snd (StartScope d c name (map WithScopeAttrs ass) w))"
proof -
  have n: "extends w (report_nested d c name w)"
    by (simp add: report_nested_def case_prod_unfold split: option.split)
  have "extends (report_nested d c name w) (snd (StartScope d c name (map WithScopeAttrs ass) w))"
    by (auto simp: extends_def StartScope_def Let_def foldl_WithScopeAttrs new_scope_def
        intro!: world_wf_new_scope[OF _ refl] world_wf_new_scope[where r = "w_next_scope w"] split: option.split)
  with n show ?thesis by (rule extends_trans)
qed

lemma ctx_wf_StartScope:
  "ctx_wf (snd (StartScope d c name opts w)) (fst (fst (StartScope d c name opts w)))"
  by (simp add: StartScope_def Let_def ctx_wf_def)

lemma world_wf_fresh_mark:
  assumes "world_wf w" "am_n mark = 0"
  shows "world_wf (w\<lparr>w_marks := (w_marks w)(w_next_mark w := mark), w_next_mark := Suc (w_next_mark w)\<rparr>)"
  using assms by (fastforce simp: world_wf_def book_wf_def)

lemma world_wf_register:
  assumes "world_wf w" "m < w_next_mark w" "am_counts (w_marks w m) \<noteq> []"
    "\<forall>t. m \<notin> set (sc_marks (w_scopes w t))"
  shows "world_wf (update_scope s (registerMark m) w)"
proof -
  have "book_wf (w_marks w) (w_next_mark w) (registerMark m (w_scopes w s))"
    using assms by (simp add: world_wf_def book_wf_def registerMark_def calls_ok_def)
  with assms show ?thesis
    by (auto simp: world_wf_def registerMark_def)
qed

lemma unregistered: "world_wf w \<Longrightarrow> w_next_mark w \<notin> set (sc_marks (w_scopes w t))"
  by (auto simp: world_wf_def book_wf_def)

lemma extends_Allow: "extends w (snd (AllowInTransactionHere c reason counts w))"
proof -
  let ?mark = "\<lparr>am_reason = reason, am_counts = counts, am_n = 0\<rparr>"
  let ?w = "w\<lparr>w_marks := (w_marks w)(w_next_mark w := ?mark), w_next_mark := Suc (w_next_mark w)\<rparr>"
  have "world_wf (if counts \<noteq> [] then update_scope s (registerMark (w_next_mark w)) ?w else ?w)"
    if w: "world_wf w" for s
  proof -
    have "world_wf ?w" by (rule world_wf_fresh_mark[OF w]) simp
    then show ?thesis using unregistered[OF w] by (auto intro!: world_wf_register)
  qed
  then show ?thesis
    by (auto simp: extends_def AllowInTransactionHere_def Let_def split: prod.split option.split)
qed

lemma ctx_wf_Allow:
  assumes "ctx_wf w c"
  shows "ctx_wf (snd (AllowInTransactionHere c reason counts w)) (fst (AllowInTransactionHere c reason counts w))"
  using assms by (auto simp: AllowInTransactionHere_def Let_def ctx_wf_def split: prod.split option.split)

subsection \<open>Connections\<close>

lemma session_wf_openTx:
  "ctx_wf w c \<Longrightarrow> session_wf (snd (openTx d c se w)) (fst (openTx d c se w)) \<and> extends w (snd (openTx d c se w))"
  by (auto simp: openTx_def Let_def session_wf_def session_valid_def ctx_wf_def scopeFrom_def add_openTxs_def[symmetric]
      split: option.split prod.splits)

lemma session_wf_closeTx:
  "session_wf w se \<Longrightarrow> session_wf (snd (closeTx se w)) (fst (closeTx se w)) \<and> extends w (snd (closeTx se w))"
  by (auto simp: closeTx_def Let_def session_wf_def session_valid_def split: option.split)

lemma session_wf_observeKind:
  assumes "session_wf w se" "ctx_wf w c"
  shows "session_wf (snd (observeKind d c q kind se w)) (fst (observeKind d c q kind se w))
    \<and> extends w (snd (observeKind d c q kind se w))"
  using assms session_wf_openTx[OF assms(2)] session_wf_closeTx[OF assms(1)]
  by (cases kind) (auto intro: session_wf_extends)

lemma session_wf_exec:
  assumes "session_wf w se" "\<forall>c. session_ctx a = Some c \<longrightarrow> ctx_wf w c"
  shows "session_wf (snd (session_exec d a se w)) (fst (session_exec d a se w)) \<and> extends w (snd (session_exec d a se w))"
proof (cases a)
  case (AObserve c q)
  with assms have "session_wf (snd (observeKind d c q (d_classify d q) se w)) (fst (observeKind d c q (d_classify d q) se w))
    \<and> extends w (snd (observeKind d c q (d_classify d q) se w))" by (intro session_wf_observeKind) simp_all
  then show ?thesis
    unfolding AObserve session_exec.simps Observe_def case_prod_unfold
    by (auto intro: session_wf_extends extends_trans)
next
  case (ABeginTx c)
  have close: "session_wf (snd (closeTx se w)) (fst (closeTx se w))" "extends w (snd (closeTx se w))"
    using session_wf_closeTx[OF assms(1)] by simp_all
  then have "ctx_wf (snd (closeTx se w)) c" using assms(2) ABeginTx by (auto intro: ctx_wf_extends)
  from session_wf_openTx[OF this] close(2) show ?thesis
    unfolding ABeginTx session_exec.simps BeginTx_def case_prod_unfold by (auto intro: extends_trans)
next
  case AEndTx
  with session_wf_closeTx[OF assms(1)] show ?thesis by (simp add: EndTx_def)
qed


subsection \<open>Programs\<close>

text \<open>
  A program holds contexts and connections. It derives contexts, starts and finishes scopes,
  runs checkpoints, opens connections and uses them, and registers entries; a context it passes
  is one that it holds. What it does to its lists by other means, dropping or sharing, changes
  nothing here.
\<close>

type_synonym program = "ctx list \<times> session list \<times> world"

inductive prog_step :: "detector \<Rightarrow> program \<Rightarrow> program \<Rightarrow> bool" for d where
  pr_value: "c \<in> set cs \<Longrightarrow> prog_step d (cs, ss, w) (WithValue c (OtherCtxKey k) v # cs, ss, w)"
| pr_start: "c \<in> set cs \<Longrightarrow> StartScope d c name (map WithScopeAttrs ass) w = ((c', s), w')
    \<Longrightarrow> prog_step d (cs, ss, w) (c' # cs, ss, w')"
| pr_finish: "s < w_next_scope w \<Longrightarrow> prog_step d (cs, ss, w) (cs, ss, finishScope d s w)"
| pr_allow: "c \<in> set cs \<Longrightarrow> AllowInTransactionHere c reason counts w = (c', w')
    \<Longrightarrow> prog_step d (cs, ss, w) (c' # cs, ss, w')"
| pr_check: "c \<in> set cs \<Longrightarrow> prog_step d (cs, ss, w) (cs, ss, Check d c oper opts w)"
| pr_connect: "prog_step d (cs, ss, w) (cs, ss @ [NewSession], w)"
| pr_use: "i < length ss \<Longrightarrow> \<forall>c. session_ctx a = Some c \<longrightarrow> c \<in> set cs \<Longrightarrow>
    session_exec d a (ss ! i) w = (se, w') \<Longrightarrow> prog_step d (cs, ss, w) (cs, ss[i := se], w')"
| pr_allowlist: "prog_step d (cs, ss, w)
    (cs, ss, w\<lparr>w_allowlists := (w_allowlists w)(a := allowlist_Add sc oper reason counts (w_allowlists w a))\<rparr>)"
| pr_baseline: "prog_step d (cs, ss, w) (cs, ss, w\<lparr>w_rs := (w_rs w)
    \<lparr>rs_baselines := (rs_baselines (w_rs w))(b := baseline_Add sc oper (rs_baselines (w_rs w) b))\<rparr>\<rparr>)"
| pr_reset: "prog_step d (cs, ss, w) (cs, ss, w\<lparr>w_rs := (w_rs w)
    \<lparr>rs_collectors := (rs_collectors (w_rs w))(r := collector_Reset (rs_collectors (w_rs w) r))\<rparr>\<rparr>)"

definition prog_reach :: "detector \<Rightarrow> program \<Rightarrow> bool" where
  "prog_reach d p \<longleftrightarrow>
     (\<exists>clock callers. (prog_step d)\<^sup>*\<^sup>* ([Background], [], initial_world clock callers) p)"

definition prog_wf :: "program \<Rightarrow> bool" where
  "prog_wf p = (case p of (cs, ss, w) \<Rightarrow>
     (\<forall>c \<in> set cs. ctx_wf w c) \<and> (\<forall>se \<in> set ss. session_wf w se) \<and> world_wf w)"

lemma prog_wf_initial: "prog_wf ([Background], [], initial_world clock callers)"
proof -
  have "map_ok (window_map e (NewThrottlingReporter 0))" for e
    by (cases e rule: window_kind_cases) (simp_all add: NewThrottlingReporter_def)
  then show ?thesis
    by (simp add: prog_wf_def ctx_wf_def world_wf_def initial_world_def initial_store_def book_wf_def
        store_wf_def NewBaseline_def) (simp add: new_scope_def)
qed

text \<open>A step that leaves the contexts and connections alone, or adds a well-formed one.\<close>

lemma prog_wf_extends:
  assumes "prog_wf (cs, ss, w)" "extends w w'" "\<forall>c \<in> set cs'. c \<in> set cs \<or> ctx_wf w' c"
    "\<forall>se \<in> set ss'. se \<in> set ss \<or> session_wf w' se"
  shows "prog_wf (cs', ss', w')"
proof -
  have "world_wf w'" using assms(1,2) by (simp add: prog_wf_def extends_def)
  with assms(1,3,4) show ?thesis
    by (auto simp: prog_wf_def intro: ctx_wf_extends[OF _ assms(2)] session_wf_extends[OF _ assms(2)])
qed

lemma prog_step_wf: "prog_step d p p' \<Longrightarrow> prog_wf p \<Longrightarrow> prog_wf p'"
proof (induction rule: prog_step.induct)
  case (pr_value c cs ss w k v)
  then show ?case by (auto simp: prog_wf_def ctx_wf_def)
next
  case (pr_start c cs name ass w c' s w' ss)
  with ctx_wf_StartScope[of d c name "map WithScopeAttrs ass" w] extends_StartScope[of w d c name ass]
  show ?case by (intro prog_wf_extends[OF pr_start(3)]) auto
next
  case (pr_finish s w cs ss)
  then show ?case by (intro prog_wf_extends[OF pr_finish(2)]) auto
next
  case (pr_allow c cs reason counts w c' w' ss)
  then have "ctx_wf w c" by (simp add: prog_wf_def)
  with pr_allow ctx_wf_Allow[of w c reason counts] extends_Allow[of w c reason counts]
  show ?case by (intro prog_wf_extends[OF pr_allow(3)]) auto
next
  case (pr_check c cs ss w oper opts)
  then show ?case by (intro prog_wf_extends[OF pr_check(2)]) (auto simp: Check_def)
next
  case (pr_connect cs ss w)
  then show ?case
    by (intro prog_wf_extends[OF pr_connect]) (auto simp: session_wf_def NewSession_def session_valid_def)
next
  case (pr_use i ss a cs w se w')
  then have "session_wf w (ss ! i)" "\<forall>c. session_ctx a = Some c \<longrightarrow> ctx_wf w c"
    by (auto simp: prog_wf_def)
  from session_wf_exec[OF this, of d] pr_use(3) have "session_wf w' se" "extends w w'" by simp_all
  then show ?case
    by (intro prog_wf_extends[OF pr_use(4)]) (auto dest: subsetD[OF set_update_subset_insert])
next
  case (pr_allowlist cs ss w a sc oper reason counts)
  then show ?case by (intro prog_wf_extends[OF pr_allowlist]) (auto simp: extends_def world_wf_def)
next
  case (pr_baseline cs ss w b sc oper)
  then show ?case
    by (intro prog_wf_extends[OF pr_baseline])
      (auto simp: extends_def world_wf_def store_wf_def baseline_Add_def Let_def split: option.split)
next
  case (pr_reset cs ss w r)
  then show ?case
    by (intro prog_wf_extends[OF pr_reset]) (auto simp: extends_def world_wf_def store_wf_def)
qed

text \<open>
  C14. Whatever calls a program makes, every context and every connection it holds refers to
  scopes and regions that were created, every scope's book has one entry for each identity, all
  of the scope's own name and counted at least once, each counted region is registered on one
  scope and verified once, and the maps of allowlists, baselines and throttles have one entry
  for each key.
\<close>

theorem programs_stay_well_formed:
  assumes "prog_reach d (cs, ss, w)"
  shows "(\<forall>c \<in> set cs. ctx_wf w c) \<and> (\<forall>se \<in> set ss. session_wf w se) \<and> world_wf w"
proof -
  obtain clock callers where "(prog_step d)\<^sup>*\<^sup>* ([Background], [], initial_world clock callers) (cs, ss, w)"
    using assms by (auto simp: prog_reach_def)
  then have "prog_wf (cs, ss, w)"
    by (induction rule: rtranclp_induct) (auto intro: prog_step_wf prog_wf_initial)
  then show ?thesis by (simp add: prog_wf_def)
qed

text \<open>A program that starts a scope, opens a connection and begins a transaction on it.\<close>

definition small_program :: "detector \<Rightarrow> program" where
  "small_program d =
     (case StartScope d Background ''S'' [] (initial_world int (\<lambda>_. [])) of
        ((c, s), w) \<Rightarrow> (case BeginTx d c NewSession w of (se, w') \<Rightarrow> ([c, Background], [se], w')))"

lemma small_program_reached: "prog_reach d (small_program d)"
proof -
  obtain c s w where s: "StartScope d Background ''S'' (map WithScopeAttrs []) (initial_world int (\<lambda>_. [])) = ((c, s), w)"
    by (metis prod.collapse)
  obtain se w' where b: "session_exec d (ABeginTx c) ([NewSession] ! 0) w = (se, w')" by fastforce
  have 1: "prog_step d ([Background], [], initial_world int (\<lambda>_. [])) ([c, Background], [], w)"
    by (rule pr_start[OF _ s]) simp
  have 2: "prog_step d ([c, Background], [], w) ([c, Background], [NewSession], w)"
    using pr_connect[of d "[c, Background]" "[]" w] by simp
  have "prog_step d ([c, Background], [NewSession], w) ([c, Background], [NewSession][0 := se], w')"
    by (rule pr_use[OF _ _ b]) simp_all
  then have 3: "prog_step d ([c, Background], [NewSession], w) ([c, Background], [se], w')" by simp
  have "(prog_step d)\<^sup>*\<^sup>* ([Background], [], initial_world int (\<lambda>_. [])) ([c, Background], [se], w')"
    using 1 2 3 by (auto intro: rtranclp.rtrancl_into_rtrancl)
  then have "prog_reach d ([c, Background], [se], w')"
    unfolding prog_reach_def by blast
  with s b show ?thesis by (simp add: small_program_def)
qed

theorem programs_stay_well_formed_witness:
  "case small_program (New []) of (cs, ss, w) \<Rightarrow>
     (\<forall>c \<in> set cs. ctx_wf w c) \<and> (\<forall>se \<in> set ss. session_wf w se) \<and> world_wf w
     \<and> map se_txScope ss = [Some 0]"
proof -
  obtain cs ss w where p: "small_program (New []) = (cs, ss, w)" by (rule prod_cases3)
  from small_program_reached[of "New []"] have "prog_reach (New []) (cs, ss, w)" unfolding p .
  from programs_stay_well_formed[OF this] have "(\<forall>c \<in> set cs. ctx_wf w c) \<and> (\<forall>se \<in> set ss. session_wf w se) \<and> world_wf w" .
  moreover have "map se_txScope ss = [Some 0]"
    using p by (auto simp: small_program_def StartScope_def Let_def BeginTx_def closeTx_def openTx_def
        NewSession_def report_nested_def scopeFrom_def initial_world_def split: prod.splits)
  ultimately show ?thesis using p by simp
qed

end
