(* ===== verification/Machine.thy ===== *)
theory Machine
  imports Wellformed
begin

text \<open>
  What a detector promises, as an abstract machine: it knows of each connection which scope its
  transaction belongs to, keeps the history of the side effects performed in transactions, and
  gives signals. It keeps no counter of open transactions, no book of calls and no shared
  holder; \<open>Purity\<close> shows that the detector's reports are exactly its signals.
\<close>

subsection \<open>Programs\<close>

datatype action =
    Connect
  | Statement nat ctx string
  | BeginOn nat ctx
  | EndOn nat
  | Effect ctx op "check_option list"
  | NewScope ctx string "scope_attr list list"
  | EndScope scope_ref
  | Region ctx string "int list"

type_synonym running = "session list \<times> world"

fun exec_action :: "detector \<Rightarrow> action \<Rightarrow> running \<Rightarrow> running" where
  "exec_action d Connect (ss, w) = (ss @ [NewSession], w)"
| "exec_action d (Statement i c query) (ss, w) =
     (case Observe d c query (ss ! i) w of (se, w) \<Rightarrow> (ss[i := se], w))"
| "exec_action d (BeginOn i c) (ss, w) = (case BeginTx d c (ss ! i) w of (se, w) \<Rightarrow> (ss[i := se], w))"
| "exec_action d (EndOn i) (ss, w) = (case EndTx (ss ! i) w of (se, w) \<Rightarrow> (ss[i := se], w))"
| "exec_action d (Effect c oper opts) (ss, w) = (ss, Check d c oper opts w)"
| "exec_action d (NewScope c name ass) (ss, w) = (ss, snd (StartScope d c name (map WithScopeAttrs ass) w))"
| "exec_action d (EndScope s) (ss, w) = (ss, finishScope d s w)"
| "exec_action d (Region c reason counts) (ss, w) = (ss, snd (AllowInTransactionHere c reason counts w))"

definition run_program :: "detector \<Rightarrow> action list \<Rightarrow> world \<Rightarrow> running" where
  "run_program d as w = foldl (\<lambda>run a. exec_action d a run) ([], w) as"

definition start_world :: "(nat \<Rightarrow> time) \<Rightarrow> (nat \<Rightarrow> stack_frame list) \<Rightarrow> (nat \<Rightarrow> allowlist) \<Rightarrow> world" where
  "start_world clock callers entries = (initial_world clock callers)\<lparr>w_allowlists := entries\<rparr>"

subsection \<open>Signals\<close>

text \<open>
  A report without what the surroundings contribute, the time, the stack and the attributes. A
  violation is the scope's name, the operation, how many transactions were open, the index of
  the call and the counts that were declared and exceeded.
\<close>

datatype signal =
    ImpureSig string op int int "int list"
  | StaleSig stale_allow
  | LeakedSig string int
  | NestedSig string string
  | UnscopedTxSig
  | UnscopedCheckSig op

fun signal_of :: "report \<Rightarrow> signal" where
  "signal_of (RViolation v) = ImpureSig (v_Scope v) (v_Op v) (v_OpenTxs v) (v_Call v) (v_AllowedCalls v)"
| "signal_of (RStaleAllow st) = StaleSig st"
| "signal_of (RLeakedTx l) = LeakedSig (lt_Scope l) (lt_OpenTxs l)"
| "signal_of (RNestedScope n) = NestedSig (ns_Outer n) (ns_Inner n)"
| "signal_of (RUnscopedTx u) = UnscopedTxSig"
| "signal_of (RUnscopedCheck u) = UnscopedCheckSig (uc_Op u)"

subsection \<open>The machine's state\<close>

text \<open>
  Scopes and regions are numbered in the order of their creation. \<open>sp_events\<close> is the history
  of side effects performed in transactions, \<open>sp_declared\<close> that of the exact-call declarations
  consulted for them, both with the latest first.
\<close>

type_synonym call_decl = "int list \<times> string"

record region =
  rg_scope :: scope_ref
  rg_reason :: string
  rg_counts :: "int list"
  rg_used :: int

record spec =
  sp_tx :: "tx_state list"
  sp_names :: "string list"
  sp_ended :: "scope_ref list"
  sp_regions :: "region list"
  sp_events :: "(scope_ref \<times> op) list"
  sp_declared :: "((scope_ref \<times> op) \<times> call_decl) list"
  sp_signals :: "signal list"

definition init_spec :: spec where
  "init_spec = \<lparr>sp_tx = [], sp_names = [], sp_ended = [], sp_regions = [], sp_events = [], sp_declared = [],
     sp_signals = []\<rparr>"

definition open_in :: "spec \<Rightarrow> scope_ref \<Rightarrow> int" where
  "open_in sp s = int (length (filter (\<lambda>t. tx_holds t = Some s) (sp_tx sp)))"

definition open_elsewhere :: "spec \<Rightarrow> nat \<Rightarrow> scope_ref \<Rightarrow> int" where
  "open_elsewhere sp i s = open_in sp s - (if tx_holds (sp_tx sp ! i) = Some s then 1 else 0)"

definition times_seen :: "spec \<Rightarrow> scope_ref \<Rightarrow> op \<Rightarrow> int" where
  "times_seen sp s oper = int (count_list (sp_events sp) (s, oper))"

definition declared :: "spec \<Rightarrow> scope_ref \<Rightarrow> op \<Rightarrow> call_decl" where
  "declared sp s oper = (case map_of (sp_declared sp) (s, oper) of None \<Rightarrow> ([], []) | Some d \<Rightarrow> d)"

definition signalled :: "signal list \<Rightarrow> spec \<Rightarrow> spec" where
  "signalled xs sp = sp\<lparr>sp_signals := sp_signals sp @ xs\<rparr>"

text \<open>What the allowlist says of an operation; a list that does not change while the program runs.\<close>

definition resolves :: "allowlist option \<Rightarrow> string \<Rightarrow> op \<Rightarrow> int \<Rightarrow> bool" where
  "resolves al name oper k = (case al of None \<Rightarrow> False | Some a \<Rightarrow> allowlist_resolve a (name, oper, k) \<noteq> None)"

definition listed :: "allowlist option \<Rightarrow> string \<Rightarrow> op \<Rightarrow> call_decl" where
  "listed al name oper =
     (case al of None \<Rightarrow> ([], []) | Some a \<Rightarrow>
       (case lookup_entry a name oper of None \<Rightarrow> ([], []) | Some (key, e) \<Rightarrow> (ae_counts e, ae_reason e)))"

subsection \<open>Sightings\<close>

text \<open>
  What an action shows at a checkpoint: a side effect while transactions are open in its scope,
  or an allowance that was not needed because none is.
\<close>

datatype sight =
    InTx scope_ref "mark_ref option" op int check_config
  | Idle scope_ref op string

definition region_covered :: "spec \<Rightarrow> mark_ref option \<Rightarrow> bool" where
  "region_covered sp mark =
     (case mark of None \<Rightarrow> False | Some m \<Rightarrow> coversCalls (rg_counts (sp_regions sp ! m)) (rg_used (sp_regions sp ! m) + 1))"

definition region_counts :: "spec \<Rightarrow> mark_ref option \<Rightarrow> int list" where
  "region_counts sp mark = (case mark of None \<Rightarrow> [] | Some m \<Rightarrow> rg_counts (sp_regions sp ! m))"

definition region_counted :: "spec \<Rightarrow> mark_ref option \<Rightarrow> region list" where
  "region_counted sp mark =
     (case mark of None \<Rightarrow> sp_regions sp
      | Some m \<Rightarrow> (sp_regions sp)[m := (sp_regions sp ! m)\<lparr>rg_used := rg_used (sp_regions sp ! m) + 1\<rparr>])"

definition declare_calls :: "scope_ref \<times> op \<Rightarrow> call_decl \<Rightarrow> ((scope_ref \<times> op) \<times> call_decl) list \<Rightarrow> ((scope_ref \<times> op) \<times> call_decl) list" where
  "declare_calls h dec ds = (if fst dec = [] then ds else (h, dec) # ds)"

definition option_declares :: "check_config \<Rightarrow> call_decl" where
  "option_declares cfg = (if cfg_allowed cfg then (cfg_allowCounts cfg, cfg_allowReason cfg) else ([], []))"

text \<open>
  A side effect is counted. It is a violation unless the call's option, then the region, then
  the allowlist covers it; a region counts only what the option did not cover, and the
  allowlist is consulted only for what neither covered.
\<close>

fun witness :: "allowlist option \<Rightarrow> sight \<Rightarrow> spec \<Rightarrow> spec" where
  "witness al (InTx s mark oper opn cfg) sp =
     (let name = sp_names sp ! s;
          k = times_seen sp s oper + 1;
          by_option = option_covers cfg k;
          early = by_option \<or> region_covered sp mark;
          noted = declare_calls (s, oper) (option_declares cfg) (sp_declared sp)
      in sp\<lparr>sp_events := (s, oper) # sp_events sp,
            sp_regions := (if by_option then sp_regions sp else region_counted sp mark),
            sp_declared := (if early then noted else declare_calls (s, oper) (listed al name oper) noted),
            sp_signals := sp_signals sp @
              (if early \<or> resolves al name oper k then []
               else [ImpureSig name oper opn k
                      (fst (option_declares cfg) @ region_counts sp mark @ fst (listed al name oper))])\<rparr>)"
| "witness al (Idle s oper reason) sp = signalled [StaleSig (stale_now (sp_names sp ! s) oper reason)] sp"

definition in_scope :: "ctx \<Rightarrow> (scope_ref \<Rightarrow> mark_ref option \<Rightarrow> sight list) \<Rightarrow> sight list" where
  "in_scope c f = (case scopeAndMarkFrom c of (Some s, mark) \<Rightarrow> f s mark | (None, _) \<Rightarrow> [])"

definition idle_region :: "spec \<Rightarrow> scope_ref \<Rightarrow> mark_ref option \<Rightarrow> op \<Rightarrow> sight list" where
  "idle_region sp s mark oper = (case mark of None \<Rightarrow> [] | Some m \<Rightarrow> [Idle s oper (rg_reason (sp_regions sp ! m))])"

text \<open>The operations that the statement checkers recognise in a text, and how they are seen.\<close>

definition checker_matches :: "detector \<Rightarrow> string \<Rightarrow> op list" where
  "checker_matches d query = map fst (filter snd (map (\<lambda>chk. chk query) (d_stmtCheckers d)))"

definition matched_sights :: "spec \<Rightarrow> scope_ref \<Rightarrow> mark_ref option \<Rightarrow> op list \<Rightarrow> sight list" where
  "matched_sights sp s mark ops =
     (if 0 < open_in sp s then map (\<lambda>oper. InTx s mark oper (open_in sp s) zero_config) ops
      else concat (map (idle_region sp s mark) ops))"

definition write_sights :: "spec \<Rightarrow> nat \<Rightarrow> op \<Rightarrow> scope_ref \<Rightarrow> mark_ref option \<Rightarrow> sight list" where
  "write_sights sp i oper s mark =
     (if 0 < open_elsewhere sp i s then [InTx s mark oper (open_elsewhere sp i s) zero_config]
      else if open_in sp s = 0 then idle_region sp s mark oper else [])"

fun sights :: "detector \<Rightarrow> action \<Rightarrow> spec \<Rightarrow> sight list" where
  "sights d (Effect c oper opts) sp = in_scope c (\<lambda>s mark.
     let cfg = appliedCheckConfig opts in
     if 0 < open_in sp s then [InTx s mark oper (open_in sp s) cfg]
     else (if cfg_allowed cfg then [Idle s oper (cfg_allowReason cfg)] else []) @ idle_region sp s mark oper)"
| "sights d (Statement i c query) sp = in_scope c (\<lambda>s mark.
     (if d_classify d query = KindWrite then write_sights sp i (db_op query) s mark else [])
     @ matched_sights sp s mark (checker_matches d query))"
| "sights d _ sp = []"

subsection \<open>Steps\<close>

text \<open>
  What an ending scope owes: each identity whose latest declaration its total missed, in the
  order of the identities, then each region of the scope that missed its counts, in the order
  of their creation.
\<close>

definition shortfall :: "string \<Rightarrow> op \<Rightarrow> call_decl \<Rightarrow> int \<Rightarrow> stale_allow list" where
  "shortfall name oper dec n =
     (if misses_counts (fst dec) n
      then [\<lparr>st_Scope = name, st_Op = oper, st_Reason = snd dec, st_Calls = n, st_AllowedCalls = fst dec\<rparr>] else [])"

definition declared_keys_in :: "spec \<Rightarrow> scope_ref \<Rightarrow> violation_key list" where
  "declared_keys_in sp s =
     sort (remdups (map (\<lambda>h. key_for (sp_names sp ! s) (snd (fst h))) (filter (\<lambda>h. fst (fst h) = s) (sp_declared sp))))"

definition owed :: "spec \<Rightarrow> scope_ref \<Rightarrow> stale_allow list" where
  "owed sp s =
     concat (map (\<lambda>key. let oper = Op (vk_kind key) (vk_name key) in
        shortfall (sp_names sp ! s) oper (declared sp s oper) (times_seen sp s oper)) (declared_keys_in sp s))
     @ concat (map (\<lambda>r. if rg_scope r = s then shortfall (sp_names sp ! s) zero_op (rg_counts r, rg_reason r) (rg_used r) else [])
        (sp_regions sp))"

definition unscoped_signals :: "detector \<Rightarrow> ctx \<Rightarrow> signal list" where
  "unscoped_signals d c = (if d_reportUnscoped d \<and> scopeFrom c = None then [UnscopedTxSig] else [])"

text \<open>How an action changes who has a transaction open, what else exists, and what that signals.\<close>

fun move :: "detector \<Rightarrow> action \<Rightarrow> spec \<Rightarrow> spec" where
  "move d Connect sp = sp\<lparr>sp_tx := sp_tx sp @ [None]\<rparr>"
| "move d (Statement i c query) sp =
     signalled (if d_classify d query = KindBegin \<and> sp_tx sp ! i = None then unscoped_signals d c else [])
       (sp\<lparr>sp_tx := (sp_tx sp)[i := tx_spec (d_classify d query) c (sp_tx sp ! i)]\<rparr>)"
| "move d (BeginOn i c) sp = signalled (unscoped_signals d c) (sp\<lparr>sp_tx := (sp_tx sp)[i := Some (scopeFrom c)]\<rparr>)"
| "move d (EndOn i) sp = sp\<lparr>sp_tx := (sp_tx sp)[i := None]\<rparr>"
| "move d (Effect c oper opts) sp =
     signalled (if d_reportUnscopedCheck d \<and> scopeFrom c = None then [UnscopedCheckSig oper] else []) sp"
| "move d (NewScope c name ass) sp =
     signalled (case scopeFrom c of
         None \<Rightarrow> [] | Some outer \<Rightarrow> if d_reportNested d then [NestedSig (sp_names sp ! outer) name] else [])
       (sp\<lparr>sp_names := sp_names sp @ [name]\<rparr>)"
| "move d (EndScope s) sp =
     (if s \<in> set (sp_ended sp) then sp
      else signalled (map StaleSig (owed sp s)
          @ (if d_reportLeaked d \<and> 0 < open_in sp s then [LeakedSig (sp_names sp ! s) (open_in sp s)] else []))
        (sp\<lparr>sp_ended := s # sp_ended sp\<rparr>))"
| "move d (Region c reason counts) sp =
     (case scopeFrom c of
        None \<Rightarrow> sp
      | Some s \<Rightarrow> sp\<lparr>sp_regions := sp_regions sp @ [\<lparr>rg_scope = s, rg_reason = reason, rg_counts = counts, rg_used = 0\<rparr>]\<rparr>)"

definition spec_step :: "detector \<Rightarrow> allowlist option \<Rightarrow> spec \<Rightarrow> action \<Rightarrow> spec" where
  "spec_step d al sp a =
     (let sp = move d a sp in foldl (\<lambda>sp x. witness al x sp) sp (sights d a sp))"

definition run_spec :: "detector \<Rightarrow> allowlist option \<Rightarrow> action list \<Rightarrow> spec" where
  "run_spec d al as = foldl (\<lambda>sp a. spec_step d al sp a) init_spec as"

text \<open>An action is possible when it refers to what exists.\<close>

definition ctx_known :: "spec \<Rightarrow> ctx \<Rightarrow> bool" where
  "ctx_known sp c =
     (case scopeAndMarkFrom c of
        (None, _) \<Rightarrow> True
      | (Some s, None) \<Rightarrow> s < length (sp_names sp)
      | (Some s, Some m) \<Rightarrow> s < length (sp_names sp) \<and> m < length (sp_regions sp))"

fun possible :: "spec \<Rightarrow> action \<Rightarrow> bool" where
  "possible sp Connect = True"
| "possible sp (Statement i c query) = (i < length (sp_tx sp) \<and> ctx_known sp c)"
| "possible sp (BeginOn i c) = (i < length (sp_tx sp) \<and> ctx_known sp c)"
| "possible sp (EndOn i) = (i < length (sp_tx sp))"
| "possible sp (Effect c oper opts) = ctx_known sp c"
| "possible sp (NewScope c name ass) = ctx_known sp c"
| "possible sp (EndScope s) = (s < length (sp_names sp))"
| "possible sp (Region c reason counts) = ctx_known sp c"

fun sensible :: "detector \<Rightarrow> allowlist option \<Rightarrow> spec \<Rightarrow> action list \<Rightarrow> bool" where
  "sensible d al sp [] = True"
| "sensible d al sp (a # as) = (possible sp a \<and> sensible d al (spec_step d al sp a) as)"

subsection \<open>What steps leave alone\<close>

lemma signalled_fields [simp]:
  "sp_tx (signalled xs sp) = sp_tx sp" "sp_names (signalled xs sp) = sp_names sp"
  "sp_ended (signalled xs sp) = sp_ended sp" "sp_regions (signalled xs sp) = sp_regions sp"
  "sp_events (signalled xs sp) = sp_events sp" "sp_declared (signalled xs sp) = sp_declared sp"
  "sp_signals (signalled xs sp) = sp_signals sp @ xs"
  "open_in (signalled xs sp) s = open_in sp s" "times_seen (signalled xs sp) s oper = times_seen sp s oper"
  "declared (signalled xs sp) s oper = declared sp s oper"
  by (simp_all add: signalled_def open_in_def times_seen_def declared_def)

lemma signalled_Nil [simp]: "signalled [] sp = sp"
  by (simp add: signalled_def)

lemma witness_fields [simp]:
  "sp_tx (witness al x sp) = sp_tx sp" "sp_names (witness al x sp) = sp_names sp"
  "sp_ended (witness al x sp) = sp_ended sp"
  "length (sp_regions (witness al x sp)) = length (sp_regions sp)"
  "open_in (witness al x sp) s = open_in sp s"
  by (cases x; simp add: Let_def region_counted_def open_in_def split: option.split)+

lemma used_region:
  "f (r\<lparr>rg_used := v\<rparr>) = f r \<Longrightarrow> r = xs ! i \<Longrightarrow> f (xs[i := r\<lparr>rg_used := v\<rparr>] ! j) = f (xs ! j)"
  by (cases "i < length xs") (auto simp: nth_list_update list_update_beyond)

lemma witness_region:
  "rg_reason (sp_regions (witness al x sp) ! m) = rg_reason (sp_regions sp ! m)"
  "rg_scope (sp_regions (witness al x sp) ! m) = rg_scope (sp_regions sp ! m)"
  "rg_counts (sp_regions (witness al x sp) ! m) = rg_counts (sp_regions sp ! m)"
  by (cases x; simp add: Let_def region_counted_def used_region split: option.split)+

lemma witnesses_fields [simp]:
  "sp_names (foldl (\<lambda>sp x. witness al x sp) sp xs) = sp_names sp"
  "sp_tx (foldl (\<lambda>sp x. witness al x sp) sp xs) = sp_tx sp"
  "length (sp_regions (foldl (\<lambda>sp x. witness al x sp) sp xs)) = length (sp_regions sp)"
  "open_in (foldl (\<lambda>sp x. witness al x sp) sp xs) s = open_in sp s"
  "rg_reason (sp_regions (foldl (\<lambda>sp x. witness al x sp) sp xs) ! m) = rg_reason (sp_regions sp ! m)"
  by (induction xs arbitrary: sp) (simp_all add: witness_region)

lemma in_scope_append: "in_scope c (\<lambda>s mark. f s mark @ g s mark) = in_scope c f @ in_scope c g"
  by (simp add: in_scope_def split: prod.split option.split)

lemma in_scope_Nil [simp]: "in_scope c (\<lambda>s mark. []) = []"
  by (simp add: in_scope_def split: prod.split option.split)

lemma ctx_known_cong:
  "sp_names sp' = sp_names sp \<Longrightarrow> length (sp_regions sp') = length (sp_regions sp) \<Longrightarrow> ctx_known sp' c = ctx_known sp c"
  by (simp add: ctx_known_def split: prod.split option.split)

lemma known_scope: "ctx_known sp c \<Longrightarrow> scopeFrom c = Some s \<Longrightarrow> s < length (sp_names sp)"
  by (auto simp: ctx_known_def scopeFrom_def split: prod.splits option.splits)

lemma open_in_count: "open_in sp s = tx_count tx_holds (sp_tx sp) s"
  by (simp add: open_in_def tx_count_filter)

lemma map_of_declare:
  "map_of (declare_calls h dec ds) = (if fst dec = [] then map_of ds else (map_of ds)(h \<mapsto> dec))"
  by (simp add: declare_calls_def)

end
