(* ===== verification/Purity.thy ===== *)
theory Purity
  imports Machine "HOL-Library.Sublist"
begin

text \<open>
  The detector implements the abstract machine of \<open>Machine\<close>: a relation between the two that
  every action preserves. What a reporter must do for its reports to be compared with the
  machine's signals is a locale, interpreted for a user's reporter, which sees the reports in
  their order, and for the collector, which sorts them by kind.
\<close>

declare witness.simps(1) [simp del]

subsection \<open>Listening reporters\<close>

locale listening =
  fixes reps :: "reporter list"
    and heard :: "rstore \<Rightarrow> signal list \<Rightarrow> bool"
  assumes hears: "heard st xs \<Longrightarrow> heard (deliver_all reps r st) (xs @ [signal_of r])"
    and reads: "heard st xs \<Longrightarrow> heard (st\<lparr>rs_reads := n\<rparr>) xs"
    and silent: "heard (initial_store clock) []"

definition user_heard :: "nat \<Rightarrow> rstore \<Rightarrow> signal list \<Rightarrow> bool" where
  "user_heard u st xs \<longleftrightarrow> map signal_of (rs_users st u) = xs"

definition all_extensions :: "extension list" where
  "all_extensions = [ExtUnscopedTx, ExtUnscopedCheck, ExtNestedScope, ExtLeakedTx, ExtStaleAllow]"

interpretation usr: listening "[UserReporter u all_extensions]" "user_heard u" for u
proof
  fix st xs r n clock
  have "supports all_extensions r" by (cases r) (simp_all add: supports_def all_extensions_def)
  then show "user_heard u st xs \<Longrightarrow> user_heard u (deliver_all [UserReporter u all_extensions] r st) (xs @ [signal_of r])"
    by (simp add: user_heard_def user_receive_def)
qed (simp_all add: user_heard_def initial_store_def)

text \<open>The six lists of a collector, and the signals of each kind.\<close>

definition collector_signals :: "collector \<Rightarrow> signal list list" where
  "collector_signals c =
     [map (signal_of \<circ> RViolation) (Violations c), map (signal_of \<circ> RStaleAllow) (StaleAllows c),
      map (signal_of \<circ> RLeakedTx) (LeakedTxs c), map (signal_of \<circ> RNestedScope) (NestedScopes c),
      map (signal_of \<circ> RUnscopedTx) (UnscopedTxs c), map (signal_of \<circ> RUnscopedCheck) (UnscopedChecks c)]"

fun signal_kind :: "signal \<Rightarrow> nat" where
  "signal_kind (ImpureSig name oper opn k cs) = 0"
| "signal_kind (StaleSig st) = 1"
| "signal_kind (LeakedSig name n) = 2"
| "signal_kind (NestedSig outer inner) = 3"
| "signal_kind UnscopedTxSig = 4"
| "signal_kind (UnscopedCheckSig oper) = 5"

definition sorted_signals :: "signal list \<Rightarrow> signal list list" where
  "sorted_signals xs = map (\<lambda>k. filter (\<lambda>x. signal_kind x = k) xs) [0, 1, 2, 3, 4, 5]"

definition collector_heard :: "nat \<Rightarrow> rstore \<Rightarrow> signal list \<Rightarrow> bool" where
  "collector_heard r st xs \<longleftrightarrow> collector_signals (rs_collectors st r) = sorted_signals xs"

interpretation col: listening "[CollectingReporter c]" "collector_heard c" for c
proof
  fix st xs r n clock
  show "collector_heard c st xs \<Longrightarrow> collector_heard c (deliver_all [CollectingReporter c] r st) (xs @ [signal_of r])"
    by (cases r) (simp_all add: collector_heard_def collector_receive_def collector_signals_def sorted_signals_def
        Violations_def StaleAllows_def LeakedTxs_def NestedScopes_def UnscopedTxs_def UnscopedChecks_def)
qed (simp_all add: collector_heard_def initial_store_def new_collector_def collector_signals_def sorted_signals_def
    Violations_def StaleAllows_def LeakedTxs_def NestedScopes_def UnscopedTxs_def UnscopedChecks_def)

subsection \<open>When a running program is as the abstract machine says\<close>

text \<open>The declaration a scope holds for an identity, as a pair.\<close>

definition noted_decl :: "scope \<Rightarrow> violation_key \<Rightarrow> call_decl" where
  "noted_decl sc key = (declared_of sc key, reason_of sc key)"

definition own_keys :: "scope \<Rightarrow> bool" where
  "own_keys sc \<longleftrightarrow> (\<forall>key \<in> fst ` set (sc_calls sc). vk_scope key = sc_name sc)"

definition scope_match :: "spec \<Rightarrow> scope_ref \<Rightarrow> scope \<Rightarrow> bool" where
  "scope_match sp s sc \<longleftrightarrow>
     sc_name sc = sp_names sp ! s
   \<and> sc_openTxs sc = open_in sp s
   \<and> (sc_finished sc \<longleftrightarrow> s \<in> set (sp_ended sp))
   \<and> (\<forall>oper. calls_of sc (key_for (sp_names sp ! s) oper) = times_seen sp s oper
          \<and> noted_decl sc (key_for (sp_names sp ! s) oper) = declared sp s oper)
   \<and> sc_marks sc = filter (\<lambda>m. rg_scope (sp_regions sp ! m) = s \<and> rg_counts (sp_regions sp ! m) \<noteq> []) [0..<length (sp_regions sp)]
   \<and> calls_ok sc \<and> own_keys sc"

definition scopes_match :: "spec \<Rightarrow> world \<Rightarrow> bool" where
  "scopes_match sp w \<longleftrightarrow> w_next_scope w = length (sp_names sp) \<and> (\<forall>s < length (sp_names sp). scope_match sp s (w_scopes w s))"

definition region_match :: "allow_mark \<Rightarrow> region \<Rightarrow> bool" where
  "region_match am r \<longleftrightarrow> am_reason am = rg_reason r \<and> am_counts am = rg_counts r \<and> am_n am = rg_used r"

definition regions_match :: "spec \<Rightarrow> world \<Rightarrow> bool" where
  "regions_match sp w \<longleftrightarrow> w_next_mark w = length (sp_regions sp) \<and>
     (\<forall>m < length (sp_regions sp). region_match (w_marks w m) (sp_regions sp ! m))"

definition lists_match :: "detector \<Rightarrow> allowlist option \<Rightarrow> world \<Rightarrow> bool" where
  "lists_match d al w \<longleftrightarrow> (let now = map_option (w_allowlists w) (d_allowlist d) in
     (\<forall>name oper k. resolves now name oper k = resolves al name oper k)
     \<and> (\<forall>name oper. listed now name oper = listed al name oper))"

definition spec_ok :: "spec \<Rightarrow> bool" where
  "spec_ok sp \<longleftrightarrow>
     (\<forall>t \<in> set (sp_tx sp). \<forall>s. tx_holds t = Some s \<longrightarrow> s < length (sp_names sp))
     \<and> fst ` set (sp_events sp) \<subseteq> {..< length (sp_names sp)}
     \<and> fst ` fst ` set (sp_declared sp) \<subseteq> {..< length (sp_names sp)}
     \<and> set (sp_ended sp) \<subseteq> {..< length (sp_names sp)}
     \<and> rg_scope ` set (sp_regions sp) \<subseteq> {..< length (sp_names sp)}"

definition matches :: "detector \<Rightarrow> allowlist option \<Rightarrow> (rstore \<Rightarrow> signal list \<Rightarrow> bool) \<Rightarrow> spec \<Rightarrow> running \<Rightarrow> bool" where
  "matches d al heard sp run = (case run of (ss, w) \<Rightarrow>
     map tx_state ss = sp_tx sp \<and> list_all session_valid ss \<and> spec_ok sp
     \<and> scopes_match sp w \<and> regions_match sp w \<and> lists_match d al w \<and> heard (w_rs w) (sp_signals sp))"

text \<open>A step that reports, and beyond that leaves all of this alone.\<close>

definition same_books :: "world \<Rightarrow> world \<Rightarrow> bool" where
  "same_books w w' \<longleftrightarrow> w_scopes w' = w_scopes w \<and> w_next_scope w' = w_next_scope w \<and> w_marks w' = w_marks w
     \<and> w_next_mark w' = w_next_mark w \<and> w_allowlists w' = w_allowlists w"

lemma same_books_refl [simp]: "same_books w w"
  by (simp add: same_books_def)

lemma scope_match_signalled [simp]: "scope_match (signalled xs sp) s sc = scope_match sp s sc"
  by (simp add: scope_match_def)

lemma matches_told:
  assumes "matches d al heard sp (ss, w)" "same_books w w'" "heard (w_rs w') (sp_signals sp @ xs)"
  shows "matches d al heard (signalled xs sp) (ss, w')"
  using assms
  by (simp add: matches_def same_books_def scopes_match_def regions_match_def lists_match_def spec_ok_def)

subsection \<open>A side effect in a transaction\<close>

lemma decide_list_state:
  "snd (allowlist_decide name oper k a) = a
   \<or> (\<exists>key e. map_of a key = Some e \<and> snd (allowlist_decide name oper k a) = map_put key (e\<lparr>ae_used := True\<rparr>) a)"
  by (auto simp: allowlist_decide_def split: option.split dest: lookup_entry_map)

lemma used_same_entry:
  assumes "map_of a key = Some e"
  shows "listed (Some (map_put key (e\<lparr>ae_used := True\<rparr>) a)) n oper = listed (Some a) n oper"
proof (cases "lookup_entry a n oper")
  case None
  then show ?thesis by (simp add: listed_def lookup_entry_used[OF assms])
next
  case (Some ke)
  obtain k e' where ke: "ke = (k, e')" by (cases ke)
  with Some have "map_of a k = Some e'" by (simp add: lookup_entry_map)
  with Some ke assms show ?thesis by (auto simp: listed_def lookup_entry_used[OF assms])
qed

lemma resolve_decide [simp]:
  "allowlist_resolve (snd (allowlist_decide name oper k a)) = allowlist_resolve a"
  "listed (Some (snd (allowlist_decide name oper k a))) n oper' = listed (Some a) n oper'"
  using decide_list_state[of name oper k a]
  by (auto simp: allowlist_resolve_put used_same_entry)

lemma list_covers_now:
  "list_covers d w n oper k = resolves (map_option (w_allowlists w) (d_allowlist d)) n oper k"
  "list_counts d w n oper = fst (listed (map_option (w_allowlists w) (d_allowlist d)) n oper)"
  by (cases "d_allowlist d"; simp add: list_covers_def list_counts_def resolves_def listed_def split: option.split)+

text \<open>What becomes of the declarations a scope holds.\<close>

lemma noted_decl_bump [simp]: "noted_decl (snd (bumpCall key sc)) = noted_decl sc"
  by (auto simp: noted_decl_def bumpCall_def declared_of_def reason_of_def Let_def fun_eq_iff split: option.split)

lemma noted_decl_note:
  "calls_ok sc \<Longrightarrow> 1 \<le> calls_of sc key \<Longrightarrow> noted_decl (noteDeclared key counts reason sc)
     = (if counts = [] then noted_decl sc else (noted_decl sc)(key := (counts, reason)))"
  by (auto simp: noteDeclared_def noted_decl_def declared_of_def reason_of_def calls_of_def fun_eq_iff split: option.splits)

lemma calls_nonneg: "calls_ok sc \<Longrightarrow> 0 \<le> calls_of sc key"
  by (force simp: calls_of_def calls_ok_def split: option.split)

definition decl_upd :: "violation_key \<Rightarrow> call_decl \<Rightarrow> (violation_key \<Rightarrow> call_decl) \<Rightarrow> violation_key \<Rightarrow> call_decl" where
  "decl_upd key dec f = (if fst dec = [] then f else f(key := dec))"

lemma noted_decl_noted:
  assumes "calls_ok sc"
  shows "noted_decl (noted_scope d w mark oper cfg sc) =
    (let key = key_for (sc_name sc) oper; f = decl_upd key (option_declares cfg) (noted_decl sc) in
     if option_covers cfg (calls_of sc key + 1) \<or> region_covers w mark then f
     else decl_upd key (listed (map_option (w_allowlists w) (d_allowlist d)) (sc_name sc) oper) f)"
proof -
  let ?key = "key_for (sc_name sc) oper"
  let ?b = "snd (bumpCall ?key sc)"
  define N where "N = (if cfg_allowed cfg then noteDeclared ?key (cfg_allowCounts cfg) (cfg_allowReason cfg) ?b else ?b)"
  have b: "calls_ok ?b" "1 \<le> calls_of ?b ?key" using assms calls_nonneg[OF assms, of ?key] by simp_all
  then have n: "calls_ok N" "1 \<le> calls_of N ?key" by (simp_all add: N_def)
  have decl: "noted_decl N = decl_upd ?key (option_declares cfg) (noted_decl sc)"
    using noted_decl_note[OF b] by (simp add: N_def decl_upd_def option_declares_def)
  have "noted_scope d w mark oper cfg sc =
    (if option_covers cfg (calls_of sc ?key + 1) \<or> region_covers w mark then N
     else case d_allowlist d of None \<Rightarrow> N
       | Some a \<Rightarrow> (case lookup_entry (w_allowlists w a) (sc_name sc) oper of
           None \<Rightarrow> N | Some (_, e) \<Rightarrow> noteDeclared ?key (ae_counts e) (ae_reason e) N))"
    by (simp only: noted_scope_def Let_def N_def)
  then show ?thesis
    using noted_decl_note[OF n] by (simp add: Let_def decl listed_def decl_upd_def split: option.split)
qed

lemma own_keys_noted: "own_keys sc \<Longrightarrow> own_keys (noted_scope d w mark oper cfg sc)"
proof -
  have "fst ` set (sc_calls (noted_scope d w mark oper cfg sc)) = insert (key_for (sc_name sc) oper) (fst ` set (sc_calls sc))"
    by (simp add: noted_scope_def Let_def del: image_insert split: option.split)
  then show "own_keys sc \<Longrightarrow> own_keys (noted_scope d w mark oper cfg sc)" by (simp add: own_keys_def del: image_eqI)
qed

lemma calls_ok_noted: "calls_ok sc \<Longrightarrow> calls_ok (noted_scope d w mark oper cfg sc)"
  by (simp add: noted_scope_def Let_def split: option.split)

lemma declared_witness:
  "declared (witness al (InTx s mark oper opn cfg) sp) t =
    (if t = s then
       (let f = (declared sp s)(oper := (if fst (option_declares cfg) = [] then declared sp s oper else option_declares cfg));
            dec = listed al (sp_names sp ! s) oper in
        if option_covers cfg (times_seen sp s oper + 1) \<or> region_covered sp mark \<or> fst dec = [] then f else f(oper := dec))
     else declared sp t)"
  by (auto simp: declared_def witness.simps(1) map_of_declare Let_def fun_eq_iff)

lemma times_seen_witness:
  "times_seen (witness al (InTx s mark oper opn cfg) sp) t oper' = times_seen sp t oper' + of_bool (t = s \<and> oper' = oper)"
  by (auto simp: times_seen_def witness.simps(1) Let_def)

lemma region_match_covers:
  assumes "regions_match sp w" "\<forall>m. mark = Some m \<longrightarrow> m < length (sp_regions sp)"
  shows "region_covers w mark = region_covered sp mark"
    "(case mark of None \<Rightarrow> [] | Some m \<Rightarrow> am_counts (w_marks w m)) = region_counts sp mark"
  using assms by (cases mark; simp add: regions_match_def region_match_def region_covers_def region_covered_def region_counts_def)+

lemma scope_match_witness:
  assumes sc: "scope_match sp s sc" and r: "regions_match sp w" and l: "lists_match d al w"
    and m: "\<forall>m. mark = Some m \<longrightarrow> m < length (sp_regions sp)"
  shows "scope_match (witness al (InTx s mark oper opn cfg) sp) s (noted_scope d w mark oper cfg sc)"
proof -
  let ?sp = "witness al (InTx s mark oper opn cfg) sp"
  have name: "sc_name sc = sp_names sp ! s" and ok: "calls_ok sc"
    and k: "calls_of sc (key_for (sp_names sp ! s) x) = times_seen sp s x"
    and dec: "noted_decl sc (key_for (sp_names sp ! s) x) = declared sp s x" for x
    using sc by (simp_all add: scope_match_def)
  have list: "listed (map_option (w_allowlists w) (d_allowlist d)) n x = listed al n x" for n x
    using l by (simp add: lists_match_def Let_def)
  have "noted_decl (noted_scope d w mark oper cfg sc) (key_for (sp_names sp ! s) x) = declared ?sp s x" for x
    unfolding noted_decl_noted[OF ok] declared_witness
    by (simp add: Let_def name k list region_match_covers[OF r m] decl_upd_def dec)
  moreover have "calls_of (noted_scope d w mark oper cfg sc) (key_for (sp_names sp ! s) x) = times_seen ?sp s x" for x
    by (simp add: calls_of_noted times_seen_witness name k)
  moreover have "calls_ok (noted_scope d w mark oper cfg sc)" "own_keys (noted_scope d w mark oper cfg sc)"
    using sc by (simp_all add: scope_match_def own_keys_noted calls_ok_noted)
  ultimately show ?thesis
    using sc by (simp add: scope_match_def witness_region name)
qed

lemma scope_match_other:
  assumes "scope_match sp t sc" "t \<noteq> s"
  shows "scope_match (witness al (InTx s mark oper opn cfg) sp) t sc"
  using assms by (simp add: scope_match_def witness_region times_seen_witness declared_witness)

lemma scopes_match_witness:
  assumes "scopes_match sp w" "regions_match sp w" "lists_match d al w" "\<forall>m. mark = Some m \<longrightarrow> m < length (sp_regions sp)"
  shows "scopes_match (witness al (InTx s mark oper opn cfg) sp) (decideAndReport d s mark oper opn cfg w)"
  using assms
  by (auto simp: scopes_match_def decide_scopes scope_match_witness scope_match_other)

lemma regions_match_witness:
  assumes "regions_match sp w" "scopes_match sp w" "s < length (sp_names sp)"
    "\<forall>m. mark = Some m \<longrightarrow> m < length (sp_regions sp)"
  shows "regions_match (witness al (InTx s mark oper opn cfg) sp) (decideAndReport d s mark oper opn cfg w)"
proof -
  have k: "calls_of (w_scopes w s) (key_for (sc_name (w_scopes w s)) oper) = times_seen sp s oper"
    using assms(2,3) by (simp add: scopes_match_def scope_match_def)
  show ?thesis
    using assms(1,4)
    by (cases mark)
      (auto simp: regions_match_def region_match_def decide_marks k region_counted_def witness.simps(1) Let_def nth_list_update)
qed

lemma lists_match_witness:
  assumes "lists_match d al w"
  shows "lists_match d al (decideAndReport d s mark oper opn cfg w)"
proof (cases "d_allowlist d")
  case None
  with assms show ?thesis by (simp add: lists_match_def)
next
  case (Some a)
  with assms show ?thesis by (auto simp: lists_match_def decide_lists resolves_def Let_def)
qed

lemma spec_ok_witness: "spec_ok sp \<Longrightarrow> s < length (sp_names sp) \<Longrightarrow> spec_ok (witness al (InTx s mark oper opn cfg) sp)"
proof -
  assume ok: "spec_ok sp" and s: "s < length (sp_names sp)"
  have "map rg_scope (sp_regions (witness al (InTx s mark oper opn cfg) sp)) = map rg_scope (sp_regions sp)"
    by (rule nth_equalityI) (simp_all add: witness_region)
  then have "rg_scope ` set (sp_regions (witness al (InTx s mark oper opn cfg) sp)) = rg_scope ` set (sp_regions sp)"
    by (metis set_map)
  with ok s show ?thesis
    by (auto simp: spec_ok_def witness.simps(1) Let_def declare_calls_def)
qed

subsection \<open>Every action is matched\<close>

text \<open>Extending the machine by a scope leaves the scopes before it alone.\<close>

lemma scope_match_cong:
  assumes "sp_names sp' ! s = sp_names sp ! s" "open_in sp' s = open_in sp s"
    "s \<in> set (sp_ended sp') \<longleftrightarrow> s \<in> set (sp_ended sp)" "sp_regions sp' = sp_regions sp"
    "sp_events sp' = sp_events sp" "sp_declared sp' = sp_declared sp"
  shows "scope_match sp' s sc = scope_match sp s sc"
  using assms by (simp add: scope_match_def times_seen_def declared_def)

lemma matches_opens:
  assumes "matches d al heard sp (ss, w)" "s < length (sp_names sp)"
  shows "sc_openTxs (w_scopes w s) = open_in sp s" "sc_name (w_scopes w s) = sp_names sp ! s"
  using assms by (simp_all add: matches_def scopes_match_def scope_match_def)

lemma matches_reason:
  assumes "matches d al heard sp (ss, w)" "m < length (sp_regions sp)"
  shows "am_reason (w_marks w m) = rg_reason (sp_regions sp ! m)"
  using assms by (simp add: matches_def regions_match_def region_match_def)

lemma list_all_at: "list_all P xs \<Longrightarrow> i < length xs \<Longrightarrow> P (xs ! i)"
  by (simp add: list_all_iff)

lemma matches_tx_at:
  assumes "matches d al heard sp (ss, w)" "i < length ss"
  shows "sp_tx sp ! i = tx_state (ss ! i)" "session_valid (ss ! i)" "length (sp_tx sp) = length ss"
    "ss[i := ss ! i] = ss" "sp\<lparr>sp_tx := (sp_tx sp)[i := sp_tx sp ! i]\<rparr> = sp"
  using assms by (auto simp: matches_def list_all_at nth_map[of i ss tx_state, symmetric] simp flip: length_map[of tx_state ss]
      simp del: nth_map)

text \<open>A step that moves counters of open transactions, and reports.\<close>

definition counter_step :: "world \<Rightarrow> world \<Rightarrow> bool" where
  "counter_step w w' \<longleftrightarrow> same_books w (w'\<lparr>w_scopes := w_scopes w\<rparr>)
     \<and> (\<forall>s. (w_scopes w' s)\<lparr>sc_openTxs := 0\<rparr> = (w_scopes w s)\<lparr>sc_openTxs := 0\<rparr>)"

lemma counter_step_trans: "counter_step w w' \<Longrightarrow> counter_step w' w'' \<Longrightarrow> counter_step w w''"
  by (simp add: counter_step_def same_books_def)

lemma counter_step_same: "same_books w w' \<Longrightarrow> counter_step w w'"
  by (simp add: counter_step_def same_books_def)

lemma counter_step_add: "counter_step w (add_openTxs s n w)"
  by (simp add: counter_step_def same_books_def add_openTxs_def)

lemma counter_step_unscoped: "counter_step w (reportUnscopedTx d w)"
  by (simp add: counter_step_same same_books_def)

lemma counter_step_open: "counter_step w (snd (openTx d c se w))"
  by (simp add: openTx_def Let_def counter_step_add counter_step_unscoped split: option.split)

lemma counter_step_close: "counter_step w (snd (closeTx se w))"
  by (simp add: closeTx_def Let_def counter_step_add counter_step_same split: option.split)

lemma counter_step_scope:
  assumes "counter_step w w'" "sc_openTxs (w_scopes w' s) = open_in sp' s" "scope_match sp s (w_scopes w s)"
    "sp' = sp\<lparr>sp_tx := tx\<rparr>"
  shows "scope_match sp' s (w_scopes w' s)"
proof -
  have eq: "(w_scopes w' s)\<lparr>sc_openTxs := 0\<rparr> = (w_scopes w s)\<lparr>sc_openTxs := 0\<rparr>"
    using assms(1) by (simp add: counter_step_def)
  from arg_cong[OF eq, of sc_name] arg_cong[OF eq, of sc_finished] arg_cong[OF eq, of sc_calls] arg_cong[OF eq, of sc_marks]
  have "sc_name (w_scopes w' s) = sc_name (w_scopes w s)" "sc_finished (w_scopes w' s) = sc_finished (w_scopes w s)"
    "sc_calls (w_scopes w' s) = sc_calls (w_scopes w s)" "sc_marks (w_scopes w' s) = sc_marks (w_scopes w s)"
    by simp_all
  with assms(2-4) show ?thesis
    by (simp add: scope_match_def calls_of_def noted_decl_def declared_of_def reason_of_def calls_ok_def own_keys_def
        times_seen_def declared_def)
qed

lemma matches_tx:
  assumes m: "matches d al heard sp (ss, w)" and i: "i < length ss" and se: "session_valid se"
    and step: "counter_step w w'" and told: "heard (w_rs w') (sp_signals sp @ xs)"
    and count: "\<And>s. opens w' s = opens w s - of_bool (session_holds (ss ! i) = Some s) + of_bool (session_holds se = Some s)"
    and known: "\<And>s. session_holds se = Some s \<Longrightarrow> s < length (sp_names sp)"
  shows "matches d al heard (signalled xs (sp\<lparr>sp_tx := (sp_tx sp)[i := tx_state se]\<rparr>)) (ss[i := se], w')"
proof -
  let ?sp = "sp\<lparr>sp_tx := (sp_tx sp)[i := tx_state se]\<rparr>"
  have tx: "map tx_state ss = sp_tx sp" using m by (simp add: matches_def)
  then have len: "i < length (sp_tx sp)" using i by (auto simp flip: tx)
  have opn: "open_in ?sp s = open_in sp s - of_bool (session_holds (ss ! i) = Some s) + of_bool (session_holds se = Some s)" for s
    using len by (simp add: open_in_count tx_count_update matches_tx_at[OF m i] session_holds_state)
  have "sc_openTxs (w_scopes w' s) = open_in ?sp s" if "s < length (sp_names sp)" for s
    using count[of s] matches_opens(1)[OF m that] by (simp add: opens_def opn)
  then have "scopes_match ?sp w'"
    using m step counter_step_scope[OF step, of _ ?sp sp] by (simp add: matches_def scopes_match_def)
      (simp add: counter_step_def same_books_def)
  moreover have "spec_ok ?sp"
    using m known set_update_subset_insert[of "sp_tx sp" i "tx_state se"]
    by (auto simp: matches_def spec_ok_def session_holds_state)
  moreover have "regions_match ?sp w' \<and> lists_match d al w'"
    using m step by (simp add: matches_def regions_match_def lists_match_def counter_step_def same_books_def)
  moreover have "list_all session_valid (ss[i := se])"
    using m se set_update_subset_insert[of ss i se] by (auto simp: matches_def list_all_iff)
  ultimately have "matches d al (\<lambda>st xs. True) ?sp (ss[i := se], w')" by (simp add: matches_def map_update tx)
  from matches_told[OF this same_books_refl] told show ?thesis by (simp add: matches_def)
qed

context listening
begin

lemma hears_as: "heard st xs \<Longrightarrow> signal_of r = x \<Longrightarrow> heard (deliver_all reps r st) (xs @ [x])"
  using hears by auto

lemma hears_report:
  "heard (w_rs w) xs \<Longrightarrow> d_reporters d = reps \<Longrightarrow> signal_of r = x \<Longrightarrow> heard (w_rs (emit_report d r w)) (xs @ [x])"
  by (simp add: emit_report_def hears_as)

lemma hears_now: "heard (w_rs w) xs \<Longrightarrow> heard (w_rs (snd (now w))) xs"
  by (simp add: now_def time_now_def reads)

lemma hears_stale:
  "heard (w_rs w) xs \<Longrightarrow> d_reporters d = reps \<Longrightarrow> heard (w_rs (reportStaleAllow d sa w)) (xs @ [StaleSig sa])"
  by (simp add: reportStaleAllow_def hears_report)

lemma hears_stales:
  "heard (w_rs w) xs \<Longrightarrow> d_reporters d = reps \<Longrightarrow> heard (w_rs (reportStaleAllows d sas w)) (xs @ map StaleSig sas)"
  unfolding reportStaleAllows_def
proof (induction sas arbitrary: w xs)
  case (Cons sa sas)
  from Cons.IH[OF hears_stale[OF Cons.prems] Cons.prems(2)] show ?case by simp
qed simp

lemma hears_unscoped:
  assumes "heard (w_rs w) xs" "d_reporters d = reps"
  shows "heard (w_rs (reportUnscopedTx d w)) (xs @ (if d_reportUnscoped d then [UnscopedTxSig] else []))"
proof -
  have "heard (w_rs (snd (now (snd (capture d w))))) xs" using assms by (intro hears_now) simp
  with assms show ?thesis
    by (auto simp: reportUnscopedTx_def case_prod_unfold intro!: hears_report)
qed

lemma hears_open:
  assumes "heard (w_rs w) xs" "d_reporters d = reps"
  shows "heard (w_rs (snd (openTx d c se w))) (xs @ unscoped_signals d c)"
  using hears_unscoped[OF assms] assms
  by (auto simp: openTx_def Let_def unscoped_signals_def add_openTxs_def split: option.split)

lemma hears_close: "heard (w_rs w) xs \<Longrightarrow> heard (w_rs (snd (closeTx se w))) xs"
  by (simp add: closeTx_def Let_def add_openTxs_def split: option.split)

end

text \<open>The detector's answer to a sight.\<close>

fun decide_sight :: "detector \<Rightarrow> sight \<Rightarrow> world \<Rightarrow> world" where
  "decide_sight d (InTx s mark oper opn cfg) w = decideAndReport d s mark oper opn cfg w"
| "decide_sight d (Idle s oper reason) w = reportStaleAllow d (stale_now (sc_name (w_scopes w s)) oper reason) w"

fun sight_known :: "spec \<Rightarrow> sight \<Rightarrow> bool" where
  "sight_known sp (InTx s mark oper opn cfg) = (s < length (sp_names sp) \<and> (\<forall>m. mark = Some m \<longrightarrow> m < length (sp_regions sp)))"
| "sight_known sp (Idle s oper reason) = (s < length (sp_names sp))"

context listening
begin

lemma hears_decide:
  assumes m: "matches d al heard sp (ss, w)" and s: "s < length (sp_names sp)"
    and mark: "\<forall>m. mark = Some m \<longrightarrow> m < length (sp_regions sp)" and d: "d_reporters d = reps"
  shows "heard (w_rs (decideAndReport d s mark oper opn cfg w)) (sp_signals (witness al (InTx s mark oper opn cfg) sp))"
proof -
  have told: "heard (w_rs w) (sp_signals sp)" and r: "regions_match sp w" and l: "lists_match d al w"
    using m by (simp_all add: matches_def)
  have k: "calls_of (w_scopes w s) (key_for (sp_names sp ! s) oper) = times_seen sp s oper"
    using m s by (simp add: matches_def scopes_match_def scope_match_def)
  have list: "list_covers d w n x j = resolves al n x j" "list_counts d w n x = fst (listed al n x)" for n x j
    using l by (simp_all add: lists_match_def list_covers_now Let_def)
  note region = region_match_covers[OF r mark]
  have counts: "declined_counts d w mark n x cfg = fst (option_declares cfg) @ region_counts sp mark @ fst (listed al n x)" for n x
    by (simp add: declined_counts_def region list option_declares_def)
  show ?thesis
    using told
    by (auto simp: decide_rs d matches_opens[OF m s] k region list counts witness.simps(1) Let_def
        intro!: hears_as reads)
qed

lemma matches_witness:
  assumes "matches d al heard sp (ss, w)" "sight_known sp x" "d_reporters d = reps"
  shows "matches d al heard (witness al x sp) (ss, decide_sight d x w)"
proof (cases x)
  case (InTx s mark oper opn cfg)
  with assms hears_decide[OF assms(1) _ _ assms(3), of s mark oper opn cfg] show ?thesis
    by (simp add: matches_def scopes_match_witness regions_match_witness lists_match_witness spec_ok_witness)
next
  case (Idle s oper reason)
  then have name: "sc_name (w_scopes w s) = sp_names sp ! s" using assms(1,2) matches_opens(2) by simp
  have "heard (w_rs w) (sp_signals sp)" using assms(1) by (simp add: matches_def)
  from hears_stale[OF this assms(3)] Idle name assms(1) show ?thesis
    by (auto intro!: matches_told simp: same_books_def)
qed

lemma matches_witnesses:
  assumes "matches d al heard sp (ss, w)" "list_all (sight_known sp) xs" "d_reporters d = reps"
  shows "matches d al heard (foldl (\<lambda>sp x. witness al x sp) sp xs) (ss, foldl (\<lambda>w x. decide_sight d x w) w xs)"
  using assms(1,2)
proof (induction xs arbitrary: sp w)
  case (Cons x xs)
  have "matches d al heard (witness al x sp) (ss, decide_sight d x w)"
    using Cons.prems by (intro matches_witness assms(3)) simp_all
  moreover have "sight_known (witness al x sp) = sight_known sp"
    by (rule ext, rename_tac y, case_tac y) simp_all
  then have "list_all (sight_known (witness al x sp)) xs" using Cons.prems(2) by simp
  ultimately show ?case using Cons.IH by simp
qed simp

end

text \<open>The sights of a context, and the calls that answer them.\<close>

lemma in_scope_None: "scopeFrom c = None \<Longrightarrow> in_scope c f = []"
  by (auto simp: in_scope_def scopeFrom_fst split: prod.split)

lemma scope_cases:
  obtains "scopeFrom c = None" "fst (scopeAndMarkFrom c) = None"
  | s mark where "scopeFrom c = Some s" "scopeAndMarkFrom c = (Some s, mark)"
  by (cases "scopeAndMarkFrom c"; cases "fst (scopeAndMarkFrom c)") (simp_all add: scopeFrom_fst)

lemma idle_regions:
  "concat (map (idle_region sp s mark) ops) =
     (case mark of None \<Rightarrow> [] | Some m \<Rightarrow> map (\<lambda>oper. Idle s oper (rg_reason (sp_regions sp ! m))) ops)"
  by (cases mark; induction ops) (simp_all add: idle_region_def)

lemma known_mark:
  "ctx_known sp c \<Longrightarrow> scopeAndMarkFrom c = (Some s, mark) \<Longrightarrow> \<forall>m. mark = Some m \<longrightarrow> m < length (sp_regions sp)"
  by (auto simp: ctx_known_def split: option.splits)

context listening
begin

lemma matches_effect:
  assumes m: "matches d al heard sp (ss, w)" and c: "ctx_known sp c" and d: "d_reporters d = reps"
  shows "matches d al heard (spec_step d al sp (Effect c oper opts)) (ss, Check d c oper opts w)"
proof (cases rule: scope_cases[of c])
  case 1
  have told: "heard (w_rs w) (sp_signals sp)" using m by (simp add: matches_def)
  have "heard (w_rs (Check d c oper opts w))
      (sp_signals sp @ (if d_reportUnscopedCheck d then [UnscopedCheckSig oper] else []))"
  proof (cases "d_reportUnscopedCheck d")
    case True
    have "heard (w_rs (snd (now (snd (capture d w))))) (sp_signals sp)" using told by (intro hears_now) simp
    with d True 1(2) show ?thesis
      by (auto simp: Check_def check_def case_prod_unfold intro!: hears_report)
  qed (use told 1(2) in \<open>simp add: Check_def check_def case_prod_unfold\<close>)
  moreover have "same_books w (Check d c oper opts w)"
    using 1(2) by (simp add: Check_def check_def case_prod_unfold same_books_def)
  ultimately show ?thesis
    using matches_told[OF m] 1(1) by (simp add: spec_step_def in_scope_None)
next
  case (2 s mark)
  let ?cfg = "appliedCheckConfig opts"
  have s: "s < length (sp_names sp)" by (rule known_scope[OF c 2(1)])
  note known = known_mark[OF c 2(2)]
  let ?sights = "sights d (Effect c oper opts) sp"
  have "list_all (sight_known sp) ?sights"
    using s known by (simp add: 2 in_scope_def Let_def idle_region_def split: option.split)
  moreover have "foldl (\<lambda>w x. decide_sight d x w) w ?sights = Check d c oper opts w"
  proof (cases "0 < open_in sp s")
    case True
    then show ?thesis using Check_open[OF 2(2), of w d oper opts] matches_opens[OF m s] by (simp add: 2 in_scope_def Let_def)
  next
    case False
    have cfg: "(if opts \<noteq> [] then ?cfg else zero_config) = ?cfg" by (simp add: appliedCheckConfig_def)
    from False known matches_opens[OF m s] matches_reason[OF m] cfg show ?thesis
      by (auto simp: 2 in_scope_def Let_def idle_region_def Check_def check_def split: option.split)
  qed
  ultimately show ?thesis
    using matches_witnesses[OF m _ d, of ?sights] 2(1) by (simp add: spec_step_def)
qed

lemma matches_ops:
  assumes m: "matches d al heard sp (ss, w)" and c: "ctx_known sp c" and d: "d_reporters d = reps"
  shows "matches d al heard
    (foldl (\<lambda>sp x. witness al x sp) sp (in_scope c (\<lambda>s mark. matched_sights sp s mark ops)))
    (ss, reportStatementOps d c ops w)"
proof (cases rule: scope_cases[of c])
  case 1
  with m show ?thesis by (simp add: in_scope_None reportStatementOps_def case_prod_unfold)
next
  case (2 s mark)
  have s: "s < length (sp_names sp)" by (rule known_scope[OF c 2(1)])
  note known = known_mark[OF c 2(2)]
  let ?sights = "matched_sights sp s mark ops"
  have "list_all (sight_known sp) ?sights"
    using s known by (auto simp: matched_sights_def idle_region_def list_all_iff split: option.splits)
  moreover have "foldl (\<lambda>w x. decide_sight d x w) w ?sights = reportStatementOps d c ops w"
  proof (cases "0 < open_in sp s")
    case True
    then show ?thesis using matches_opens[OF m s]
      by (simp add: 2 matched_sights_def reportStatementOps_def Let_def foldl_map)
  next
    case False
    have "foldl (\<lambda>w x. decide_sight d x w) w (concat (map (\<lambda>oper. [Idle s oper reason]) ops))
        = foldl (\<lambda>w' oper. reportStaleAllow d (stale_now (sc_name (w_scopes w s)) oper reason) w') w ops" for reason
      by (induction ops arbitrary: w) (simp_all add: stale_now_def)
    then show ?thesis using False known matches_opens[OF m s] matches_reason[OF m]
      by (cases mark) (auto simp: 2 matched_sights_def reportStatementOps_def Let_def idle_regions)
  qed
  ultimately show ?thesis
    using matches_witnesses[OF m _ d, of ?sights] by (simp add: 2 in_scope_def)
qed

lemma matches_cross:
  assumes m: "matches d al heard sp (ss, w)" and i: "i < length ss" and c: "ctx_known sp c" and d: "d_reporters d = reps"
  shows "matches d al heard
    (foldl (\<lambda>sp x. witness al x sp) sp (in_scope c (write_sights sp i (db_op q))))
    (ss, reportIfCrossConn d c q (ss ! i) w)"
proof (cases rule: scope_cases[of c])
  case 1
  with m show ?thesis by (simp add: in_scope_None reportIfCrossConn_def case_prod_unfold)
next
  case (2 s mark)
  have s: "s < length (sp_names sp)" by (rule known_scope[OF c 2(1)])
  note known = known_mark[OF c 2(2)]
  let ?sights = "write_sights sp i (db_op q) s mark"
  have elsewhere: "sc_openTxs (w_scopes w s) - (if se_inTx (ss ! i) \<and> se_txScope (ss ! i) = Some s then 1 else 0)
      = open_elsewhere sp i s"
    using matches_opens(1)[OF m s] matches_tx_at[OF m i]
    by (auto simp: open_elsewhere_def session_valid_def tx_holds_def tx_state_def)
  have cross: "reportIfCrossConn d c q (ss ! i) w =
      (if open_elsewhere sp i s \<le> 0 then
         (case mark of None \<Rightarrow> w | Some m \<Rightarrow>
            if sc_openTxs (w_scopes w s) = 0
            then reportStaleAllow d (stale_now (sc_name (w_scopes w s)) (db_op q) (am_reason (w_marks w m))) w
            else w)
       else decideAndReport d s mark (db_op q) (open_elsewhere sp i s) zero_config w)"
    by (simp only: reportIfCrossConn_def 2(2) Let_def elsewhere prod.case option.case)
  have "list_all (sight_known sp) ?sights"
    using s known by (auto simp: write_sights_def idle_region_def list_all_iff split: option.splits)
  moreover have "foldl (\<lambda>w x. decide_sight d x w) w ?sights = reportIfCrossConn d c q (ss ! i) w"
    using known matches_opens[OF m s] matches_reason[OF m]
    by (cases mark) (auto simp: cross write_sights_def idle_region_def)
  ultimately show ?thesis
    using matches_witnesses[OF m _ d, of ?sights] by (simp add: 2 in_scope_def)
qed

end

text \<open>What a finishing scope owes, in the machine's terms.\<close>

lemma key_for_ops: "key_for name (Op (vk_kind key) (vk_name key)) = key \<longleftrightarrow> vk_scope key = name"
  by (cases key) (auto simp: key_for_def)

lemma owed_regions:
  assumes "regions_match sp w"
  shows "concat (map (\<lambda>m. mark_shortfall sc (w_marks w m))
      (filter (\<lambda>m. rg_scope (sp_regions sp ! m) = s \<and> rg_counts (sp_regions sp ! m) \<noteq> []) [0..<length (sp_regions sp)]))
    = concat (map (\<lambda>r. if rg_scope r = s then shortfall (sc_name sc) zero_op (rg_counts r, rg_reason r) (rg_used r) else [])
        (sp_regions sp))"
proof -
  let ?f = "\<lambda>r. if rg_scope r = s then shortfall (sc_name sc) zero_op (rg_counts r, rg_reason r) (rg_used r) else []"
  let ?P = "\<lambda>m. rg_scope (sp_regions sp ! m) = s \<and> rg_counts (sp_regions sp ! m) \<noteq> []"
  have cf: "concat (map g (filter P xs)) = concat (map (\<lambda>x. if P x then g x else []) xs)"
    for g :: "nat \<Rightarrow> stale_allow list" and P xs by (induction xs) auto
  have "(if ?P m then mark_shortfall sc (w_marks w m) else []) = ?f (sp_regions sp ! m)" if "m < length (sp_regions sp)" for m
    using assms that
    by (auto simp: regions_match_def region_match_def mark_shortfall_def shortfall_def misses_counts_def)
  then have "map (\<lambda>m. if ?P m then mark_shortfall sc (w_marks w m) else []) [0..<length (sp_regions sp)]
      = map (\<lambda>m. ?f (sp_regions sp ! m)) [0..<length (sp_regions sp)]"
    by (intro map_cong refl) simp
  also have "\<dots> = map ?f (map ((!) (sp_regions sp)) [0..<length (sp_regions sp)])" by simp
  also have "\<dots> = map ?f (sp_regions sp)" by (simp only: map_nth)
  finally show ?thesis by (simp only: cf)
qed

lemma declared_some:
  "fst (declared sp s oper) \<noteq> [] \<Longrightarrow> key_for (sp_names sp ! s) oper \<in> set (declared_keys_in sp s)"
  by (force simp: declared_def declared_keys_in_def split: option.splits dest: map_of_SomeD)

lemma owed_keys:
  assumes "scope_match sp s sc"
  shows "map (stale_key sc) (sorted_list_of_set (missed_keys sc))
    = concat (map (\<lambda>key. let oper = Op (vk_kind key) (vk_name key) in
        shortfall (sp_names sp ! s) oper (declared sp s oper) (times_seen sp s oper)) (declared_keys_in sp s))"
proof -
  let ?oper = "\<lambda>key. Op (vk_kind key) (vk_name key)"
  have own: "key_for (sp_names sp ! s) (?oper key) = key" if "key \<in> set (declared_keys_in sp s)" for key
    using that by (auto simp: declared_keys_in_def key_for_def)
  have at_key: "declared_of sc key = fst (declared sp s (?oper key))" "reason_of sc key = snd (declared sp s (?oper key))"
    "calls_of sc key = times_seen sp s (?oper key)" if "vk_scope key = sp_names sp ! s" for key
  proof -
    have "key = key_for (sp_names sp ! s) (?oper key)" using that by (cases key) (simp add: key_for_def)
    moreover have "noted_decl sc (key_for (sp_names sp ! s) (?oper key)) = declared sp s (?oper key)"
      "calls_of sc (key_for (sp_names sp ! s) (?oper key)) = times_seen sp s (?oper key)"
      using assms by (simp_all add: scope_match_def)
    ultimately show "declared_of sc key = fst (declared sp s (?oper key))" "reason_of sc key = snd (declared sp s (?oper key))"
      "calls_of sc key = times_seen sp s (?oper key)" by (metis fst_conv snd_conv noted_decl_def)+
  qed
  have scope_key: "vk_scope key = sp_names sp ! s" if "key \<in> missed_keys sc" for key
  proof -
    have "key \<in> fst ` set (sc_calls sc)"
      using that by (force simp: missed_keys_def misses_counts_def declared_of_def split: option.splits dest: map_of_SomeD)
    with assms show ?thesis by (auto simp: scope_match_def own_keys_def)
  qed
  have "missed_keys sc = {key \<in> set (declared_keys_in sp s). key \<in> missed_keys sc}"
  proof -
    have "key \<in> set (declared_keys_in sp s)" if "key \<in> missed_keys sc" for key
    proof -
      have "fst (declared sp s (?oper key)) \<noteq> []"
        using that at_key[OF scope_key[OF that]] by (auto simp: missed_keys_def misses_counts_def)
      from declared_some[OF this] show ?thesis using scope_key[OF that] by (simp add: key_for_ops[THEN iffD2])
    qed
    then show ?thesis by blast
  qed
  moreover have "sorted (declared_keys_in sp s)" "distinct (declared_keys_in sp s)"
    by (simp_all add: declared_keys_in_def)
  ultimately have "sorted_list_of_set (missed_keys sc) = filter (\<lambda>key. key \<in> missed_keys sc) (declared_keys_in sp s)"
    using sorted_filter_set[of "declared_keys_in sp s" "\<lambda>key. key \<in> missed_keys sc"] by simp
  then have "map (stale_key sc) (sorted_list_of_set (missed_keys sc))
      = concat (map (\<lambda>key. if key \<in> missed_keys sc then [stale_key sc key] else []) (declared_keys_in sp s))"
    by (simp add: concat_singletons)
  also have "\<dots> = concat (map (\<lambda>key. let oper = ?oper key in
        shortfall (sp_names sp ! s) oper (declared sp s oper) (times_seen sp s oper)) (declared_keys_in sp s))"
  proof (rule arg_cong[where f = concat], rule map_cong[OF refl])
    fix key
    assume "key \<in> set (declared_keys_in sp s)"
    from own[OF this] have "vk_scope key = sp_names sp ! s" by (metis key_for_ops)
    from at_key[OF this] assms show "(if key \<in> missed_keys sc then [stale_key sc key] else []) =
      (let oper = ?oper key in shortfall (sp_names sp ! s) oper (declared sp s oper) (times_seen sp s oper))"
      by (simp add: missed_keys_def stale_key_def shortfall_def Let_def scope_match_def)
  qed
  finally show ?thesis .
qed

lemma owed_shortfalls:
  assumes "scope_match sp s sc" "regions_match sp w"
  shows "call_shortfalls (w_marks w) sc = owed sp s"
proof -
  have "calls_ok sc" "sc_name sc = sp_names sp ! s"
    "sc_marks sc = filter (\<lambda>m. rg_scope (sp_regions sp ! m) = s \<and> rg_counts (sp_regions sp ! m) \<noteq> []) [0..<length (sp_regions sp)]"
    using assms(1) by (simp_all add: scope_match_def)
  then show ?thesis
    by (simp only: call_shortfalls_eq owed_def owed_keys[OF assms(1)] owed_regions[OF assms(2), of sc s])
qed

lemma fresh_unused:
  assumes "spec_ok sp"
  shows "open_in sp (length (sp_names sp)) = 0" "times_seen sp (length (sp_names sp)) oper = 0"
    "declared sp (length (sp_names sp)) oper = ([], [])"
    "length (sp_names sp) \<notin> set (sp_ended sp)" "m < length (sp_regions sp) \<Longrightarrow> rg_scope (sp_regions sp ! m) \<noteq> length (sp_names sp)"
proof -
  let ?n = "length (sp_names sp)"
  show "open_in sp ?n = 0"
    using assms by (fastforce simp: spec_ok_def open_in_def filter_empty_conv)
  show "times_seen sp ?n oper = 0"
    using assms by (force simp: spec_ok_def times_seen_def count_list_0_iff)
  have "map_of (sp_declared sp) (?n, oper) = None"
    using assms by (force simp: spec_ok_def map_of_eq_None_iff)
  then show "declared sp ?n oper = ([], [])" by (simp add: declared_def)
  show "?n \<notin> set (sp_ended sp)" using assms by (auto simp: spec_ok_def)
  show "rg_scope (sp_regions sp ! m) \<noteq> ?n" if "m < length (sp_regions sp)"
    using assms nth_mem[OF that] by (auto simp: spec_ok_def)
qed

lemma scope_match_new:
  assumes "spec_ok sp" "sp' = sp\<lparr>sp_names := sp_names sp @ [name]\<rparr>" "sc = (new_scope name)\<lparr>sc_attrs := attrs\<rparr>"
  shows "scope_match sp' (length (sp_names sp)) sc"
proof -
  have "open_in sp' s = open_in sp s" "times_seen sp' s oper = times_seen sp s oper" "declared sp' s oper = declared sp s oper" for s oper
    by (simp_all add: assms(2) open_in_def times_seen_def declared_def)
  then show ?thesis
    using fresh_unused[OF assms(1)]
    by (auto simp: scope_match_def assms(2,3) new_scope_def calls_of_def noted_decl_def declared_of_def reason_of_def
        calls_ok_def own_keys_def filter_empty_conv)
qed

lemma scope_match_region:
  assumes "scope_match sp s sc" "sp' = sp\<lparr>sp_regions := sp_regions sp @ [r]\<rparr>"
  shows "rg_scope r \<noteq> s \<or> rg_counts r = [] \<Longrightarrow> scope_match sp' s sc"
    "rg_scope r = s \<Longrightarrow> rg_counts r \<noteq> [] \<Longrightarrow> scope_match sp' s (registerMark (length (sp_regions sp)) sc)"
proof -
  have same: "open_in sp' t = open_in sp t" "times_seen sp' t oper = times_seen sp t oper" "declared sp' t oper = declared sp t oper" for t oper
    by (simp_all add: assms(2) open_in_def times_seen_def declared_def)
  have marks: "filter (\<lambda>m. rg_scope (sp_regions sp' ! m) = s \<and> rg_counts (sp_regions sp' ! m) \<noteq> []) [0..<length (sp_regions sp')]
    = filter (\<lambda>m. rg_scope (sp_regions sp ! m) = s \<and> rg_counts (sp_regions sp ! m) \<noteq> []) [0..<length (sp_regions sp)]
      @ (if rg_scope r = s \<and> rg_counts r \<noteq> [] then [length (sp_regions sp)] else [])"
    (is "?new = filter ?P ?is @ _")
  proof -
    have "filter (\<lambda>m. rg_scope ((sp_regions sp @ [r]) ! m) = s \<and> rg_counts ((sp_regions sp @ [r]) ! m) \<noteq> []) ?is = filter ?P ?is"
      by (rule filter_cong) (simp_all add: nth_append)
    then show ?thesis by (simp add: assms(2))
  qed
  have fields: "sp_names sp' = sp_names sp" "sp_ended sp' = sp_ended sp" by (simp_all add: assms(2))
  show "rg_scope r \<noteq> s \<or> rg_counts r = [] \<Longrightarrow> scope_match sp' s sc"
    using assms(1) unfolding scope_match_def same marks fields by simp
  show "rg_scope r = s \<Longrightarrow> rg_counts r \<noteq> [] \<Longrightarrow> scope_match sp' s (registerMark (length (sp_regions sp)) sc)"
    using assms(1) unfolding scope_match_def same marks fields
    by (simp add: registerMark_def calls_of_def noted_decl_def declared_of_def reason_of_def calls_ok_def own_keys_def)
qed

context listening
begin

lemma matches_connect:
  assumes "matches d al heard sp (ss, w)"
  shows "matches d al heard (spec_step d al sp Connect) (exec_action d Connect (ss, w))"
proof -
  have "scope_match (sp\<lparr>sp_tx := sp_tx sp @ [None]\<rparr>) s sc = scope_match sp s sc" for s sc
    by (rule scope_match_cong) (simp_all add: open_in_def tx_holds_def)
  with assms show ?thesis
    by (auto simp: matches_def spec_step_def spec_ok_def scopes_match_def regions_match_def tx_holds_def)
      (simp add: tx_state_def NewSession_def)
qed

lemma matches_kind:
  assumes m: "matches d al heard sp (ss, w)" and i: "i < length ss" and c: "ctx_known sp c"
    and d: "d_reporters d = reps" and kind: "kind \<noteq> KindWrite"
  shows "matches d al heard
    (signalled (if kind = KindBegin \<and> sp_tx sp ! i = None then unscoped_signals d c else [])
       (sp\<lparr>sp_tx := (sp_tx sp)[i := tx_spec kind c (sp_tx sp ! i)]\<rparr>))
    (ss[i := fst (observeKind d c q kind (ss ! i) w)], snd (observeKind d c q kind (ss ! i) w))"
proof -
  let ?o = "observeKind d c q kind (ss ! i) w"
  note at_i = matches_tx_at[OF m i]
  note os = observeKind_spec[OF at_i(2), of d c q kind w]
  have told: "heard (w_rs w) (sp_signals sp)" using m by (simp add: matches_def)
  have in_tx: "se_inTx (ss ! i) \<longleftrightarrow> sp_tx sp ! i \<noteq> None" by (simp add: at_i(1) tx_state_def)
  have "counter_step w (snd ?o)"
    using kind by (cases kind) (simp_all add: counter_step_open counter_step_close counter_step_same)
  moreover have "heard (w_rs (snd ?o)) (sp_signals sp @ (if kind = KindBegin \<and> sp_tx sp ! i = None then unscoped_signals d c else []))"
    using told kind hears_open[OF told d, of c "ss ! i"] hears_close[OF told, of "ss ! i"] in_tx by (cases kind) simp_all
  moreover have "s < length (sp_names sp)" if "session_holds (fst ?o) = Some s" for s
  proof -
    have "tx_holds (tx_spec kind c (tx_state (ss ! i))) = Some s"
      using that by (simp add: session_holds_state os)
    then consider "tx_holds (tx_state (ss ! i)) = Some s" | "scopeFrom c = Some s"
      by (cases kind; cases "tx_state (ss ! i)") (auto simp: tx_holds_def)
    then show ?thesis
    proof cases
      case 1
      have "tx_state (ss ! i) \<in> set (sp_tx sp)" using i at_i(1,3) by (metis nth_mem)
      with 1 m show ?thesis by (auto simp: matches_def spec_ok_def)
    qed (rule known_scope[OF c])
  qed
  ultimately show ?thesis
    using matches_tx[OF m i os(1) _ _ os(3)] by (simp add: os(2) at_i(1))
qed

lemma matches_statement:
  assumes m: "matches d al heard sp (ss, w)" and i: "i < length ss" and c: "ctx_known sp c" and d: "d_reporters d = reps"
  shows "matches d al heard (spec_step d al sp (Statement i c q)) (exec_action d (Statement i c q) (ss, w))"
proof -
  let ?kind = "d_classify d q" and ?o = "observeKind d c q (d_classify d q) (ss ! i) w"
  let ?moved = "move d (Statement i c q) sp"
  let ?cross = "in_scope c (\<lambda>s mark. if ?kind = KindWrite then write_sights ?moved i (db_op q) s mark else [])"
  let ?sp = "foldl (\<lambda>sp x. witness al x sp) ?moved ?cross"
  have kind: "matches d al heard ?sp (ss[i := fst ?o], snd ?o)"
  proof (cases "?kind = KindWrite")
    case True
    then have "?moved = sp" using matches_tx_at(5)[OF m i] by simp
    with True matches_cross[OF m i c d, of q] matches_tx_at(4)[OF m i] show ?thesis by (simp del: move.simps)
  next
    case False
    with matches_kind[OF m i c d False, of q] show ?thesis by simp
  qed
  have "ctx_known ?sp c" using c by (subst ctx_known_cong[of _ sp]) simp_all
  note ops = matches_ops[OF kind this d, of "checker_matches d q"]
  have "matched_sights ?sp s mark xs = matched_sights ?moved s mark xs" for s mark xs
    unfolding matched_sights_def idle_regions witnesses_fields ..
  with ops have "matches d al heard (spec_step d al sp (Statement i c q))
    (ss[i := fst ?o], reportStatementOps d c (checker_matches d q) (snd ?o))"
    by (simp only: spec_step_def in_scope_append Let_def sights.simps foldl_append)
  moreover have "exec_action d (Statement i c q) (ss, w)
      = (ss[i := fst ?o], reportStatementOps d c (checker_matches d q) (snd ?o))"
  proof (cases "d_stmtCheckers d = []")
    case True
    then have "reportStatementOps d c (checker_matches d q) w = w" for w
      by (simp add: checker_matches_def reportStatementOps_def Let_def split: prod.split option.split)
    with True show ?thesis by (simp add: Observe_def case_prod_unfold)
  qed (simp add: Observe_def case_prod_unfold checkers_as_ops checker_matches_def)
  ultimately show ?thesis by simp
qed

lemma matches_begin:
  assumes m: "matches d al heard sp (ss, w)" and i: "i < length ss" and c: "ctx_known sp c" and d: "d_reporters d = reps"
  shows "matches d al heard (spec_step d al sp (BeginOn i c)) (exec_action d (BeginOn i c) (ss, w))"
proof -
  let ?b = "BeginTx d c (ss ! i) w"
  note v = matches_tx_at(2)[OF m i]
  have told: "heard (w_rs w) (sp_signals sp)" using m by (simp add: matches_def)
  have step: "counter_step w (snd ?b)"
    unfolding BeginTx_def case_prod_unfold by (rule counter_step_trans[OF counter_step_close counter_step_open])
  have heard: "heard (w_rs (snd ?b)) (sp_signals sp @ unscoped_signals d c)"
    unfolding BeginTx_def case_prod_unfold by (rule hears_open[OF hears_close[OF told] d])
  have b: "fst ?b = \<lparr>se_inTx = True, se_txScope = scopeFrom c\<rparr>"
    "opens (snd ?b) s = opens w s - of_bool (session_holds (ss ! i) = Some s) + of_bool (session_holds (fst ?b) = Some s)" for s
    by (simp_all add: BeginTx_def case_prod_unfold openTx_effect closeTx_effect[OF v], simp add: session_holds_def)
  moreover have "session_valid (fst ?b)" "tx_state (fst ?b) = Some (scopeFrom c)"
    "session_holds (fst ?b) = Some s \<Longrightarrow> s < length (sp_names sp)" for s
    using known_scope[OF c] by (simp_all add: b(1) session_valid_def tx_state_def session_holds_def)
  ultimately show ?thesis
    using matches_tx[OF m i _ step heard b(2)] by (simp add: spec_step_def case_prod_unfold)
qed

lemma matches_end:
  assumes m: "matches d al heard sp (ss, w)" and i: "i < length ss"
  shows "matches d al heard (spec_step d al sp (EndOn i)) (exec_action d (EndOn i) (ss, w))"
proof -
  let ?e = "EndTx (ss ! i) w"
  note close = closeTx_effect[OF matches_tx_at(2)[OF m i]]
  have told: "heard (w_rs (snd ?e)) (sp_signals sp @ [])" using m by (simp add: matches_def EndTx_def hears_close)
  have "fst ?e = NewSession" "tx_state NewSession = None"
    by (simp_all add: EndTx_def close tx_state_def NewSession_def)
  moreover have "counter_step w (snd ?e)" by (simp add: EndTx_def counter_step_close)
  moreover have "opens (snd ?e) s = opens w s - of_bool (session_holds (ss ! i) = Some s) + of_bool (session_holds (fst ?e) = Some s)" for s
    by (simp add: EndTx_def close)
  ultimately show ?thesis
    using matches_tx[OF m i _ _ told, of NewSession] by (simp add: spec_step_def case_prod_unfold)
qed

lemma matches_new_scope:
  assumes m: "matches d al heard sp (ss, w)" and c: "ctx_known sp c" and d: "d_reporters d = reps"
  shows "matches d al heard (spec_step d al sp (NewScope c name ass)) (exec_action d (NewScope c name ass) (ss, w))"
proof -
  let ?w = "report_nested d c name w"
  let ?xs = "case scopeFrom c of None \<Rightarrow> [] | Some outer \<Rightarrow> if d_reportNested d then [NestedSig (sp_names sp ! outer) name] else []"
  let ?sp = "sp\<lparr>sp_names := sp_names sp @ [name]\<rparr>"
  let ?sc = "(new_scope name)\<lparr>sc_attrs := (case d_attrsFunc d of None \<Rightarrow> [] | Some f \<Rightarrow> f c) @ concat ass\<rparr>"
  let ?w' = "?w\<lparr>w_scopes := (w_scopes ?w)(w_next_scope ?w := ?sc), w_next_scope := Suc (w_next_scope ?w)\<rparr>"
  have start: "snd (StartScope d c name (map WithScopeAttrs ass) w) = ?w'"
    by (simp add: StartScope_def Let_def foldl_WithScopeAttrs new_scope_def split: option.split)
  have told: "heard (w_rs w) (sp_signals sp)" and ok: "spec_ok sp" and nxt: "w_next_scope w = length (sp_names sp)"
    using m by (simp_all add: matches_def scopes_match_def)
  have heard: "heard (w_rs ?w') (sp_signals sp @ ?xs)"
    using told d matches_opens(2)[OF m known_scope[OF c]]
    by (auto simp: report_nested_def case_prod_unfold split: option.split intro!: hears_report hears_now)
  have old: "scope_match ?sp s sc = scope_match sp s sc" if "s < length (sp_names sp)" for s sc
    by (rule scope_match_cong) (simp_all add: that nth_append open_in_def)
  have "scopes_match ?sp ?w'"
    using m scope_match_new[OF ok refl refl] by (simp add: matches_def scopes_match_def nxt less_Suc_eq old)
  moreover have "spec_ok ?sp" using ok by (fastforce simp: spec_ok_def)
  ultimately have "matches d al (\<lambda>st xs. True) ?sp (ss, ?w')"
    using m by (simp add: matches_def regions_match_def lists_match_def)
  from matches_told[OF this same_books_refl, of ?xs] heard have "matches d al heard (signalled ?xs ?sp) (ss, ?w')"
    by (simp add: matches_def)
  then show ?thesis by (simp add: spec_step_def start del: w_report_nested)
qed

lemma matches_end_scope:
  assumes m: "matches d al heard sp (ss, w)" and s: "s < length (sp_names sp)" and d: "d_reporters d = reps"
  shows "matches d al heard (spec_step d al sp (EndScope s)) (exec_action d (EndScope s) (ss, w))"
proof (cases "s \<in> set (sp_ended sp)")
  case True
  then have "sc_finished (w_scopes w s)" using m s by (simp add: matches_def scopes_match_def scope_match_def)
  with True m show ?thesis by (simp add: spec_step_def finishScope_def)
next
  case False
  let ?sp = "sp\<lparr>sp_ended := s # sp_ended sp\<rparr>" and ?w = "finishScope d s w"
  let ?leak = "if d_reportLeaked d \<and> 0 < open_in sp s then [LeakedSig (sp_names sp ! s) (open_in sp s)] else []"
  have told: "heard (w_rs w) (sp_signals sp)" and sm: "scope_match sp s (w_scopes w s)" and rm: "regions_match sp w"
    using m s by (simp_all add: matches_def scopes_match_def)
  have open_s: "\<not> sc_finished (w_scopes w s)" using sm False by (simp add: scope_match_def)
  have "heard (w_rs (reportCallShortfalls d s w)) (sp_signals sp @ map StaleSig (owed sp s))"
    using hears_stales[OF told d] by (simp add: reportCallShortfalls_def owed_shortfalls[OF sm rm])
  then have "heard (deliver_reports reps (map RStaleAllow (owed sp s)) (w_rs w)) (sp_signals sp @ map StaleSig (owed sp s))"
    by (simp add: reportCallShortfalls_def owed_shortfalls[OF sm rm] reportStaleAllows_rs deliver_reports_stale d)
  then have heard: "heard (w_rs ?w) (sp_signals sp @ map StaleSig (owed sp s) @ ?leak)"
    using hears_as[OF reads]
    by (simp add: finishScope_rs[OF open_s] Let_def owed_shortfalls[OF sm rm] d matches_opens[OF m s] flip: append_assoc)
  have same: "w_next_scope ?w = w_next_scope w" "w_marks ?w = w_marks w" "w_next_mark ?w = w_next_mark w"
    "w_allowlists ?w = w_allowlists w"
    by (simp_all add: finishScope_def Let_def case_prod_unfold)
  have other: "scope_match ?sp t sc = scope_match sp t sc" if "t \<noteq> s" for t sc
    by (rule scope_match_cong) (simp_all add: that open_in_def)
  have "scope_match ?sp s ((w_scopes w s)\<lparr>sc_finished := True\<rparr>)"
    using sm by (simp add: scope_match_def open_in_def times_seen_def declared_def calls_of_def noted_decl_def declared_of_def
        reason_of_def calls_ok_def own_keys_def)
  then have "scopes_match ?sp ?w"
    using m other by (auto simp: matches_def scopes_match_def same finishScope_scopes)
  moreover have "spec_ok ?sp" using m s by (simp add: matches_def spec_ok_def)
  ultimately have "matches d al (\<lambda>st xs. True) ?sp (ss, ?w)"
    using m by (simp add: matches_def regions_match_def lists_match_def same)
  from matches_told[OF this same_books_refl, of "map StaleSig (owed sp s) @ ?leak"] heard show ?thesis
    using False by (simp add: matches_def spec_step_def)
qed

lemma matches_region:
  assumes m: "matches d al heard sp (ss, w)" and c: "ctx_known sp c"
  shows "matches d al heard (spec_step d al sp (Region c reason counts)) (exec_action d (Region c reason counts) (ss, w))"
proof (cases rule: scope_cases[of c])
  case 1
  with m show ?thesis by (simp add: spec_step_def AllowInTransactionHere_def case_prod_unfold)
next
  case (2 s mark)
  let ?r = "\<lparr>rg_scope = s, rg_reason = reason, rg_counts = counts, rg_used = 0\<rparr>"
  let ?w = "snd (AllowInTransactionHere c reason counts w)" and ?sp = "sp\<lparr>sp_regions := sp_regions sp @ [?r]\<rparr>"
  have nxt: "w_next_mark w = length (sp_regions sp)" using m by (simp add: matches_def regions_match_def)
  have fields: "w_next_scope ?w = w_next_scope w" "w_next_mark ?w = Suc (w_next_mark w)" "w_allowlists ?w = w_allowlists w"
    "w_rs ?w = w_rs w" "w_marks ?w = (w_marks w)(w_next_mark w := \<lparr>am_reason = reason, am_counts = counts, am_n = 0\<rparr>)"
    "w_scopes ?w t = (if t = s \<and> counts \<noteq> [] then registerMark (w_next_mark w) (w_scopes w t) else w_scopes w t)" for t
    by (simp_all add: AllowInTransactionHere_def 2(2) Let_def)
  have "scope_match ?sp t (w_scopes ?w t)" if "t < length (sp_names sp)" for t
    using m that scope_match_region[of sp t "w_scopes w t" ?sp ?r]
    by (auto simp: fields matches_def scopes_match_def nxt)
  then have "scopes_match ?sp ?w" using m by (simp add: matches_def scopes_match_def fields)
  moreover have "regions_match ?sp ?w"
    using m by (auto simp: matches_def regions_match_def region_match_def fields less_Suc_eq nth_append)
  moreover have "spec_ok ?sp"
    using m known_scope[OF c 2(1)] by (simp add: matches_def spec_ok_def)
  ultimately have "matches d al heard ?sp (ss, ?w)"
    using m by (simp add: matches_def lists_match_def fields)
  with 2(1) show ?thesis by (simp add: spec_step_def)
qed

lemma matches_action:
  assumes "matches d al heard sp run" "possible sp a" "d_reporters d = reps"
  shows "matches d al heard (spec_step d al sp a) (exec_action d a run)"
proof -
  obtain ss w where run: "run = (ss, w)" by (cases run)
  with assms have m: "matches d al heard sp (ss, w)" by simp
  then have len: "length (sp_tx sp) = length ss" by (auto simp: matches_def simp flip: length_map[of tx_state ss])
  show ?thesis
    using assms(2) unfolding run
    by (cases a) (simp_all only: len possible.simps matches_connect[OF m] matches_statement[OF m _ _ assms(3)]
        matches_begin[OF m _ _ assms(3)] matches_end[OF m] matches_new_scope[OF m _ assms(3)]
        matches_end_scope[OF m _ assms(3)] matches_region[OF m],
        simp only: exec_action.simps matches_effect[OF m _ assms(3)])
qed

lemma matches_run:
  assumes "d_reporters d = reps" "sensible d al sp as" "matches d al heard sp run"
  shows "matches d al heard (foldl (\<lambda>sp a. spec_step d al sp a) sp as) (foldl (\<lambda>run a. exec_action d a run) run as)"
  using assms(2,3) by (induction as arbitrary: sp run) (simp_all add: matches_action[OF _ _ assms(1)])

lemma matches_start:
  "matches d (map_option entries (d_allowlist d)) heard init_spec ([], start_world clock callers entries)"
  by (simp add: matches_def init_spec_def start_world_def initial_world_def scopes_match_def
      regions_match_def lists_match_def spec_ok_def silent Let_def)

lemma matches_program:
  assumes "d_reporters d = reps" "al = map_option entries (d_allowlist d)" "sensible d al init_spec as"
  shows "matches d al heard (run_spec d al as) (run_program d as (start_world clock callers entries))"
  unfolding run_spec_def run_program_def assms(2)
  by (rule matches_run[OF assms(1) assms(3)[unfolded assms(2)] matches_start])

end

subsection \<open>Reports and side effects\<close>

text \<open>
  The side effects of a whole program that happen in a transaction, in order, whether or not
  something allows them; and the programs in which nothing does.
\<close>

type_synonym sighting = "string \<times> op \<times> int"

fun sight_of :: "spec \<Rightarrow> sight \<Rightarrow> sighting list" where
  "sight_of sp (InTx s mark oper opn cfg) = [(sp_names sp ! s, oper, opn)]"
| "sight_of sp (Idle s oper reason) = []"

fun sightings :: "detector \<Rightarrow> allowlist option \<Rightarrow> spec \<Rightarrow> action list \<Rightarrow> sighting list" where
  "sightings d al sp [] = []"
| "sightings d al sp (a # as) =
     (let sp' = move d a sp in concat (map (sight_of sp') (sights d a sp')) @ sightings d al (spec_step d al sp a) as)"

fun unexcused :: "action \<Rightarrow> bool" where
  "unexcused (Statement i c query) = (snd (scopeAndMarkFrom c) = None)"
| "unexcused (Effect c oper opts) = (snd (scopeAndMarkFrom c) = None \<and> \<not> cfg_allowed (appliedCheckConfig opts))"
| "unexcused _ = True"

fun impure_part :: "signal \<Rightarrow> sighting list" where
  "impure_part (ImpureSig name oper opn k cs) = [(name, oper, opn)]"
| "impure_part _ = []"

definition sighted :: "spec \<Rightarrow> sighting list" where
  "sighted sp = concat (map impure_part (sp_signals sp))"

lemma sighted_witness:
  "\<exists>xs. sighted (witness al x sp) = sighted sp @ xs \<and> subseq xs (sight_of sp x)"
  by (cases x) (auto simp: sighted_def witness.simps(1) Let_def)

lemma sight_of_witness [simp]: "sight_of (witness al x sp) = sight_of sp"
  by (rule ext, rename_tac y, case_tac y) simp_all

lemma sighted_witnesses:
  "\<exists>xs. sighted (foldl (\<lambda>sp x. witness al x sp) sp ys) = sighted sp @ xs \<and> subseq xs (concat (map (sight_of sp) ys))"
proof (induction ys arbitrary: sp)
  case (Cons y ys)
  obtain us where us: "sighted (witness al y sp) = sighted sp @ us" "subseq us (sight_of sp y)"
    using sighted_witness by blast
  obtain vs where "sighted (foldl (\<lambda>sp x. witness al x sp) (witness al y sp) ys) = sighted (witness al y sp) @ vs"
    "subseq vs (concat (map (sight_of sp) ys))"
    using Cons.IH[of "witness al y sp"] by auto
  with us show ?case by (intro exI[of _ "us @ vs"]) (simp add: list_emb_append_mono)
qed simp

lemma impure_part_stales [simp]: "concat (map impure_part (map StaleSig sas)) = []"
  by (induction sas) simp_all

lemma sighted_move [simp]: "sighted (move d a sp) = sighted sp"
  by (cases a) (auto simp: sighted_def unscoped_signals_def signalled_def simp del: map_map split: option.split)

lemma sighted_run:
  "\<exists>xs. sighted (foldl (\<lambda>sp a. spec_step d al sp a) sp as) = sighted sp @ xs \<and> subseq xs (sightings d al sp as)"
proof (induction as arbitrary: sp)
  case (Cons a as)
  obtain ys where ys: "sighted (spec_step d al sp a) = sighted sp @ ys"
    "subseq ys (concat (map (sight_of (move d a sp)) (sights d a (move d a sp))))"
    using sighted_witnesses[of al "move d a sp" "sights d a (move d a sp)"] by (auto simp: spec_step_def Let_def)
  obtain zs where zs: "sighted (foldl (\<lambda>sp a. spec_step d al sp a) (spec_step d al sp a) as) = sighted (spec_step d al sp a) @ zs"
    "subseq zs (sightings d al (spec_step d al sp a) as)"
    using Cons.IH by blast
  with ys show ?case
    by (intro exI[of _ "ys @ zs"]) (simp add: Let_def list_emb_append_mono)
qed simp

text \<open>A sight that nothing allows.\<close>

fun plain_sight :: "sight \<Rightarrow> bool" where
  "plain_sight (InTx s mark oper opn cfg) = (mark = None \<and> \<not> cfg_allowed cfg)"
| "plain_sight (Idle s oper reason) = True"

lemma sighted_plain: "plain_sight x \<Longrightarrow> sighted (witness None x sp) = sighted sp @ sight_of sp x"
  by (cases x) (simp_all add: sighted_def witness.simps(1) Let_def option_covers_def region_covered_def resolves_def)

lemma unexcused_plain: "unexcused a \<Longrightarrow> list_all plain_sight (sights d a sp)"
  by (cases a) (auto simp: in_scope_def case_prod_unfold zero_config_def list_all_iff Let_def idle_region_def write_sights_def
      matched_sights_def split: option.splits if_splits)

lemma sighted_unexcused_run:
  assumes "list_all unexcused as"
  shows "sighted (foldl (\<lambda>sp a. spec_step d None sp a) sp as) = sighted sp @ sightings d None sp as"
  using assms
proof (induction as arbitrary: sp)
  case (Cons a as)
  have "sighted (foldl (\<lambda>sp x. witness None x sp) sp xs) = sighted sp @ concat (map (sight_of sp) xs)"
    if "list_all plain_sight xs" for xs sp
    using that by (induction xs arbitrary: sp) (auto simp: sighted_plain)
  then have "sighted (spec_step d None sp a) = sighted sp @ concat (map (sight_of (move d a sp)) (sights d a (move d a sp)))"
    using unexcused_plain[of a d "move d a sp"] Cons.prems by (simp add: spec_step_def Let_def)
  with Cons show ?case by (simp add: Let_def)
qed simp

subsection \<open>Properties\<close>

text \<open>
  C1. The detector implements the abstract machine. A program uses connections, statements,
  scopes, allow regions and checkpoints in any order, with one detector that reports to a
  collector and may have an allowlist. What the collector holds is, kind by kind, entry for
  entry and in order, what the machine signals: a violation for each side effect performed
  while a transaction is open in its scope (on another connection, for a write) that neither
  the call, the region nor the allowlist covers, with its index among the scope's calls of the
  operation and the counts that declined it; a stale allow for each allowance met while no
  transaction is open, and for each declaration an ending scope fell short of; the leaks; the
  nested scopes, unscoped transactions and unscoped checkpoints where their detection is on.
  The machine keeps no counter of transactions and no book of calls: who has a transaction
  open, how often an operation was seen and what was declared for it are read off its history.
\<close>

theorem detector_implements_specification:
  assumes "d_reporters d = [CollectingReporter r]" "al = map_option entries (d_allowlist d)"
    "sensible d al init_spec as"
  shows "let (ss, w) = run_program d as (start_world clock callers entries);
             sp = run_spec d al as
         in collector_signals (rs_collectors (w_rs w) r) = sorted_signals (sp_signals sp)
          \<and> map tx_state ss = sp_tx sp"
proof -
  obtain ss w where run: "run_program d as (start_world clock callers entries) = (ss, w)"
    by (cases "run_program d as (start_world clock callers entries)")
  from col.matches_program[OF assms, of clock callers] show ?thesis
    by (simp add: run matches_def collector_heard_def)
qed

text \<open>
  A program: a side effect inside a transaction, one that declares three calls, a scope ended
  with a transaction open and one call short, and an allowance outside any transaction.
\<close>

definition sample_program :: "action list" where
  "sample_program =
     (let c = WithValue Background ScopeCtxKey (ScopeVal 0); m = Op ''mail'' ''m'' in
      [NewScope Background ''S'' [], Connect, Connect, Effect c m [], BeginOn 0 c, Effect c m [],
       BeginOn 1 c, Effect c m [AllowInTransaction ''why'' [3]], EndOn 0, EndScope 0, EndScope 0,
       EndOn 1, Effect c m [AllowInTransaction ''idle'' []]])"

definition sample_detector :: "reporter \<Rightarrow> detector" where
  "sample_detector rep = New [WithReporter [rep], WithLeakedTxDetection]"

lemma sample_detector_fields [simp]:
  "d_reporters (sample_detector rep) = [rep]" "d_allowlist (sample_detector rep) = None"
  "d_reportLeaked (sample_detector rep)" "\<not> d_reportUnscoped (sample_detector rep)"
  "\<not> d_reportUnscopedCheck (sample_detector rep)" "\<not> d_reportNested (sample_detector rep)"
  by (simp_all add: sample_detector_def New_def WithReporter_def WithLeakedTxDetection_def)

lemmas sample_simps = sample_program_def Let_def ctx_known_def init_spec_def spec_step_def in_scope_def
  open_in_def tx_holds_def times_seen_def region_covered_def region_counts_def region_counted_def resolves_def
  listed_def option_covers_def coversCalls_def maxCount_def scopeFrom_fst witness.simps(1) declare_calls_def
  option_declares_def appliedCheckConfig_def AllowInTransaction_def zero_config_def idle_region_def
  unscoped_signals_def signalled_def owed_def declared_keys_in_def shortfall_def misses_counts_def declared_def
  key_for_def

lemma sample_program_sensible: "sensible (sample_detector rep) None init_spec sample_program"
  by (simp add: sample_simps)

lemma sample_program_spec:
  "sp_signals (run_spec (sample_detector rep) None sample_program) =
     [ImpureSig ''S'' (Op ''mail'' ''m'') 1 1 [],
      StaleSig \<lparr>st_Scope = ''S'', st_Op = Op ''mail'' ''m'', st_Reason = ''why'', st_Calls = 2, st_AllowedCalls = [3]\<rparr>,
      LeakedSig ''S'' 1, StaleSig (stale_now ''S'' (Op ''mail'' ''m'') ''idle'')]"
  by (simp add: run_spec_def sample_simps)

theorem detector_implements_specification_witness:
  "let (ss, w) = run_program (sample_detector (CollectingReporter 0)) sample_program (start_world int (\<lambda>_. []) (\<lambda>_. NewAllowlist))
   in collector_signals (rs_collectors (w_rs w) 0) =
     [[ImpureSig ''S'' (Op ''mail'' ''m'') 1 1 []],
      [StaleSig \<lparr>st_Scope = ''S'', st_Op = Op ''mail'' ''m'', st_Reason = ''why'', st_Calls = 2, st_AllowedCalls = [3]\<rparr>,
       StaleSig (stale_now ''S'' (Op ''mail'' ''m'') ''idle'')],
      [LeakedSig ''S'' 1], [], [], []]"
  using detector_implements_specification[of "sample_detector (CollectingReporter 0)" 0 None "\<lambda>_. NewAllowlist"
      sample_program int "\<lambda>_. []"] sample_program_sensible
  by (simp add: sample_program_spec sorted_signals_def case_prod_unfold Let_def)

text \<open>
  C2. Nothing is reported that did not happen, and without allowances nothing that happened is
  missed. The scope, operation and number of open transactions of the violations form a
  subsequence of the side effects that the program performed in transactions, in the order it
  performed them; so a program that keeps its transactions pure has none. When there is no
  allowlist and no call is made under a region or with an allow option, every such side effect
  is reported.
\<close>

theorem violations_are_the_impurities:
  assumes "d_reporters d = [CollectingReporter r]" "al = map_option entries (d_allowlist d)"
    "sensible d al init_spec as"
  shows "let (ss, w) = run_program d as (start_world clock callers entries);
             seen = map (\<lambda>v. (v_Scope v, v_Op v, v_OpenTxs v)) (Violations (rs_collectors (w_rs w) r));
             done = sightings d al init_spec as
         in subseq seen done
          \<and> (done = [] \<longrightarrow> seen = [])
          \<and> (d_allowlist d = None \<and> list_all unexcused as \<longrightarrow> seen = done)"
proof -
  obtain ss w where run: "run_program d as (start_world clock callers entries) = (ss, w)"
    by (cases "run_program d as (start_world clock callers entries)")
  let ?col = "rs_collectors (w_rs w) r" and ?xs = "sp_signals (run_spec d al as)"
  have "map (signal_of \<circ> RViolation) (Violations ?col) = filter (\<lambda>x. signal_kind x = 0) ?xs"
    using col.matches_program[OF assms, of clock callers]
    by (simp add: run matches_def collector_heard_def collector_signals_def sorted_signals_def)
  then have "concat (map impure_part (map (signal_of \<circ> RViolation) (Violations ?col)))
      = concat (map impure_part (filter (\<lambda>x. signal_kind x = 0) ?xs))" by simp
  moreover have "concat (map impure_part (map (signal_of \<circ> RViolation) vs)) = map (\<lambda>v. (v_Scope v, v_Op v, v_OpenTxs v)) vs" for vs
    by (induction vs) simp_all
  moreover have "concat (map impure_part (filter (\<lambda>x. signal_kind x = 0) xs)) = concat (map impure_part xs)" for xs
  proof (induction xs)
    case (Cons x xs)
    then show ?case by (cases x) simp_all
  qed simp
  ultimately have seen: "map (\<lambda>v. (v_Scope v, v_Op v, v_OpenTxs v)) (Violations ?col) = sighted (run_spec d al as)"
    by (simp add: sighted_def)
  have start: "sighted init_spec = []" by (simp add: sighted_def init_spec_def)
  then have "subseq (sighted (run_spec d al as)) (sightings d al init_spec as)"
    using sighted_run[of d al init_spec as] by (auto simp: run_spec_def)
  moreover have "sighted (run_spec d al as) = sightings d al init_spec as" if "d_allowlist d = None" "list_all unexcused as"
    using sighted_unexcused_run[OF that(2), of d init_spec] assms(2) that(1) by (simp add: start run_spec_def)
  moreover have "Violations ?col = [] \<longleftrightarrow> sighted (run_spec d al as) = []"
    by (metis seen map_is_Nil_conv)
  ultimately show ?thesis by (auto simp: run Let_def seen)
qed

theorem violations_are_the_impurities_witness:
  "let (ss, w) = run_program (sample_detector (CollectingReporter 0)) (take 6 sample_program) (start_world int (\<lambda>_. []) (\<lambda>_. NewAllowlist))
   in map (\<lambda>v. (v_Scope v, v_Op v, v_OpenTxs v)) (Violations (rs_collectors (w_rs w) 0)) = [(''S'', Op ''mail'' ''m'', 1)]"
proof -
  let ?d = "sample_detector (CollectingReporter 0)"
  have "sensible ?d None init_spec (take 6 sample_program)" "list_all unexcused (take 6 sample_program)"
    "sightings ?d None init_spec (take 6 sample_program) = [(''S'', Op ''mail'' ''m'', 1)]"
    by (simp_all add: sample_simps)
  with violations_are_the_impurities[of ?d 0 None "\<lambda>_. NewAllowlist" "take 6 sample_program" int "\<lambda>_. []"]
  show ?thesis by (simp add: case_prod_unfold Let_def)
qed

end
