(* ===== verification/Driver.thy ===== *)
theory Driver
  imports Session
begin

text \<open>
  The database/sql driver middleware (driver.go). The wrapped driver is code outside the
  library: its connection, statements and transactions are records of its methods, each a
  function of its own state \<open>'db\<close>, with an optional method for each interface that the
  middleware asserts; the middleware relies on nothing else about them, and they do not reach
  into the detector. A Go pair \<open>(value, error)\<close> is a pair of options.
\<close>

datatype go_error =
    ErrSkip
  | ErrBadConn
  | ErrNamedParams
  | ErrTxOptions
  | ErrOther string
  | ErrWrap string "go_error list"

text \<open>\<^verbatim>\<open>errors.Is\<close>: the error, or one it wraps, is the target.\<close>

fun error_is :: "go_error \<Rightarrow> go_error \<Rightarrow> bool" where
  "error_is (ErrWrap msg es) t = (ErrWrap msg es = t \<or> list_ex (\<lambda>e. error_is e t) es)"
| "error_is e t = (e = t)"

definition errors_Is :: "go_error option \<Rightarrow> go_error \<Rightarrow> bool" where
  "errors_Is err t = (case err of None \<Rightarrow> False | Some e \<Rightarrow> error_is e t)"

type_synonym go_result = "any option \<times> go_error option"

record named_value =
  nv_Name :: string
  nv_Ordinal :: int
  nv_Value :: any

record tx_options =
  to_Isolation :: int
  to_ReadOnly :: bool

definition zero_tx_options :: tx_options where
  "zero_tx_options = \<lparr>to_Isolation = 0, to_ReadOnly = False\<rparr>"

record 'db driver_tx =
  dt_Commit :: "'db \<Rightarrow> go_error option \<times> 'db"
  dt_Rollback :: "'db \<Rightarrow> go_error option \<times> 'db"

record 'db driver_stmt =
  dm_Close :: "'db \<Rightarrow> go_error option \<times> 'db"
  dm_NumInput :: int
  dm_Exec :: "any list \<Rightarrow> 'db \<Rightarrow> go_result \<times> 'db"
  dm_Query :: "any list \<Rightarrow> 'db \<Rightarrow> go_result \<times> 'db"
  dm_ExecContext :: "(ctx \<Rightarrow> named_value list \<Rightarrow> 'db \<Rightarrow> go_result \<times> 'db) option"
  dm_QueryContext :: "(ctx \<Rightarrow> named_value list \<Rightarrow> 'db \<Rightarrow> go_result \<times> 'db) option"
  dm_CheckNamedValue :: "(named_value \<Rightarrow> go_error option \<times> named_value) option"

record 'db driver_conn =
  dc_Prepare :: "string \<Rightarrow> 'db \<Rightarrow> (go_error + 'db driver_stmt) \<times> 'db"
  dc_PrepareContext :: "(ctx \<Rightarrow> string \<Rightarrow> 'db \<Rightarrow> (go_error + 'db driver_stmt) \<times> 'db) option"
  dc_Close :: "'db \<Rightarrow> go_error option \<times> 'db"
  dc_Begin :: "'db \<Rightarrow> (go_error + 'db driver_tx) \<times> 'db"
  dc_BeginTx :: "(ctx \<Rightarrow> tx_options \<Rightarrow> 'db \<Rightarrow> (go_error + 'db driver_tx) \<times> 'db) option"
  dc_ExecContext :: "(ctx \<Rightarrow> string \<Rightarrow> named_value list \<Rightarrow> 'db \<Rightarrow> go_result \<times> 'db) option"
  dc_Exec :: "(string \<Rightarrow> any list \<Rightarrow> 'db \<Rightarrow> go_result \<times> 'db) option"
  dc_QueryContext :: "(ctx \<Rightarrow> string \<Rightarrow> named_value list \<Rightarrow> 'db \<Rightarrow> go_result \<times> 'db) option"
  dc_Query :: "(string \<Rightarrow> any list \<Rightarrow> 'db \<Rightarrow> go_result \<times> 'db) option"
  dc_Ping :: "(ctx \<Rightarrow> 'db \<Rightarrow> go_error option \<times> 'db) option"
  dc_ResetSession :: "(ctx \<Rightarrow> 'db \<Rightarrow> go_error option \<times> 'db) option"
  dc_IsValid :: "('db \<Rightarrow> bool) option"
  dc_CheckNamedValue :: "(named_value \<Rightarrow> go_error option \<times> named_value) option"

subsection \<open>The wrapped connection\<close>

text \<open>
  \<^verbatim>\<open>wrappedConn\<close> with the state of the connection it wraps. A transaction handle is the
  pointer to the connection's own \<^verbatim>\<open>wtx\<close>, so committing reads whatever \<^verbatim>\<open>wtx\<close> holds then.
\<close>

record 'db wrapped_conn =
  wc_conn :: "'db driver_conn"
  wc_db :: 'db
  wc_session :: session
  wc_wtx :: "'db driver_tx option"

definition wrap_conn :: "'db driver_conn \<Rightarrow> 'db \<Rightarrow> 'db wrapped_conn" where
  "wrap_conn conn db = \<lparr>wc_conn = conn, wc_db = db, wc_session = NewSession, wc_wtx = None\<rparr>"

definition wrappedDriver_Open :: "(string \<Rightarrow> go_error + 'db driver_conn \<times> 'db) \<Rightarrow> string \<Rightarrow> go_error + 'db wrapped_conn" where
  "wrappedDriver_Open drv name =
     (case drv name of Inl err \<Rightarrow> Inl err | Inr (conn, db) \<Rightarrow> Inr (wrap_conn conn db))"

definition wrappedConnector_Connect :: "(ctx \<Rightarrow> go_error + 'db driver_conn \<times> 'db) \<Rightarrow> ctx \<Rightarrow> go_error + 'db wrapped_conn" where
  "wrappedConnector_Connect connector c =
     (case connector c of Inl err \<Rightarrow> Inl err | Inr (conn, db) \<Rightarrow> Inr (wrap_conn conn db))"

text \<open>
  The factories. A driver is its \<^verbatim>\<open>Open\<close>, a connector its \<^verbatim>\<open>Connect\<close> and the driver it names;
  the wrappers keep the wrapped value, and the detector is the argument of every operation.
\<close>

type_synonym 'db open_conn = "string \<Rightarrow> go_error + 'db driver_conn \<times> 'db"

record 'db connector =
  dn_Connect :: "ctx \<Rightarrow> go_error + 'db driver_conn \<times> 'db"
  dn_Driver :: "'db open_conn"

record 'db wrapped_driver =
  wd_drv :: "'db open_conn"

record 'db wrapped_connector =
  wk_connector :: "'db connector"

definition Wrap :: "'db open_conn \<Rightarrow> 'db wrapped_driver" where
  "Wrap drv = \<lparr>wd_drv = drv\<rparr>"

definition WrapConnector :: "'db connector \<Rightarrow> 'db wrapped_connector" where
  "WrapConnector c = \<lparr>wk_connector = c\<rparr>"

definition wrappedConnector_Driver :: "'db wrapped_connector \<Rightarrow> 'db wrapped_driver" where
  "wrappedConnector_Driver wk = \<lparr>wd_drv = dn_Driver (wk_connector wk)\<rparr>"

text \<open>Running a method of the wrapped connection, and an operation of the session.\<close>

definition under :: "('db \<Rightarrow> 'r \<times> 'db) \<Rightarrow> 'db wrapped_conn \<Rightarrow> 'r \<times> 'db wrapped_conn" where
  "under f wc = (case f (wc_db wc) of (r, db) \<Rightarrow> (r, wc\<lparr>wc_db := db\<rparr>))"

definition on_session :: "(session \<Rightarrow> world \<Rightarrow> session \<times> world) \<Rightarrow> 'db wrapped_conn \<Rightarrow> world \<Rightarrow> 'db wrapped_conn \<times> world" where
  "on_session f wc w = (case f (wc_session wc) w of (se, w') \<Rightarrow> (wc\<lparr>wc_session := se\<rparr>, w'))"

fun namedValuesToValues :: "named_value list \<Rightarrow> go_error + any list" where
  "namedValuesToValues [] = Inr []"
| "namedValuesToValues (nv # named) =
     (if nv_Name nv \<noteq> [] then Inl ErrNamedParams
      else case namedValuesToValues named of
             Inl err \<Rightarrow> Inl err
           | Inr vals \<Rightarrow> Inr (nv_Value nv # vals))"

subsection \<open>Prepared statements\<close>

record 'db wrapped_stmt =
  ws_stmt :: "'db driver_stmt"
  ws_query :: string
  ws_kind :: statement_kind
  ws_stmtOps :: "op list"

fun match_checkers :: "statement_checker list \<Rightarrow> string \<Rightarrow> op list \<Rightarrow> op list" where
  "match_checkers [] query ops = ops"
| "match_checkers (chk # chks) query ops =
     (case chk query of (oper, ok) \<Rightarrow> match_checkers chks query (if ok then ops @ [oper] else ops))"

definition wrapStmt :: "detector \<Rightarrow> 'db driver_stmt \<Rightarrow> string \<Rightarrow> 'db wrapped_stmt" where
  "wrapStmt d stmt query =
     \<lparr>ws_stmt = stmt, ws_query = query, ws_kind = d_classify d query,
      ws_stmtOps = match_checkers (d_stmtCheckers d) query []\<rparr>"

definition conn_Prepare :: "detector \<Rightarrow> string \<Rightarrow> 'db wrapped_conn \<Rightarrow> (go_error + 'db wrapped_stmt) \<times> 'db wrapped_conn" where
  "conn_Prepare d query wc =
     (case under (dc_Prepare (wc_conn wc) query) wc of
        (Inl err, wc) \<Rightarrow> (Inl err, wc)
      | (Inr stmt, wc) \<Rightarrow> (Inr (wrapStmt d stmt query), wc))"

definition conn_PrepareContext :: "detector \<Rightarrow> ctx \<Rightarrow> string \<Rightarrow> 'db wrapped_conn \<Rightarrow> (go_error + 'db wrapped_stmt) \<times> 'db wrapped_conn" where
  "conn_PrepareContext d c query wc =
     (case dc_PrepareContext (wc_conn wc) of
        Some pc \<Rightarrow>
          (case under (pc c query) wc of
             (Inl err, wc) \<Rightarrow> (Inl err, wc)
           | (Inr stmt, wc) \<Rightarrow> (Inr (wrapStmt d stmt query), wc))
      | None \<Rightarrow> conn_Prepare d query wc)"

definition stmt_observe :: "detector \<Rightarrow> ctx \<Rightarrow> 'db wrapped_stmt \<Rightarrow> 'db wrapped_conn \<Rightarrow> world \<Rightarrow> 'db wrapped_conn \<times> world" where
  "stmt_observe d c st wc w =
     (case on_session (observeKind d c (ws_query st) (ws_kind st)) wc w of
        (wc, w) \<Rightarrow> (wc, if ws_stmtOps st \<noteq> [] then reportStatementOps d c (ws_stmtOps st) w else w))"

text \<open>
  What the four execution methods of a statement share: the result, and whether the execution
  is observed.
\<close>

definition stmt_finish :: "detector \<Rightarrow> ctx \<Rightarrow> 'db wrapped_stmt \<Rightarrow> go_result \<times> 'db wrapped_conn \<Rightarrow> world \<Rightarrow> go_result \<times> 'db wrapped_conn \<times> world" where
  "stmt_finish d c st out w =
     (case out of
        ((res, err), wc) \<Rightarrow>
          if errors_Is err ErrBadConn then ((None, err), wc, w)
          else (case stmt_observe d c st wc w of (wc, w) \<Rightarrow> ((res, err), wc, w)))"

definition stmt_execUnderlying :: "ctx \<Rightarrow> named_value list \<Rightarrow> 'db wrapped_stmt \<Rightarrow> 'db wrapped_conn \<Rightarrow> go_result \<times> 'db wrapped_conn" where
  "stmt_execUnderlying c args st wc =
     (case dm_ExecContext (ws_stmt st) of
        Some sec \<Rightarrow> under (sec c args) wc
      | None \<Rightarrow>
          (case namedValuesToValues args of
             Inl err \<Rightarrow> ((None, Some err), wc)
           | Inr vals \<Rightarrow> under (dm_Exec (ws_stmt st) vals) wc))"

definition stmt_queryUnderlying :: "ctx \<Rightarrow> named_value list \<Rightarrow> 'db wrapped_stmt \<Rightarrow> 'db wrapped_conn \<Rightarrow> go_result \<times> 'db wrapped_conn" where
  "stmt_queryUnderlying c args st wc =
     (case dm_QueryContext (ws_stmt st) of
        Some sqc \<Rightarrow> under (sqc c args) wc
      | None \<Rightarrow>
          (case namedValuesToValues args of
             Inl err \<Rightarrow> ((None, Some err), wc)
           | Inr vals \<Rightarrow> under (dm_Query (ws_stmt st) vals) wc))"

definition stmt_Exec :: "detector \<Rightarrow> any list \<Rightarrow> 'db wrapped_stmt \<Rightarrow> 'db wrapped_conn \<Rightarrow> world \<Rightarrow> go_result \<times> 'db wrapped_conn \<times> world" where
  "stmt_Exec d args st wc w = stmt_finish d Background st (under (dm_Exec (ws_stmt st) args) wc) w"

definition stmt_ExecContext :: "detector \<Rightarrow> ctx \<Rightarrow> named_value list \<Rightarrow> 'db wrapped_stmt \<Rightarrow> 'db wrapped_conn \<Rightarrow> world \<Rightarrow> go_result \<times> 'db wrapped_conn \<times> world" where
  "stmt_ExecContext d c args st wc w = stmt_finish d c st (stmt_execUnderlying c args st wc) w"

definition stmt_Query :: "detector \<Rightarrow> any list \<Rightarrow> 'db wrapped_stmt \<Rightarrow> 'db wrapped_conn \<Rightarrow> world \<Rightarrow> go_result \<times> 'db wrapped_conn \<times> world" where
  "stmt_Query d args st wc w = stmt_finish d Background st (under (dm_Query (ws_stmt st) args) wc) w"

definition stmt_QueryContext :: "detector \<Rightarrow> ctx \<Rightarrow> named_value list \<Rightarrow> 'db wrapped_stmt \<Rightarrow> 'db wrapped_conn \<Rightarrow> world \<Rightarrow> go_result \<times> 'db wrapped_conn \<times> world" where
  "stmt_QueryContext d c args st wc w = stmt_finish d c st (stmt_queryUnderlying c args st wc) w"

definition stmt_Close :: "'db wrapped_stmt \<Rightarrow> 'db wrapped_conn \<Rightarrow> go_error option \<times> 'db wrapped_conn" where
  "stmt_Close st wc = under (dm_Close (ws_stmt st)) wc"

definition stmt_NumInput :: "'db wrapped_stmt \<Rightarrow> int" where
  "stmt_NumInput st = dm_NumInput (ws_stmt st)"

definition stmt_CheckNamedValue :: "named_value \<Rightarrow> 'db wrapped_stmt \<Rightarrow> 'db wrapped_conn \<Rightarrow> go_error option \<times> named_value" where
  "stmt_CheckNamedValue nv st wc =
     (case dm_CheckNamedValue (ws_stmt st) of
        Some nvc \<Rightarrow> nvc nv
      | None \<Rightarrow>
          (case dc_CheckNamedValue (wc_conn wc) of
             Some nvc \<Rightarrow> nvc nv
           | None \<Rightarrow> (Some ErrSkip, nv)))"

subsection \<open>Transactions and direct execution\<close>

definition conn_Close :: "'db wrapped_conn \<Rightarrow> world \<Rightarrow> go_error option \<times> 'db wrapped_conn \<times> world" where
  "conn_Close wc w = (case under (dc_Close (wc_conn wc)) wc of (err, wc) \<Rightarrow> (err, wc, w))"

definition conn_begun :: "detector \<Rightarrow> ctx \<Rightarrow> (go_error + 'db driver_tx) \<times> 'db wrapped_conn \<Rightarrow> world \<Rightarrow> go_error option \<times> 'db wrapped_conn \<times> world" where
  "conn_begun d c out w =
     (case out of
        (Inl err, wc) \<Rightarrow> (Some err, wc, w)
      | (Inr tx, wc) \<Rightarrow>
          (case on_session (BeginTx d c) wc w of (wc, w) \<Rightarrow> (None, wc\<lparr>wc_wtx := Some tx\<rparr>, w)))"

definition conn_Begin :: "detector \<Rightarrow> 'db wrapped_conn \<Rightarrow> world \<Rightarrow> go_error option \<times> 'db wrapped_conn \<times> world" where
  "conn_Begin d wc w = conn_begun d Background (under (dc_Begin (wc_conn wc)) wc) w"

definition conn_BeginTx :: "detector \<Rightarrow> ctx \<Rightarrow> tx_options \<Rightarrow> 'db wrapped_conn \<Rightarrow> world \<Rightarrow> go_error option \<times> 'db wrapped_conn \<times> world" where
  "conn_BeginTx d c opts wc w =
     (case dc_BeginTx (wc_conn wc) of
        Some bt \<Rightarrow> conn_begun d c (under (bt c opts) wc) w
      | None \<Rightarrow>
          if opts \<noteq> zero_tx_options then (Some ErrTxOptions, wc, w)
          else conn_begun d c (under (dc_Begin (wc_conn wc)) wc) w)"

text \<open>
  Committing through a handle that no begin has filled in would dereference a nil interface in
  Go; such a handle is never given out, and the model returns \<open>None\<close>.
\<close>

definition tx_end :: "('db driver_tx \<Rightarrow> 'db \<Rightarrow> go_error option \<times> 'db) \<Rightarrow> 'db wrapped_conn \<Rightarrow> world \<Rightarrow> (go_error option \<times> 'db wrapped_conn \<times> world) option" where
  "tx_end method wc w =
     (case wc_wtx wc of
        None \<Rightarrow> None
      | Some tx \<Rightarrow>
          (case under (method tx) wc of
             (err, wc) \<Rightarrow> (case on_session EndTx wc w of (wc, w) \<Rightarrow> Some (err, wc, w))))"

definition tx_Commit :: "'db wrapped_conn \<Rightarrow> world \<Rightarrow> (go_error option \<times> 'db wrapped_conn \<times> world) option" where
  "tx_Commit wc w = tx_end dt_Commit wc w"

definition tx_Rollback :: "'db wrapped_conn \<Rightarrow> world \<Rightarrow> (go_error option \<times> 'db wrapped_conn \<times> world) option" where
  "tx_Rollback wc w = tx_end dt_Rollback wc w"

definition conn_execUnderlying :: "ctx \<Rightarrow> string \<Rightarrow> named_value list \<Rightarrow> 'db wrapped_conn \<Rightarrow> go_result \<times> 'db wrapped_conn" where
  "conn_execUnderlying c query args wc =
     (case dc_ExecContext (wc_conn wc) of
        Some ec \<Rightarrow> under (ec c query args) wc
      | None \<Rightarrow>
          (case dc_Exec (wc_conn wc) of
             Some e \<Rightarrow>
               (case namedValuesToValues args of
                  Inl err \<Rightarrow> ((None, Some err), wc)
                | Inr vals \<Rightarrow> under (e query vals) wc)
           | None \<Rightarrow> ((None, Some ErrSkip), wc)))"

definition conn_queryUnderlying :: "ctx \<Rightarrow> string \<Rightarrow> named_value list \<Rightarrow> 'db wrapped_conn \<Rightarrow> go_result \<times> 'db wrapped_conn" where
  "conn_queryUnderlying c query args wc =
     (case dc_QueryContext (wc_conn wc) of
        Some qc \<Rightarrow> under (qc c query args) wc
      | None \<Rightarrow>
          (case dc_Query (wc_conn wc) of
             Some q \<Rightarrow>
               (case namedValuesToValues args of
                  Inl err \<Rightarrow> ((None, Some err), wc)
                | Inr vals \<Rightarrow> under (q query vals) wc)
           | None \<Rightarrow> ((None, Some ErrSkip), wc)))"

definition conn_finish :: "detector \<Rightarrow> ctx \<Rightarrow> string \<Rightarrow> go_result \<times> 'db wrapped_conn \<Rightarrow> world \<Rightarrow> go_result \<times> 'db wrapped_conn \<times> world" where
  "conn_finish d c query out w =
     (case out of
        ((res, err), wc) \<Rightarrow>
          if errors_Is err ErrSkip then ((None, Some ErrSkip), wc, w)
          else if errors_Is err ErrBadConn then ((None, err), wc, w)
          else (case on_session (Observe d c query) wc w of (wc, w) \<Rightarrow> ((res, err), wc, w)))"

definition conn_ExecContext :: "detector \<Rightarrow> ctx \<Rightarrow> string \<Rightarrow> named_value list \<Rightarrow> 'db wrapped_conn \<Rightarrow> world \<Rightarrow> go_result \<times> 'db wrapped_conn \<times> world" where
  "conn_ExecContext d c query args wc w = conn_finish d c query (conn_execUnderlying c query args wc) w"

definition conn_QueryContext :: "detector \<Rightarrow> ctx \<Rightarrow> string \<Rightarrow> named_value list \<Rightarrow> 'db wrapped_conn \<Rightarrow> world \<Rightarrow> go_result \<times> 'db wrapped_conn \<times> world" where
  "conn_QueryContext d c query args wc w = conn_finish d c query (conn_queryUnderlying c query args wc) w"

definition conn_Ping :: "ctx \<Rightarrow> 'db wrapped_conn \<Rightarrow> go_error option \<times> 'db wrapped_conn" where
  "conn_Ping c wc = (case dc_Ping (wc_conn wc) of Some p \<Rightarrow> under (p c) wc | None \<Rightarrow> (None, wc))"

definition conn_ResetSession :: "ctx \<Rightarrow> 'db wrapped_conn \<Rightarrow> go_error option \<times> 'db wrapped_conn" where
  "conn_ResetSession c wc = (case dc_ResetSession (wc_conn wc) of Some sr \<Rightarrow> under (sr c) wc | None \<Rightarrow> (None, wc))"

definition conn_IsValid :: "'db wrapped_conn \<Rightarrow> bool" where
  "conn_IsValid wc = (case dc_IsValid (wc_conn wc) of Some v \<Rightarrow> v (wc_db wc) | None \<Rightarrow> True)"

definition conn_CheckNamedValue :: "named_value \<Rightarrow> 'db wrapped_conn \<Rightarrow> go_error option \<times> named_value" where
  "conn_CheckNamedValue nv wc =
     (case dc_CheckNamedValue (wc_conn wc) of Some nvc \<Rightarrow> nvc nv | None \<Rightarrow> (Some ErrSkip, nv))"

subsection \<open>Frame and effects\<close>

lemma under_fields [simp]:
  "wc_session (snd (under f wc)) = wc_session wc" "wc_conn (snd (under f wc)) = wc_conn wc"
  "wc_wtx (snd (under f wc)) = wc_wtx wc"
  "fst (under f wc) = fst (f (wc_db wc))" "wc_db (snd (under f wc)) = snd (f (wc_db wc))"
  by (simp_all add: under_def case_prod_unfold)

lemma on_session_fields [simp]:
  "wc_session (fst (on_session f wc w)) = fst (f (wc_session wc) w)"
  "snd (on_session f wc w) = snd (f (wc_session wc) w)"
  "wc_conn (fst (on_session f wc w)) = wc_conn wc" "wc_db (fst (on_session f wc w)) = wc_db wc"
  "wc_wtx (fst (on_session f wc w)) = wc_wtx wc"
  by (simp_all add: on_session_def case_prod_unfold)

lemma execUnderlying_session [simp]:
  "wc_session (snd (conn_execUnderlying c q args wc)) = wc_session wc"
  "wc_session (snd (conn_queryUnderlying c q args wc)) = wc_session wc"
  by (simp_all add: conn_execUnderlying_def conn_queryUnderlying_def split: option.split sum.split)

lemma stmt_underlying_session [simp]:
  "wc_session (snd (stmt_execUnderlying c args st wc)) = wc_session wc"
  "wc_session (snd (stmt_queryUnderlying c args st wc)) = wc_session wc"
  by (simp_all add: stmt_execUnderlying_def stmt_queryUnderlying_def split: option.split sum.split)

lemma match_checkers_filter:
  "match_checkers chks query ops = ops @ map fst (filter snd (map (\<lambda>chk. chk query) chks))"
  by (induction chks arbitrary: ops) (simp_all add: case_prod_unfold)

lemma reportStatementOps_Nil [simp]: "reportStatementOps d c [] w = w"
  by (simp add: reportStatementOps_def Let_def split: prod.split option.split)

lemma Observe_ops:
  "Observe d c query se w =
     (case observeKind d c query (d_classify d query) se w of
        (se', w') \<Rightarrow> (se', reportStatementOps d c (match_checkers (d_stmtCheckers d) query []) w'))"
  by (simp add: Observe_def case_prod_unfold checkers_as_ops match_checkers_filter)

lemma ws_stmt_wrapStmt [simp]: "ws_stmt (wrapStmt d stmt query) = stmt"
  by (simp add: wrapStmt_def)

lemma stmt_observe_Observe:
  "stmt_observe d c (wrapStmt d stmt query) wc w = on_session (Observe d c query) wc w"
  by (simp add: stmt_observe_def wrapStmt_def on_session_def Observe_ops case_prod_unfold)

subsection \<open>What database/sql may do with a wrapped connection\<close>

text \<open>
  The calls on a connection, its transaction and its prepared statements. A statement is named
  by the underlying statement and the text it was prepared from.
\<close>

datatype 'db driver_action =
    DPrepare ctx string
  | DExec ctx string "named_value list"
  | DQuery ctx string "named_value list"
  | DBegin
  | DBeginTx ctx tx_options
  | DCommit
  | DRollback
  | DStmtExec "'db driver_stmt" string "any list"
  | DStmtQuery "'db driver_stmt" string "any list"
  | DStmtExecContext "'db driver_stmt" string ctx "named_value list"
  | DStmtQueryContext "'db driver_stmt" string ctx "named_value list"
  | DStmtClose "'db driver_stmt" string
  | DPing ctx
  | DResetSession ctx
  | DClose

definition tx_after :: "'db wrapped_conn \<Rightarrow> world \<Rightarrow> (go_error option \<times> 'db wrapped_conn \<times> world) option \<Rightarrow> 'db wrapped_conn \<times> world" where
  "tx_after wc w out = (case out of None \<Rightarrow> (wc, w) | Some (err, wc', w') \<Rightarrow> (wc', w'))"

fun driver_exec :: "detector \<Rightarrow> 'db driver_action \<Rightarrow> 'db wrapped_conn \<Rightarrow> world \<Rightarrow> 'db wrapped_conn \<times> world" where
  "driver_exec d (DPrepare c query) wc w = (snd (conn_PrepareContext d c query wc), w)"
| "driver_exec d (DExec c query args) wc w = snd (conn_ExecContext d c query args wc w)"
| "driver_exec d (DQuery c query args) wc w = snd (conn_QueryContext d c query args wc w)"
| "driver_exec d DBegin wc w = snd (conn_Begin d wc w)"
| "driver_exec d (DBeginTx c opts) wc w = snd (conn_BeginTx d c opts wc w)"
| "driver_exec d DCommit wc w = tx_after wc w (tx_Commit wc w)"
| "driver_exec d DRollback wc w = tx_after wc w (tx_Rollback wc w)"
| "driver_exec d (DStmtExec stmt query vals) wc w = snd (stmt_Exec d vals (wrapStmt d stmt query) wc w)"
| "driver_exec d (DStmtQuery stmt query vals) wc w = snd (stmt_Query d vals (wrapStmt d stmt query) wc w)"
| "driver_exec d (DStmtExecContext stmt query c args) wc w = snd (stmt_ExecContext d c args (wrapStmt d stmt query) wc w)"
| "driver_exec d (DStmtQueryContext stmt query c args) wc w = snd (stmt_QueryContext d c args (wrapStmt d stmt query) wc w)"
| "driver_exec d (DStmtClose stmt query) wc w = (snd (stmt_Close (wrapStmt d stmt query) wc), w)"
| "driver_exec d (DPing c) wc w = (snd (conn_Ping c wc), w)"
| "driver_exec d (DResetSession c) wc w = (snd (conn_ResetSession c wc), w)"
| "driver_exec d DClose wc w = snd (conn_Close wc w)"

fun driver_ctx :: "'db driver_action \<Rightarrow> ctx option" where
  "driver_ctx (DExec c query args) = Some c"
| "driver_ctx (DQuery c query args) = Some c"
| "driver_ctx (DBeginTx c opts) = Some c"
| "driver_ctx (DStmtExecContext stmt query c args) = Some c"
| "driver_ctx (DStmtQueryContext stmt query c args) = Some c"
| "driver_ctx _ = None"

text \<open>Every call moves the session as one of its own operations, or not at all.\<close>

definition as_session :: "detector \<Rightarrow> ctx option \<Rightarrow> session \<Rightarrow> world \<Rightarrow> session \<Rightarrow> world \<Rightarrow> bool" where
  "as_session d co se w se' w' \<longleftrightarrow>
     (se', w') = (se, w)
     \<or> (\<exists>a. (se', w') = session_exec d a se w \<and> session_ctx a \<in> {None, Some Background, co})"

lemma as_session_refl [simp]: "as_session d co se w se w"
  by (simp add: as_session_def)

lemma as_session_Observe:
  "co = Some c \<or> c = Background \<Longrightarrow>
     as_session d co se w (fst (Observe d c q se w)) (snd (Observe d c q se w))"
  unfolding as_session_def by (intro disjI2 exI[of _ "AObserve c q"]) auto

lemma as_session_conn_finish:
  assumes "wc_session (snd out) = wc_session wc"
  shows "as_session d (Some c) (wc_session wc) w (wc_session (fst (snd (conn_finish d c q out w))))
    (snd (snd (conn_finish d c q out w)))"
  using assms as_session_Observe[of "Some c" c d "wc_session wc" w q]
  by (simp add: conn_finish_def case_prod_unfold)

lemma as_session_stmt_finish:
  assumes "wc_session (snd out) = wc_session wc" "co = Some c \<or> c = Background"
  shows "as_session d co (wc_session wc) w
    (wc_session (fst (snd (stmt_finish d c (wrapStmt d stmt q) out w))))
    (snd (snd (stmt_finish d c (wrapStmt d stmt q) out w)))"
  using assms as_session_Observe[OF assms(2), of d "wc_session wc" w q]
  by (simp add: stmt_finish_def stmt_observe_Observe case_prod_unfold)

lemma as_session_begun:
  assumes "wc_session (snd out) = wc_session wc" "co = Some c \<or> c = Background"
  shows "as_session d co (wc_session wc) w (wc_session (fst (snd (conn_begun d c out w))))
    (snd (snd (conn_begun d c out w)))"
proof (cases "fst out")
  case (Inl err)
  with assms show ?thesis by (simp add: conn_begun_def case_prod_unfold)
next
  case (Inr tx)
  have "as_session d co (wc_session wc) w (fst (BeginTx d c (wc_session wc) w)) (snd (BeginTx d c (wc_session wc) w))"
    using assms(2) unfolding as_session_def by (intro disjI2 exI[of _ "ABeginTx c"]) auto
  with Inr assms(1) show ?thesis by (simp add: conn_begun_def case_prod_unfold)
qed

lemma as_session_tx_end:
  "as_session d None (wc_session wc) w (wc_session (fst (tx_after wc w (tx_end m wc w))))
     (snd (tx_after wc w (tx_end m wc w)))"
proof (cases "wc_wtx wc")
  case None
  then show ?thesis by (simp add: tx_end_def tx_after_def)
next
  case (Some tx)
  have "as_session d None (wc_session wc) w (fst (EndTx (wc_session wc) w)) (snd (EndTx (wc_session wc) w))"
    unfolding as_session_def by (intro disjI2 exI[of _ AEndTx]) auto
  with Some show ?thesis by (simp add: tx_end_def tx_after_def case_prod_unfold)
qed

lemma driver_exec_session:
  "as_session d (driver_ctx a) (wc_session wc) w (wc_session (fst (driver_exec d a wc w)))
     (snd (driver_exec d a wc w))"
proof (cases a)
  case (DPrepare c q)
  then show ?thesis
    by (simp add: conn_PrepareContext_def conn_Prepare_def case_prod_unfold split: option.split sum.split)
next
  case (DBeginTx c opts)
  then show ?thesis
    by (simp add: conn_BeginTx_def as_session_begun split: option.split)
qed (simp_all add: conn_ExecContext_def conn_QueryContext_def conn_Begin_def as_session_conn_finish
    as_session_begun tx_Commit_def tx_Rollback_def as_session_tx_end stmt_Exec_def stmt_Query_def
    stmt_ExecContext_def stmt_QueryContext_def as_session_stmt_finish stmt_Close_def conn_Ping_def
    conn_ResetSession_def conn_Close_def case_prod_unfold split: option.split)

definition driver_holds :: "'db wrapped_conn \<Rightarrow> scope_ref option" where
  "driver_holds wc = session_holds (wc_session wc)"

definition driver_valid :: "'db wrapped_conn \<Rightarrow> bool" where
  "driver_valid wc \<longleftrightarrow> session_valid (wc_session wc)"

definition driver_fresh :: "'db wrapped_conn \<Rightarrow> bool" where
  "driver_fresh wc \<longleftrightarrow> (\<exists>conn db. wc = wrap_conn conn db)"

lemma as_session_laws:
  assumes "as_session d co se w se' w'"
  shows "session_valid se \<Longrightarrow> session_valid se'"
    "w_next_scope w' = w_next_scope w"
    "session_valid se \<Longrightarrow> opens w' s = opens w s - of_bool (session_holds se = Some s) + of_bool (session_holds se' = Some s)"
    "session_valid se \<Longrightarrow> session_holds se' = Some s \<Longrightarrow>
       session_holds se = Some s \<or> (\<exists>k. co = Some k \<and> scopeFrom k = Some s)"
proof -
  consider "se' = se" "w' = w"
    | a where "(se', w') = session_exec d a se w" "session_ctx a \<in> {None, Some Background, co}"
    using assms by (auto simp: as_session_def)
  note alt = this
  have e: "fst (session_exec d a se w) = se'" "snd (session_exec d a se w) = w'"
    if "(se', w') = session_exec d a se w" for a
    using that by (metis fst_conv) (metis that snd_conv)
  show "session_valid se'" if "session_valid se"
    using alt by cases (use that sess.exec_valid[OF that, of d _ w] e in auto)
  show "w_next_scope w' = w_next_scope w"
    using alt by cases (use sess.exec_next[of d _ se w] e in auto)
  show "opens w' s = opens w s - of_bool (session_holds se = Some s) + of_bool (session_holds se' = Some s)"
    if "session_valid se"
    using alt
  proof cases
    case (2 a)
    show ?thesis using sess.exec_count[OF that, of d a w s] e[OF 2(1)] by simp
  qed simp
  show "session_holds se = Some s \<or> (\<exists>k. co = Some k \<and> scopeFrom k = Some s)"
    if "session_valid se" "session_holds se' = Some s"
    using alt
  proof cases
    case (2 a)
    from sess.exec_holds[OF that(1), of d a w s] e[OF 2(1)] 2(2) that(2) show ?thesis
      by (auto simp: scopeFrom_fst)
  qed (use that in simp)
qed

interpretation drv: counted_connections "driver_exec d" driver_ctx driver_holds driver_valid driver_fresh
  for d
proof
  fix a :: "'db driver_action" and wc :: "'db wrapped_conn" and w :: world and s :: scope_ref
  note laws = as_session_laws[OF driver_exec_session[of d a wc w]]
  show "w_next_scope (snd (driver_exec d a wc w)) = w_next_scope w" by (rule laws(2))
  show "driver_fresh wc \<Longrightarrow> driver_valid wc" "driver_fresh wc \<Longrightarrow> driver_holds wc = None"
    by (auto simp: driver_fresh_def driver_valid_def driver_holds_def wrap_conn_def)
  assume "driver_valid wc"
  then have v: "session_valid (wc_session wc)" by (simp add: driver_valid_def)
  show "driver_valid (fst (driver_exec d a wc w))" using laws(1)[OF v] by (simp add: driver_valid_def)
  show "opens (snd (driver_exec d a wc w)) s =
      opens w s - of_bool (driver_holds wc = Some s) + of_bool (driver_holds (fst (driver_exec d a wc w)) = Some s)"
    using laws(3)[OF v] by (simp add: driver_holds_def)
  show "driver_holds (fst (driver_exec d a wc w)) = Some s \<Longrightarrow>
      driver_holds wc = Some s \<or> (\<exists>k. driver_ctx a = Some k \<and> scopeFrom k = Some s)"
    using laws(4)[OF v] by (simp add: driver_holds_def)
qed

text \<open>Any number of wrapped connections, of drivers that answer in any way.\<close>

inductive driver_step :: "detector \<Rightarrow> 'db wrapped_conn list \<times> world \<Rightarrow> 'db wrapped_conn list \<times> world \<Rightarrow> bool" for d where
  dr_open: "wrappedDriver_Open drv name = Inr wc \<Longrightarrow> driver_step d (wcs, w) (wcs @ [wc], w)"
| dr_connect: "wrappedConnector_Connect connector c = Inr wc \<Longrightarrow> driver_step d (wcs, w) (wcs @ [wc], w)"
| dr_call: "i < length wcs \<Longrightarrow> (\<And>k. driver_ctx a = Some k \<Longrightarrow> ctx_ok w k)
    \<Longrightarrow> driver_exec d a (wcs ! i) w = (wc, w') \<Longrightarrow> driver_step d (wcs, w) (wcs[i := wc], w')"
| dr_start: "StartScope d c name (map WithScopeAttrs ass) w = (cr, w') \<Longrightarrow> driver_step d (wcs, w) (wcs, w')"
| dr_finish: "driver_step d (wcs, w) (wcs, finishScope d s w)"
| dr_allow: "AllowInTransactionHere c reason counts w = (c', w') \<Longrightarrow> driver_step d (wcs, w) (wcs, w')"
| dr_check: "driver_step d (wcs, w) (wcs, Check d c oper opts w)"

definition driver_reach :: "detector \<Rightarrow> 'db wrapped_conn list \<times> world \<Rightarrow> bool" where
  "driver_reach d st \<longleftrightarrow> (\<exists>clock callers. (driver_step d)\<^sup>*\<^sup>* ([], initial_world clock callers) st)"

lemma open_fresh:
  "wrappedDriver_Open drv name = Inr wc \<Longrightarrow> driver_fresh wc"
  "wrappedConnector_Connect connector c = Inr wc \<Longrightarrow> driver_fresh wc"
  by (auto simp: wrappedDriver_Open_def wrappedConnector_Connect_def driver_fresh_def split: sum.splits)

lemma driver_step_simulated: "driver_step d st st' \<Longrightarrow> drv.step d st st'"
proof (induction rule: driver_step.induct)
  case (dr_open dr name wc wcs w)
  then show ?case by (intro drv.connect open_fresh(1))
next
  case (dr_connect connector c wc wcs w)
  then show ?case by (intro drv.connect open_fresh(2))
next
  case (dr_call i wcs a w wc w')
  then show ?case by (intro drv.act)
next
  case (dr_start c name ass w cr w' wcs)
  then show ?case using StartScope_grows[of w d c name ass] by (auto intro: drv.elsewhere)
next
  case (dr_finish wcs w s)
  show ?case by (intro drv.elsewhere calm_grows) simp
next
  case (dr_allow c reason counts w c' w' wcs)
  then show ?case
    using calm_grows[OF calm_allow[of w c reason counts]] by (auto intro: drv.elsewhere)
next
  case (dr_check wcs w c oper opts)
  show ?case unfolding Check_def by (intro drv.elsewhere calm_grows) simp
qed

lemma driver_reach_counted:
  assumes "driver_reach d st"
  shows "drv.counted st"
proof -
  obtain clock callers where r: "(driver_step d)\<^sup>*\<^sup>* ([], initial_world clock callers) st"
    using assms by (auto simp: driver_reach_def)
  have "(drv.step d)\<^sup>*\<^sup>* ([], initial_world clock callers) st"
    using r by (induction rule: rtranclp_induct) (auto intro: rtranclp.rtrancl_into_rtrancl driver_step_simulated)
  then show ?thesis by (rule drv.reach_counted) (simp add: drv.counted_start initial_world_def)
qed

lemma driver_reach_step: "driver_reach d st \<Longrightarrow> driver_step d st st' \<Longrightarrow> driver_reach d st'"
  by (auto simp: driver_reach_def intro: rtranclp.rtrancl_into_rtrancl)

lemma driver_reach_initial: "driver_reach d ([], initial_world clock callers)"
  by (auto simp: driver_reach_def)

text \<open>What any further run of the program keeps, and the calls as steps of a run.\<close>

lemma driver_steps_keep:
  assumes "(driver_step d)\<^sup>*\<^sup>* (wcs, w) (wcs', w')"
  shows "length wcs \<le> length wcs'" "w_next_scope w \<le> w_next_scope w'"
proof -
  have "(drv.step d)\<^sup>*\<^sup>* (wcs, w) (wcs', w')"
    using assms by (rule rtranclp_mono[THEN predicate2D, rotated]) (auto intro: driver_step_simulated)
  then show "length wcs \<le> length wcs'" "w_next_scope w \<le> w_next_scope w'"
    using drv.steps_keep by fastforce+
qed

lemma driver_reach_steps: "driver_reach d st \<Longrightarrow> (driver_step d)\<^sup>*\<^sup>* st st' \<Longrightarrow> driver_reach d st'"
  by (auto simp: driver_reach_def intro: rtranclp_trans)

lemma driver_reach_opens:
  assumes "driver_reach d (wcs, w)" "i < length wcs" "s < w_next_scope w"
  shows "sc_openTxs (w_scopes w s)
    = others_hold driver_holds wcs i s + of_bool (session_holds (wc_session (wcs ! i)) = Some s)"
  using drv.counted_others[OF driver_reach_counted[OF assms(1)] assms(2,3)]
  by (simp add: opens_def driver_holds_def)

lemma driver_reach_conn:
  assumes "driver_reach d (wcs, w)" "i < length wcs"
  shows "session_valid (wc_session (wcs ! i))"
    "session_holds (wc_session (wcs ! i)) = Some s \<Longrightarrow> s < w_next_scope w"
  using drv.counted_connection[OF driver_reach_counted[OF assms(1)] assms(2)]
  by (simp_all add: driver_valid_def driver_holds_def)

lemma others_hold_update [simp]: "others_hold holds (cs[i := c]) i s = others_hold holds cs i s"
proof -
  have "filter (\<lambda>j. j \<noteq> i \<and> holds (cs[i := c] ! j) = Some s) [0..<length cs]
      = filter (\<lambda>j. j \<noteq> i \<and> holds (cs ! j) = Some s) [0..<length cs]"
    by (rule filter_cong) auto
  then show ?thesis by (simp add: others_hold_def)
qed

lemma BeginTx_session:
  assumes "conn_BeginTx d c opts wc w = (None, wc1, w1)"
  shows "(wc_session wc1, w1) = BeginTx d c (wc_session wc) w"
proof -
  have "(wc_session wc1, w1) = BeginTx d c (wc_session wc) w"
    if "conn_begun d c (under f wc) w = (None, wc1, w1)" for f
    using that under_fields(1)[of f wc]
    by (cases "under f wc") (auto simp: conn_begun_def on_session_def split: sum.splits prod.splits)
  with assms show ?thesis by (auto simp: conn_BeginTx_def split: option.splits if_splits)
qed

lemma tx_end_session:
  "tx_end m wc w = Some (err, wc1, w1) \<Longrightarrow> (wc_session wc1, w1) = EndTx (wc_session wc) w"
  by (auto simp: tx_end_def under_def on_session_def split: option.splits prod.splits)

subsection \<open>A statement through database/sql\<close>

text \<open>
  \<^verbatim>\<open>database/sql\<close> executes a statement directly and, when the driver skips, prepares it and
  executes the prepared statement on the same connection.
\<close>

definition sql_exec :: "detector \<Rightarrow> ctx \<Rightarrow> string \<Rightarrow> named_value list \<Rightarrow> 'db wrapped_conn \<Rightarrow> world \<Rightarrow> go_result \<times> 'db wrapped_conn \<times> world" where
  "sql_exec d c query args wc w =
     (case conn_ExecContext d c query args wc w of
        ((res, err), wc, w) \<Rightarrow>
          if err \<noteq> Some ErrSkip then ((res, err), wc, w)
          else
            (case conn_PrepareContext d c query wc of
               (Inl err, wc) \<Rightarrow> ((None, Some err), wc, w)
             | (Inr st, wc) \<Rightarrow> stmt_ExecContext d c args st wc w))"

lemma prepare_shape:
  assumes "conn_PrepareContext d c query wc = (Inr st, wc')"
  shows "wc_session wc' = wc_session wc \<and> (\<exists>stmt. st = wrapStmt d stmt query)"
proof -
  have P: "wc_session wc2 = wc_session wc1 \<and> (\<exists>stmt. st = wrapStmt d stmt query)"
    if "(case under f wc1 of (Inl err, wc) \<Rightarrow> (Inl err, wc)
        | (Inr stmt, wc) \<Rightarrow> (Inr (wrapStmt d stmt query), wc)) = (Inr st, wc2)" for f wc1 wc2
    using that under_fields(1)[of f wc1] by (cases "under f wc1") (auto split: sum.splits)
  show ?thesis
    using assms P by (auto simp: conn_PrepareContext_def conn_Prepare_def split: option.splits)
qed

lemma errors_Is_simps [simp]:
  "errors_Is None t = False" "errors_Is (Some ErrSkip) ErrSkip" "errors_Is (Some ErrBadConn) ErrBadConn"
  "\<not> errors_Is (Some ErrSkip) ErrBadConn" "\<not> errors_Is (Some ErrBadConn) ErrSkip"
  by (simp_all add: errors_Is_def)

lemma conn_finish_cases:
  "conn_finish d c query out w =
     (if errors_Is (snd (fst out)) ErrSkip then ((None, Some ErrSkip), snd out, w)
      else if errors_Is (snd (fst out)) ErrBadConn then ((None, snd (fst out)), snd out, w)
      else (fst out, on_session (Observe d c query) (snd out) w))"
  by (simp add: conn_finish_def case_prod_unfold)

lemma stmt_finish_cases:
  "stmt_finish d c (wrapStmt d stmt query) out w =
     (if errors_Is (snd (fst out)) ErrBadConn then ((None, snd (fst out)), snd out, w)
      else (fst out, on_session (Observe d c query) (snd out) w))"
  by (simp add: stmt_finish_def stmt_observe_Observe case_prod_unfold)

lemma observed_once:
  assumes "wc_session wc1 = wc_session wc" "on_session (Observe d c query) wc1 w = (wc', w')"
  shows "(wc_session wc', w') = Observe d c query (wc_session wc) w"
  using assms on_session_fields(1,2)[of "Observe d c query" wc1 w] by simp

text \<open>
  \<^verbatim>\<open>database/sql\<close> runs a query in the same way, and either again on further connections, its
  pool's and then a new one, while the answer is that the connection is bad.
\<close>

definition sql_query :: "detector \<Rightarrow> ctx \<Rightarrow> string \<Rightarrow> named_value list \<Rightarrow> 'db wrapped_conn \<Rightarrow> world \<Rightarrow> go_result \<times> 'db wrapped_conn \<times> world" where
  "sql_query d c query args wc w =
     (case conn_QueryContext d c query args wc w of
        ((res, err), wc, w) \<Rightarrow>
          if err \<noteq> Some ErrSkip then ((res, err), wc, w)
          else
            (case conn_PrepareContext d c query wc of
               (Inl err, wc) \<Rightarrow> ((None, Some err), wc, w)
             | (Inr st, wc) \<Rightarrow> stmt_QueryContext d c args st wc w))"

fun sql_retry :: "('db wrapped_conn \<Rightarrow> world \<Rightarrow> go_result \<times> 'db wrapped_conn \<times> world) \<Rightarrow> 'db wrapped_conn list \<Rightarrow> world \<Rightarrow> go_result \<times> 'db wrapped_conn list \<times> world" where
  "sql_retry run [] w = ((None, Some ErrBadConn), [], w)"
| "sql_retry run (wc # wcs) w =
     (case run wc w of
        (r, wc', w') \<Rightarrow>
          if errors_Is (snd r) ErrBadConn \<and> wcs \<noteq> [] then
            (case sql_retry run wcs w' of (r, wcs', w'') \<Rightarrow> (r, wc' # wcs', w''))
          else (r, wc' # wcs, w'))"

definition observed_at_most_once :: "detector \<Rightarrow> ctx \<Rightarrow> string \<Rightarrow> session \<Rightarrow> world \<Rightarrow> go_error option \<Rightarrow> session \<Rightarrow> world \<Rightarrow> bool" where
  "observed_at_most_once d c query se w err se' w' \<longleftrightarrow>
     se' = se \<and> w' = w \<and> err \<noteq> None
   \<or> (se', w') = Observe d c query se w \<and> \<not> errors_Is err ErrBadConn"

lemma errors_Is_some: "errors_Is err t \<Longrightarrow> \<exists>e. err = Some e"
  by (cases err) simp_all

lemma fallback_outcome:
  assumes "(case conn_finish d c query out w of
      ((res, err), wc, w) \<Rightarrow>
        if err \<noteq> Some ErrSkip then ((res, err), wc, w)
        else (case conn_PrepareContext d c query wc of
             (Inl err, wc) \<Rightarrow> ((None, Some err), wc, w)
           | (Inr st, wc) \<Rightarrow> stmt_finish d c st (f st wc) w)) = ((res, err), wc', w')"
    and out: "wc_session (snd out) = wc_session wc" and f: "\<And>st wc. wc_session (snd (f st wc)) = wc_session wc"
  shows "observed_at_most_once d c query (wc_session wc) w err (wc_session wc') w'"
proof (cases "errors_Is (snd (fst out)) ErrSkip")
  case False
  with assms(1) have "errors_Is err ErrBadConn \<and> wc' = snd out \<and> w' = w
      \<or> \<not> errors_Is err ErrBadConn \<and> on_session (Observe d c query) (snd out) w = (wc', w')"
    by (auto simp: conn_finish_cases split: if_splits prod.splits)
  with observed_once[OF out] out show ?thesis
    by (auto simp: observed_at_most_once_def errors_Is_some)
next
  case True
  show ?thesis
  proof (cases "fst (conn_PrepareContext d c query (snd out))")
    case (Inl e)
    with True assms(1) have "err = Some e" "wc' = snd (conn_PrepareContext d c query (snd out))" "w' = w"
      by (auto simp: conn_finish_cases split: prod.splits)
    moreover have "wc_session (snd (conn_PrepareContext d c query (snd out))) = wc_session (snd out)"
      by (simp add: conn_PrepareContext_def conn_Prepare_def case_prod_unfold split: option.split sum.split)
    ultimately show ?thesis using out by (simp add: observed_at_most_once_def)
  next
    case (Inr st)
    then obtain wc1 where p: "conn_PrepareContext d c query (snd out) = (Inr st, wc1)"
      by (cases "conn_PrepareContext d c query (snd out)") simp
    obtain stmt where st: "st = wrapStmt d stmt query" and wc1: "wc_session wc1 = wc_session wc"
      using prepare_shape[OF p] out by auto
    have "stmt_finish d c st (f st wc1) w = ((res, err), wc', w')"
      using assms(1) True p by (simp add: conn_finish_cases)
    then have "errors_Is err ErrBadConn \<and> wc' = snd (f st wc1) \<and> w' = w
        \<or> \<not> errors_Is err ErrBadConn \<and> on_session (Observe d c query) (snd (f st wc1)) w = (wc', w')"
      by (auto simp: st stmt_finish_cases split: if_splits)
    with observed_once[of "snd (f st wc1)" wc] f wc1 show ?thesis
      by (auto simp: observed_at_most_once_def errors_Is_some)
  qed
qed

lemma exec_outcome:
  assumes "run = sql_exec d c query args \<or> run = sql_query d c query args" "run wc w = ((res, err), wc', w')"
  shows "observed_at_most_once d c query (wc_session wc) w err (wc_session wc') w'"
  using assms(1)
proof
  assume "run = sql_exec d c query args"
  from fallback_outcome[where out = "conn_execUnderlying c query args wc" and f = "stmt_execUnderlying c args",
      OF assms(2)[unfolded this sql_exec_def conn_ExecContext_def stmt_ExecContext_def]]
  show ?thesis using stmt_underlying_session execUnderlying_session by blast
next
  assume "run = sql_query d c query args"
  from fallback_outcome[where out = "conn_queryUnderlying c query args wc" and f = "stmt_queryUnderlying c args",
      OF assms(2)[unfolded this sql_query_def conn_QueryContext_def stmt_QueryContext_def]]
  show ?thesis using stmt_underlying_session execUnderlying_session by blast
qed

text \<open>A driver that accepts everything, for concrete runs.\<close>

definition demo_tx :: "unit driver_tx" where
  "demo_tx = \<lparr>dt_Commit = (\<lambda>db. (Some (ErrOther ''commit failed''), db)), dt_Rollback = (\<lambda>db. (None, db))\<rparr>"

definition demo_stmt :: "unit driver_stmt" where
  "demo_stmt = \<lparr>dm_Close = (\<lambda>db. (None, db)), dm_NumInput = 0, dm_Exec = (\<lambda>vals db. ((Some (AnyInt 1), None), db)),
     dm_Query = (\<lambda>vals db. ((None, None), db)), dm_ExecContext = None, dm_QueryContext = None,
     dm_CheckNamedValue = None\<rparr>"

definition demo_conn :: "unit driver_conn" where
  "demo_conn = \<lparr>dc_Prepare = (\<lambda>q db. (Inr demo_stmt, db)), dc_PrepareContext = None,
     dc_Close = (\<lambda>db. (None, db)), dc_Begin = (\<lambda>db. (Inr demo_tx, db)), dc_BeginTx = None,
     dc_ExecContext = None, dc_Exec = None, dc_QueryContext = None, dc_Query = None,
     dc_Ping = None, dc_ResetSession = None, dc_IsValid = None, dc_CheckNamedValue = None\<rparr>"

definition started_world :: "detector \<Rightarrow> world" where
  "started_world d = snd (StartScope d Background ''S'' [] (initial_world int (\<lambda>_. [])))"

lemma started_reach: "driver_reach d ([wrap_conn demo_conn ()], started_world d)"
proof -
  let ?w0 = "initial_world int (\<lambda>_. [])"
  have "driver_reach d ([], started_world d)"
    by (rule driver_reach_step[OF driver_reach_initial[of d int "\<lambda>_. []"]
          dr_start[of d Background "''S''" "[]" ?w0 "fst (StartScope d Background ''S'' [] ?w0)"]])
      (simp add: started_world_def)
  from driver_reach_step[OF this dr_open[of "\<lambda>n. Inr (demo_conn, ())" "[]"]]
  show ?thesis by (simp add: wrappedDriver_Open_def)
qed

lemma started_next [simp]: "w_next_scope (started_world d) = 1"
  by (simp add: started_world_def StartScope_def Let_def initial_world_def)

text \<open>The world in which one textual BEGIN was observed, and what a checkpoint makes of it.\<close>

definition begun_world :: world where
  "begun_world = add_openTxs 0 1 (started_world (New [WithReporter [CollectingReporter 0]]))"

lemma collecting_detector:
  "d_classify (New [WithReporter [CollectingReporter r]]) = DefaultClassifier"
  "d_stmtCheckers (New [WithReporter [CollectingReporter r]]) = []"
  "d_reporters (New [WithReporter [CollectingReporter r]]) = [CollectingReporter r]"
  "d_allowlist (New [WithReporter [CollectingReporter r]]) = None"
  "d_attrsFunc (New [WithReporter [CollectingReporter r]]) = None"
  by (simp_all add: New_def WithReporter_def)

lemma begun_world_scope: "w_scopes begun_world 0 = (new_scope ''S'')\<lparr>sc_openTxs := 1\<rparr>"
  by (simp add: begun_world_def started_world_def StartScope_def Let_def collecting_detector add_openTxs_def new_scope_def
      initial_world_def)

definition begun_conn :: "unit wrapped_conn" where
  "begun_conn = (wrap_conn demo_conn ())\<lparr>wc_session := \<lparr>se_inTx = True, se_txScope = Some 0\<rparr>\<rparr>"

lemma begun_next [simp]: "w_next_scope begun_world = 1"
  by (simp add: begun_world_def add_openTxs_def)

lemma begun_reach: "driver_reach (New [WithReporter [CollectingReporter 0]]) ([begun_conn], begun_world)"
proof -
  let ?d = "New [WithReporter [CollectingReporter 0]]"
  have "DefaultClassifier ''BEGIN'' = KindBegin" by code_simp
  then have "driver_exec ?d (DStmtExecContext demo_stmt ''BEGIN'' demo_ctx []) ([wrap_conn demo_conn ()] ! 0) (started_world ?d)
      = (begun_conn, begun_world)"
    by (simp add: stmt_ExecContext_def stmt_finish_cases stmt_execUnderlying_def demo_stmt_def under_def
        on_session_def Observe_def collecting_detector openTx_def begun_world_def begun_conn_def wrap_conn_def NewSession_def)
  from driver_reach_step[OF started_reach dr_call[OF _ _ this]] show ?thesis by (simp add: ctx_ok_def)
qed

lemma begun_collector: "rs_collectors (w_rs begun_world) 0 = new_collector"
  by (simp add: begun_world_def started_world_def StartScope_def Let_def collecting_detector add_openTxs_def
      report_nested_def initial_world_def scopeFrom_fst initial_store_def)

text \<open>
  A checkpoint without options that reports one violation, with the scope's name and its counter,
  to every reporter.
\<close>

definition Check_violates :: "detector \<Rightarrow> ctx \<Rightarrow> op \<Rightarrow> scope_ref \<Rightarrow> world \<Rightarrow> bool" where
  "Check_violates d c oper s w \<longleftrightarrow>
     (\<exists>v. v_Op v = oper \<and> v_Scope v = sc_name (w_scopes w s) \<and> v_OpenTxs v = sc_openTxs (w_scopes w s)
        \<and> w_rs (Check d c oper [] w) = deliver_all (d_reporters d) (RViolation v)
             ((w_rs w)\<lparr>rs_reads := Suc (rs_reads (w_rs w))\<rparr>))"

lemma open_scope_violates:
  assumes "scopeAndMarkFrom c = (Some s, None)" "d_allowlist d = None" "0 < sc_openTxs (w_scopes w s)"
  shows "Check_violates d c oper s w"
  unfolding Check_violates_def Check_open[OF assms(1,3)] decide_rs
  using assms(2)
  by (intro exI conjI if_not_P) (simp_all add: option_covers_def region_covers_def list_covers_def appliedCheckConfig_def zero_config_def)

lemma violates_collected:
  assumes "Check_violates d c oper s w" "d_reporters d = [CollectingReporter r]" "rs_collectors (w_rs w) r = new_collector"
  shows "map (\<lambda>v. (v_Scope v, v_OpenTxs v)) (Violations (rs_collectors (w_rs (Check d c oper [] w)) r))
    = [(sc_name (w_scopes w s), sc_openTxs (w_scopes w s))]"
  using assms by (auto simp: Check_violates_def collector_receive_def Violations_def new_collector_def)

subsection \<open>Properties\<close>

text \<open>
  C4. Behind database/sql, with any number of wrapped connections and drivers that fail in any
  way, the counter of every scope is the number of wrapped connections whose transaction is
  attributed to it, whatever mixture of driver-level transactions, textual transaction
  control, prepared statements, errors, retries and closes brought them there.
\<close>

theorem driver_counter_exact:
  assumes "driver_reach d (wcs, w)" "s < w_next_scope w"
  shows "sc_openTxs (w_scopes w s)
      = int (length (filter (\<lambda>wc. session_holds (wc_session wc) = Some s) wcs))"
  using driver_reach_counted[OF assms(1)] assms(2)
  by (simp add: drv.counted_def opens_def tx_count_filter driver_holds_def)

theorem driver_counter_exact_witness:
  "sc_openTxs (w_scopes begun_world 0) = 1"
  using driver_counter_exact[OF begun_reach, of 0] by (simp add: begun_conn_def session_holds_def)

text \<open>
  A statement that succeeds is observed exactly once, whichever path executed it: directly,
  or by the fallback to a prepared statement when the driver skips. The connection's
  transaction state and everything the detector does, statement-checker reports included, are
  those of one \<^verbatim>\<open>Observe\<close> of its text.
\<close>

theorem successful_statement_observed_once:
  assumes "sql_exec d c query args wc w = ((res, None), wc', w')"
  shows "(wc_session wc', w') = Observe d c query (wc_session wc) w"
proof -
  let ?out = "conn_execUnderlying c query args wc"
  show ?thesis
  proof (cases "errors_Is (snd (fst ?out)) ErrSkip")
    case False
    then have "on_session (Observe d c query) (snd ?out) w = (wc', w')"
      using assms by (auto simp: sql_exec_def conn_ExecContext_def conn_finish_cases split: if_splits prod.splits)
    then show ?thesis by (rule observed_once[rotated]) simp
  next
    case True
    then have direct: "conn_ExecContext d c query args wc w = ((None, Some ErrSkip), snd ?out, w)"
      by (simp add: conn_ExecContext_def conn_finish_cases)
    with assms obtain st wc1 where p: "conn_PrepareContext d c query (snd ?out) = (Inr st, wc1)"
      by (auto simp: sql_exec_def split: prod.splits sum.splits)
    obtain stmt where st: "st = wrapStmt d stmt query" and wc1: "wc_session wc1 = wc_session wc"
      using prepare_shape[OF p] by auto
    have "stmt_ExecContext d c args st wc1 w = ((res, None), wc', w')"
      using assms direct p by (simp add: sql_exec_def)
    then have "on_session (Observe d c query) (snd (stmt_execUnderlying c args st wc1)) w = (wc', w')"
      by (auto simp: st stmt_ExecContext_def stmt_finish_cases split: if_splits)
    then show ?thesis by (rule observed_once[rotated]) (simp add: wc1)
  qed
qed

theorem successful_statement_observed_once_witness:
  "let d = New [WithClassifier (\<lambda>q. KindBegin)];
       (r, wc', w') = sql_exec d demo_ctx ''BEGIN'' [] (wrap_conn demo_conn ()) (started_world d)
   in snd r = None \<and> (wc_session wc', w') = Observe d demo_ctx ''BEGIN'' NewSession (started_world d)"
proof -
  let ?d = "New [WithClassifier (\<lambda>q. KindBegin)]"
  obtain r wc' w' where run: "sql_exec ?d demo_ctx ''BEGIN'' [] (wrap_conn demo_conn ()) (started_world ?d) = (r, wc', w')"
    by (cases "sql_exec ?d demo_ctx ''BEGIN'' [] (wrap_conn demo_conn ()) (started_world ?d)")
  moreover have "snd (fst (sql_exec ?d demo_ctx ''BEGIN'' [] (wrap_conn demo_conn ()) (started_world ?d))) = None"
    by (simp add: sql_exec_def conn_ExecContext_def conn_execUnderlying_def conn_finish_def wrap_conn_def
        demo_conn_def conn_PrepareContext_def conn_Prepare_def under_def stmt_ExecContext_def
        stmt_execUnderlying_def wrapStmt_def demo_stmt_def stmt_finish_def case_prod_unfold)
  ultimately have "snd r = None" by simp
  then have "r = (fst r, None)" by (metis prod.collapse)
  with successful_statement_observed_once[of ?d demo_ctx "''BEGIN''" "[]" "wrap_conn demo_conn ()" "started_world ?d" "fst r" wc' w'] run \<open>snd r = None\<close>
  show ?thesis by (simp add: wrap_conn_def Let_def)
qed

text \<open>
  C13. A statement is observed at most once, however \<^verbatim>\<open>database/sql\<close> gets it executed: as an
  exec or a query, directly or by the fallback to a prepared statement when the driver skips,
  and again on further connections while they turn out to be bad. Either no connection
  observed it, which is never so when it succeeded, and then nothing changed at all; or exactly
  one connection did, as one \<^verbatim>\<open>Observe\<close> of its text on the world from before the first attempt,
  whatever the other attempts were, and then the answer is not that the connection is bad.
\<close>

theorem statement_observed_once_across_retries:
  assumes "run = sql_exec d c query args \<or> run = sql_query d c query args"
    "sql_retry run wcs w = ((res, err), wcs', w')"
  shows "err \<noteq> None \<and> map wc_session wcs' = map wc_session wcs \<and> w' = w
    \<or> \<not> errors_Is err ErrBadConn
      \<and> (\<exists>i < length wcs. case Observe d c query (wc_session (wcs ! i)) w of
           (se, w1) \<Rightarrow> map wc_session wcs' = (map wc_session wcs)[i := se] \<and> w' = w1)"
  using assms(2)
proof (induction wcs arbitrary: wcs')
  case (Cons wc wcs)
  obtain res1 err1 wc1 w1 where run: "run wc w = ((res1, err1), wc1, w1)" by (metis surj_pair)
  note once = exec_outcome[OF assms(1) run]
  show ?case
  proof (cases "errors_Is err1 ErrBadConn \<and> wcs \<noteq> []")
    case True
    with once have same: "wc_session wc1 = wc_session wc" "w1 = w" by (auto simp: observed_at_most_once_def)
    obtain wcs1 where rest: "sql_retry run wcs w = ((res, err), wcs1, w')" "wcs' = wc1 # wcs1"
      using Cons.prems run True same by (auto split: prod.splits)
    from Cons.IH[OF rest(1)] show ?thesis
    proof
      assume "\<not> errors_Is err ErrBadConn \<and> (\<exists>i < length wcs. case Observe d c query (wc_session (wcs ! i)) w of
           (se, w1) \<Rightarrow> map wc_session wcs1 = (map wc_session wcs)[i := se] \<and> w' = w1)"
      then obtain i where "\<not> errors_Is err ErrBadConn" "Suc i < length (wc # wcs)"
        "case Observe d c query (wc_session ((wc # wcs) ! Suc i)) w of
           (se, w1) \<Rightarrow> map wc_session wcs' = (map wc_session (wc # wcs))[Suc i := se] \<and> w' = w1"
        by (auto simp: rest(2) same)
      then show ?thesis by (intro disjI2 conjI exI[of _ "Suc i"])
    qed (simp add: rest(2) same)
  next
    case False
    with Cons.prems run have "wcs' = wc1 # wcs" "w' = w1" "err = err1" by (auto split: if_splits)
    with once show ?thesis
      by (auto simp: observed_at_most_once_def intro!: exI[of _ 0] split: prod.splits)
  qed
qed auto

text \<open>A driver whose direct execution finds the connection bad.\<close>

definition bad_conn :: "unit driver_conn" where
  "bad_conn = demo_conn\<lparr>dc_ExecContext := Some (\<lambda>c q args db. ((None, Some (ErrWrap ''reset by peer'' [ErrBadConn])), db))\<rparr>"

theorem statement_observed_once_across_retries_witness:
  "let d = New [WithClassifier (\<lambda>q. KindBegin)];
       (r, wcs', w') = sql_retry (sql_exec d demo_ctx ''BEGIN'' []) [wrap_conn bad_conn (), wrap_conn demo_conn ()] (started_world d)
   in snd r = None \<and> sc_openTxs (w_scopes w' 0) = 1"
proof -
  let ?d = "New [WithClassifier (\<lambda>q. KindBegin)]"
  let ?wcs = "[wrap_conn bad_conn (), wrap_conn demo_conn ()]"
  let ?run = "sql_retry (sql_exec ?d demo_ctx ''BEGIN'' []) ?wcs (started_world ?d)"
  obtain res err wcs' w' where run: "?run = ((res, err), wcs', w')" by (metis surj_pair)
  have "snd (fst ?run) = None"
    by (simp add: sql_exec_def conn_ExecContext_def conn_execUnderlying_def conn_finish_def wrap_conn_def bad_conn_def
        demo_conn_def conn_PrepareContext_def conn_Prepare_def under_def stmt_ExecContext_def errors_Is_def
        stmt_execUnderlying_def wrapStmt_def demo_stmt_def stmt_finish_def case_prod_unfold)
  with run have err: "err = None" by simp
  have kind: "d_classify ?d ''BEGIN'' = KindBegin" "d_stmtCheckers ?d = []" "d_attrsFunc ?d = None"
    by (simp_all add: New_def WithClassifier_def)
  have "sc_openTxs (w_scopes (snd (Observe ?d demo_ctx ''BEGIN'' NewSession (started_world ?d))) 0) = 1"
    by (simp add: Observe_def kind openTx_def NewSession_def started_world_def StartScope_def Let_def add_openTxs_def
        new_scope_def initial_world_def)
  moreover have "\<exists>i < length ?wcs. w' = snd (Observe ?d demo_ctx ''BEGIN'' (wc_session (?wcs ! i)) (started_world ?d))"
    using statement_observed_once_across_retries[OF disjI1[OF refl] run] err by (auto simp: case_prod_unfold)
  ultimately have "sc_openTxs (w_scopes w' 0) = 1" by (auto simp: less_Suc_eq wrap_conn_def)
  then show ?thesis unfolding Let_def run by (simp add: err)
qed

text \<open>
  C18. A driver-level transaction leaves every counter balanced, whatever runs inside it. From
  any reachable state, a connection begins a transaction; the program then goes on in any way:
  this connection executes any statements, textual transaction control included, other wrapped
  connections are opened and used, scopes start and finish, checkpoints run; at last the
  connection commits or rolls back, and the driver may answer with an error. Then the connection
  is outside any transaction, and the counter of every scope that existed at the begin has moved
  by what the other connections gained or lost in between, down by one exactly where this
  connection held a transaction, textual or not, before the begin: of its own transaction
  nothing is left. (The begin's context refers to no scope that was never started.)
\<close>

theorem driver_transaction_balanced:
  assumes "driver_reach d (wcs, w)" "i < length wcs" "ctx_ok w c"
    "conn_BeginTx d c opts (wcs ! i) w = (None, wc1, w1)"
    "(driver_step d)\<^sup>*\<^sup>* (wcs[i := wc1], w1) (wcs2, w2)"
    "tx_Commit (wcs2 ! i) w2 = Some (err, wc3, w3) \<or> tx_Rollback (wcs2 ! i) w2 = Some (err, wc3, w3)"
    "s < w_next_scope w"
  shows "tx_state (wc_session wc1) = Some (scopeFrom c)
    \<and> tx_state (wc_session wc3) = None
    \<and> sc_openTxs (w_scopes w3 s) = sc_openTxs (w_scopes w s)
        - of_bool (session_holds (wc_session (wcs ! i)) = Some s)
        + (others_hold driver_holds wcs2 i s - others_hold driver_holds wcs i s)"
proof -
  have "driver_exec d (DBeginTx c opts) (wcs ! i) w = (wc1, w1)" using assms(4) by simp
  from dr_call[OF assms(2) _ this] assms(3) have "driver_step d (wcs, w) (wcs[i := wc1], w1)" by simp
  then have r1: "driver_reach d (wcs[i := wc1], w1)" by (rule driver_reach_step[OF assms(1)])
  have "w_next_scope w1 = w_next_scope w"
    using drv.exec_next[of d "DBeginTx c opts" "wcs ! i" w] assms(4) by simp
  with driver_steps_keep[OF assms(5)] assms(2,7) have i: "i < length wcs2" "s < w_next_scope w2" by simp_all
  note r2 = driver_reach_steps[OF r1 assms(5)]
  obtain a where a: "a = DCommit \<or> a = DRollback" "driver_exec d a (wcs2 ! i) w2 = (wc3, w3)"
    using assms(6)
  proof
    assume "tx_Commit (wcs2 ! i) w2 = Some (err, wc3, w3)"
    then show thesis by (intro that[of DCommit]) (simp_all add: tx_after_def)
  next
    assume "tx_Rollback (wcs2 ! i) w2 = Some (err, wc3, w3)"
    then show thesis by (intro that[of DRollback]) (simp_all add: tx_after_def)
  qed
  from dr_call[OF i(1) _ a(2)] a(1) have "driver_step d (wcs2, w2) (wcs2[i := wc3], w3)" by auto
  from driver_reach_opens[OF driver_reach_step[OF r2 this], of i s] i
  have w3: "sc_openTxs (w_scopes w3 s) = others_hold driver_holds wcs2 i s + of_bool (session_holds (wc_session wc3) = Some s)"
    using drv.exec_next[of d a "wcs2 ! i" w2] a(2) by simp
  have e: "(wc_session wc3, w3) = EndTx (wc_session (wcs2 ! i)) w2"
    using assms(6) tx_end_session unfolding tx_Commit_def tx_Rollback_def by blast
  have wc3: "wc_session wc3 = NewSession"
    using closeTx_effect(1)[OF driver_reach_conn(1)[OF r2 i(1)], of w2] e by (simp add: EndTx_def) (metis fst_conv)
  have "wc_session wc1 = \<lparr>se_inTx = True, se_txScope = scopeFrom c\<rparr>"
    using BeginTx_session[OF assms(4)] openTx_effect(1)[of d c]
    by (simp add: BeginTx_def case_prod_unfold) (metis fst_conv)
  with wc3 w3 driver_reach_opens[OF assms(1,2,7)] show ?thesis
    by (simp add: tx_state_def) (simp add: NewSession_def)
qed

text \<open>A begin over an open textual transaction, another connection and a checkpoint, a failing commit.\<close>

theorem driver_transaction_balanced_witness:
  "let d = New [WithReporter [CollectingReporter 0]];
       (e1, wc1, w1) = conn_BeginTx d demo_ctx zero_tx_options begun_conn begun_world;
       w2 = Check d demo_ctx (Op ''mail'' ''m'') [] w1;
       out = tx_Commit wc1 w2
   in sc_openTxs (w_scopes begun_world 0) = 1
    \<and> map_option fst out = Some (Some (ErrOther ''commit failed''))
    \<and> map_option (\<lambda>(e, wc3, w3). sc_openTxs (w_scopes w3 0)) out = Some 0"
proof -
  let ?d = "New [WithReporter [CollectingReporter 0]]"
  obtain e1 wc1 w1 where b: "conn_BeginTx ?d demo_ctx zero_tx_options begun_conn begun_world = (e1, wc1, w1)"
    by (cases "conn_BeginTx ?d demo_ctx zero_tx_options begun_conn begun_world")
  define w2 where "w2 = Check ?d demo_ctx (Op ''mail'' ''m'') [] w1"
  have "e1 = None" "wc_wtx wc1 = Some demo_tx"
    using b by (auto simp: conn_BeginTx_def begun_conn_def wrap_conn_def demo_conn_def conn_begun_def under_def case_prod_unfold)
  moreover from this obtain wc3 w3 where c: "tx_Commit wc1 w2 = Some (Some (ErrOther ''commit failed''), wc3, w3)"
    by (cases "on_session EndTx (wc1\<lparr>wc_db := ()\<rparr>) w2")
      (simp add: tx_Commit_def tx_end_def demo_tx_def under_def case_prod_unfold)
  moreover have "(driver_step ?d)\<^sup>*\<^sup>* ([wc1], w1) ([wc1] @ [wrap_conn demo_conn ()], w2)"
    using dr_open[of "\<lambda>n. Inr (demo_conn, ())" "[]" "wrap_conn demo_conn ()" ?d "[wc1]" w1]
      dr_check[of ?d "[wc1] @ [wrap_conn demo_conn ()]" w1 demo_ctx "Op ''mail'' ''m''" "[]"]
    unfolding w2_def by (auto simp: wrappedDriver_Open_def)
  ultimately have "sc_openTxs (w_scopes w3 0) = sc_openTxs (w_scopes begun_world 0)
      - of_bool (session_holds (wc_session begun_conn) = Some 0)
      + (others_hold driver_holds ([wc1] @ [wrap_conn demo_conn ()]) 0 0 - others_hold driver_holds [begun_conn] 0 0)"
    using driver_transaction_balanced[OF begun_reach, of 0 demo_ctx zero_tx_options wc1 w1
        "[wc1] @ [wrap_conn demo_conn ()]" w2 "Some (ErrOther ''commit failed'')" wc3 w3 0] b
    by (simp add: ctx_ok_def)
  then have "sc_openTxs (w_scopes w3 0) = 0"
    by (simp add: begun_world_scope begun_conn_def session_holds_def others_hold_def driver_holds_def wrap_conn_def NewSession_def upt_rec)
  then show ?thesis by (simp add: b c Let_def begun_world_scope flip: w2_def)
qed

text \<open>
  C37. A textual BEGIN that the database refuses is observed as if it had opened a transaction.
  On a well-formed connection outside any transaction, with a context of a scope outside every
  allow region, the scope's counter not negative (it never is in a reachable state), let the direct execution of a statement that classifies as a begin,
  as an exec or as a query, return an error that is neither \<^verbatim>\<open>driver.ErrSkip\<close> nor
  \<^verbatim>\<open>driver.ErrBadConn\<close>. Then the connection counts as inside a transaction of the scope, the
  scope's counter is up by one, and without an allowlist the next checkpoint of the scope without
  options reports a violation although the database opened no transaction. A refused driver-level
  begin, in contrast, moves neither the connection's state nor anything of the detector's.
\<close>

theorem refused_begin_counts_as_open:
  assumes "d_classify d query = KindBegin" "session_valid (wc_session wc)" "tx_state (wc_session wc) = None"
    "scopeAndMarkFrom c = (Some s, None)" "0 \<le> sc_openTxs (w_scopes w s)" "d_allowlist d = None"
    "run = conn_ExecContext d c query args \<or> run = conn_QueryContext d c query args"
    "run wc w = ((res, Some e), wc1, w1)" "\<not> errors_Is (Some e) ErrSkip" "\<not> errors_Is (Some e) ErrBadConn"
  shows "tx_state (wc_session wc1) = Some (Some s)
    \<and> sc_openTxs (w_scopes w1 s) = sc_openTxs (w_scopes w s) + 1
    \<and> Check_violates d c oper s w1
    \<and> (conn_BeginTx d c opts wc w = (Some e', wc2, w2) \<longrightarrow> wc_session wc2 = wc_session wc \<and> w2 = w)"
proof -
  have scope: "scopeFrom c = Some s" using assms(4) by (simp add: scopeFrom_fst)
  have "(wc_session wc1, w1) = Observe d c query (wc_session wc) w"
    if "conn_finish d c query out w = ((res, Some e), wc1, w1)" "wc_session (snd out) = wc_session wc" for out
    using that assms(9,10) observed_once[OF that(2), of d c query w wc1 w1]
    by (auto simp: conn_finish_cases split: if_splits)
  note observed = this
  have o: "(wc_session wc1, w1) = Observe d c query (wc_session wc) w"
    using assms(7)
  proof
    assume "run = conn_ExecContext d c query args"
    with assms(8) show ?thesis by (intro observed[of "conn_execUnderlying c query args wc"]) (simp_all add: conn_ExecContext_def)
  next
    assume "run = conn_QueryContext d c query args"
    with assms(8) show ?thesis by (intro observed[of "conn_queryUnderlying c query args wc"]) (simp_all add: conn_QueryContext_def)
  qed
  have st: "tx_state (wc_session wc1) = Some (Some s)"
    using arg_cong[OF o, of fst] observeKind_spec(2)[OF assms(2), of d c query KindBegin w] assms(1,3) scope
    by (simp add: Observe_parts)
  moreover have "opens w1 s = opens w s + 1"
    using sess.exec_count[OF assms(2), of d "AObserve c query" w s] o[symmetric] st assms(3)
    by (simp add: session_holds_state tx_holds_def)
  moreover have "wc_session wc2 = wc_session wc \<and> w2 = w" if b: "conn_BeginTx d c opts wc w = (Some e', wc2, w2)"
  proof -
    have "wc_session wc2 = wc_session wc \<and> w2 = w" if "conn_begun d c (under f wc) w = (Some e', wc2, w2)" for f
      using that under_fields(1)[of f wc] by (cases "under f wc") (auto simp: conn_begun_def split: sum.splits prod.splits)
    with b show ?thesis by (auto simp: conn_BeginTx_def split: option.splits if_splits)
  qed
  ultimately show ?thesis
    using assms(5) open_scope_violates[OF assms(4,6), of w1 oper] by (simp add: opens_def)
qed

text \<open>A database that refuses both kinds of begin.\<close>

definition refusing_conn :: "unit driver_conn" where
  "refusing_conn = demo_conn\<lparr>dc_ExecContext := Some (\<lambda>c q args db. ((None, Some (ErrOther ''refused'')), db)),
     dc_Begin := (\<lambda>db. (Inl (ErrOther ''refused''), db))\<rparr>"

theorem refused_begin_counts_as_open_witness:
  "let d = New [WithReporter [CollectingReporter 0]];
       (r, wc1, w1) = conn_ExecContext d demo_ctx ''BEGIN'' [] (wrap_conn refusing_conn ()) (started_world d);
       (err, wc2, w2) = conn_BeginTx d demo_ctx zero_tx_options (wrap_conn refusing_conn ()) (started_world d)
   in r = (None, Some (ErrOther ''refused'')) \<and> tx_state (wc_session wc1) = Some (Some 0)
    \<and> sc_openTxs (w_scopes w1 0) = 1 \<and> Check_violates d demo_ctx (Op ''mail'' ''m'') 0 w1
    \<and> err = Some (ErrOther ''refused'') \<and> w2 = started_world d"
proof -
  let ?d = "New [WithReporter [CollectingReporter 0]]"
  let ?wc = "wrap_conn refusing_conn ()"
  obtain r wc1 w1 where run: "conn_ExecContext ?d demo_ctx ''BEGIN'' [] ?wc (started_world ?d) = (r, wc1, w1)"
    by (cases "conn_ExecContext ?d demo_ctx ''BEGIN'' [] ?wc (started_world ?d)")
  then have r: "r = (None, Some (ErrOther ''refused''))"
    by (auto simp: conn_ExecContext_def conn_finish_cases conn_execUnderlying_def wrap_conn_def refusing_conn_def
        demo_conn_def under_def errors_Is_def)
  obtain err wc2 w2 where b: "conn_BeginTx ?d demo_ctx zero_tx_options ?wc (started_world ?d) = (err, wc2, w2)"
    by (cases "conn_BeginTx ?d demo_ctx zero_tx_options ?wc (started_world ?d)")
  then have err: "err = Some (ErrOther ''refused'')"
    by (auto simp: conn_BeginTx_def refusing_conn_def demo_conn_def wrap_conn_def conn_begun_def under_def)
  have k: "DefaultClassifier ''BEGIN'' = KindBegin" by code_simp
  have zero: "sc_openTxs (w_scopes (started_world ?d) 0) = 0"
    by (simp add: started_world_def StartScope_def Let_def collecting_detector initial_world_def new_scope_def)
  have hyps: "d_classify ?d ''BEGIN'' = KindBegin" "session_valid (wc_session ?wc)" "tx_state (wc_session ?wc) = None"
    "scopeAndMarkFrom demo_ctx = (Some 0, None)" "0 \<le> sc_openTxs (w_scopes (started_world ?d) 0)" "d_allowlist ?d = None"
    "\<not> errors_Is (Some (ErrOther ''refused'')) ErrSkip" "\<not> errors_Is (Some (ErrOther ''refused'')) ErrBadConn"
    using zero by (simp_all add: collecting_detector k wrap_conn_def tx_state_def errors_Is_def) (simp add: NewSession_def)
  from refused_begin_counts_as_open[OF hyps(1-6) disjI1[OF refl] run[unfolded r] hyps(7,8),
      of "Op ''mail'' ''m''" zero_tx_options "ErrOther ''refused''" wc2 w2] b[unfolded err]
  show ?thesis by (simp add: run b r err Let_def zero)
qed

text \<open>
  C36. Closing a connection does not end the transaction it has open. In any reachable state, let a connection whose transaction is attributed to a scope be closed, whatever the
  driver answers: the close moves no counter, and however the program goes on without the closed
  connection, other connections being opened, used and closed, the counter of the scope stays one
  above what the other connections hold. So it never comes back to zero, and, for a detector
  without an allowlist, every later checkpoint without options on a context of the scope outside
  every allow region reports a violation.
\<close>

theorem close_leaves_counter_stuck:
  assumes "driver_reach d (wcs, w)" "i < length wcs" "session_holds (wc_session (wcs ! i)) = Some s"
    "conn_Close (wcs ! i) w = (err, wc1, w1)"
    "(\<lambda>st st'. driver_step d st st' \<and> fst st' ! i = fst st ! i)\<^sup>*\<^sup>* (wcs[i := wc1], w1) (wcs2, w2)"
    "scopeAndMarkFrom c = (Some s, None)" "d_allowlist d = None"
  shows "(\<forall>s'. sc_openTxs (w_scopes w1 s') = sc_openTxs (w_scopes w s'))
    \<and> sc_openTxs (w_scopes w2 s) = others_hold driver_holds wcs2 i s + 1
    \<and> 0 < sc_openTxs (w_scopes w2 s)
    \<and> Check_violates d c oper s w2"
proof -
  have close: "w1 = w" "wc_session wc1 = wc_session (wcs ! i)"
    using assms(4) under_fields(1)[of "dc_Close (wc_conn (wcs ! i))" "wcs ! i"]
    by (simp_all add: conn_Close_def case_prod_unfold)
  have "driver_exec d DClose (wcs ! i) w = (wc1, w1)" using assms(4) by simp
  from dr_call[OF assms(2) _ this] have "driver_step d (wcs, w) (wcs[i := wc1], w1)" by simp
  then have r1: "driver_reach d (wcs[i := wc1], w1)" by (rule driver_reach_step[OF assms(1)])
  have "fst st' ! i = fst st ! i" if "(\<lambda>st st'. driver_step d st st' \<and> fst st' ! i = fst st ! i)\<^sup>*\<^sup>* st st'" for st st'
    using that by (induction rule: rtranclp_induct) simp_all
  from this[OF assms(5)] assms(2) have same: "wcs2 ! i = wc1" by simp
  have steps: "(driver_step d)\<^sup>*\<^sup>* (wcs[i := wc1], w1) (wcs2, w2)"
    using assms(5) by (rule rtranclp_mono[THEN predicate2D, rotated]) auto
  from driver_steps_keep[OF steps] driver_reach_conn(2)[OF assms(1-3)] assms(2) close(1)
  have i: "i < length wcs2" "s < w_next_scope w2" by simp_all
  have "sc_openTxs (w_scopes w2 s) = others_hold driver_holds wcs2 i s + 1"
    using driver_reach_opens[OF driver_reach_steps[OF r1 steps] i] same close(2) assms(3) by simp
  moreover from this have "0 < sc_openTxs (w_scopes w2 s)" by (simp add: others_hold_def)
  ultimately show ?thesis
    using close(1) open_scope_violates[OF assms(6,7), of w2 oper] by simp
qed

text \<open>The connection of a textual begin is closed, and another one is opened.\<close>

theorem close_leaves_counter_stuck_witness:
  "let d = New [WithReporter [CollectingReporter 0]];
       (err, wc1, w1) = conn_Close begun_conn begun_world
   in err = None \<and> sc_openTxs (w_scopes w1 0) = 1
    \<and> map (\<lambda>v. (v_Scope v, v_OpenTxs v))
        (Violations (rs_collectors (w_rs (Check d demo_ctx (Op ''mail'' ''m'') [] w1)) 0)) = [(''S'', 1)]"
proof -
  let ?d = "New [WithReporter [CollectingReporter 0]]"
  have close: "conn_Close begun_conn begun_world = (None, begun_conn, begun_world)"
    by (simp add: conn_Close_def under_def begun_conn_def wrap_conn_def demo_conn_def)
  have steps: "(\<lambda>st st'. driver_step ?d st st' \<and> fst st' ! 0 = fst st ! 0)\<^sup>*\<^sup>* ([begun_conn][0 := begun_conn], begun_world)
      ([begun_conn] @ [wrap_conn demo_conn ()], begun_world)"
    by (rule r_into_rtranclp)
      (use dr_open[of "\<lambda>n. Inr (demo_conn, ())" "[]" "wrap_conn demo_conn ()" ?d "[begun_conn]" begun_world]
        in \<open>simp add: wrappedDriver_Open_def\<close>)
  have "0 < length [begun_conn]" "session_holds (wc_session ([begun_conn] ! 0)) = Some 0"
    "conn_Close ([begun_conn] ! 0) begun_world = (None, begun_conn, begun_world)"
    by (simp_all add: close) (simp add: begun_conn_def session_holds_def)
  from close_leaves_counter_stuck[OF begun_reach this steps scopeFrom_demo(2) collecting_detector(4), of "Op ''mail'' ''m''"]
  have "sc_openTxs (w_scopes begun_world 0) = 1" "Check_violates ?d demo_ctx (Op ''mail'' ''m'') 0 begun_world"
    by (simp_all add: others_hold_def driver_holds_def upt_rec) (simp add: wrap_conn_def)
  from violates_collected[OF this(2) collecting_detector(3) begun_collector] this(1)
  show ?thesis by (simp add: close Let_def begun_world_scope new_scope_def)
qed

end
