(* ===== verification/Adapters.thy ===== *)
theory Adapters
  imports Driver
begin

text \<open>
  The adapters that turn other calls into checkpoints: the HTTP round tripper
  (roundtripper.go), the gRPC client interceptors (grpc/interceptor.go), and the in-memory
  database for tests (nulldb.go). The transport, the RPC invoker and the streamer are code
  outside the library: functions of the request and of their own state.
\<close>

subsection \<open>HTTP\<close>

text \<open>The parts of \<^verbatim>\<open>http.Request\<close> the wrapper reads; the body and headers ride along as an object.\<close>

record http_request =
  rq_ctx :: ctx
  rq_Method :: string
  rq_URL_Host :: string
  rq_Host :: string
  rq_rest :: any

type_synonym 'net transport = "http_request \<Rightarrow> 'net \<Rightarrow> go_result \<times> 'net"

record 'net round_tripper =
  rt_transport :: "'net transport"
  rt_name :: "http_request \<Rightarrow> string"

definition defaultRequestName :: "http_request \<Rightarrow> string" where
  "defaultRequestName req =
     (let host = rq_URL_Host req;
          host = (if host = [] then rq_Host req else host)
      in rq_Method req @ '' '' @ host)"

definition WithRequestName :: "(http_request \<Rightarrow> string) \<Rightarrow> 'net round_tripper \<Rightarrow> 'net round_tripper" where
  "WithRequestName f rt = rt\<lparr>rt_name := f\<rparr>"

definition WrapRoundTripper :: "'net transport \<Rightarrow> 'net transport option \<Rightarrow> ('net round_tripper \<Rightarrow> 'net round_tripper) list \<Rightarrow> 'net round_tripper" where
  "WrapRoundTripper defaultTransport rt opts =
     (let rt = (case rt of None \<Rightarrow> defaultTransport | Some rt \<Rightarrow> rt)
      in foldl (\<lambda>w opt. opt w) \<lparr>rt_transport = rt, rt_name = defaultRequestName\<rparr> opts)"

definition RoundTrip :: "detector \<Rightarrow> 'net round_tripper \<Rightarrow> http_request \<Rightarrow> 'net \<Rightarrow> world \<Rightarrow> (go_result \<times> 'net) \<times> world" where
  "RoundTrip d rt req net w =
     (let c = rq_ctx req;
          w = (if checkNeeded d c w then Check d c (Op ''http'' (rt_name rt req)) [] w else w)
      in (rt_transport rt req net, w))"

subsection \<open>gRPC\<close>

definition opFor :: "string \<Rightarrow> op" where
  "opFor method = Op ''grpc'' method"

definition UnaryClientInterceptor :: "detector \<Rightarrow> ctx \<Rightarrow> string \<Rightarrow> (ctx \<Rightarrow> string \<Rightarrow> 'net \<Rightarrow> go_error option \<times> 'net) \<Rightarrow> 'net \<Rightarrow> world \<Rightarrow> (go_error option \<times> 'net) \<times> world" where
  "UnaryClientInterceptor d c method invoker net w =
     (let w = Check d c (opFor method) [] w in (invoker c method net, w))"

definition StreamClientInterceptor :: "detector \<Rightarrow> ctx \<Rightarrow> string \<Rightarrow> (ctx \<Rightarrow> string \<Rightarrow> 'net \<Rightarrow> go_result \<times> 'net) \<Rightarrow> 'net \<Rightarrow> world \<Rightarrow> (go_result \<times> 'net) \<times> world" where
  "StreamClientInterceptor d c method streamer net w =
     (let w = Check d c (opFor method) [] w in (streamer c method net, w))"

subsection \<open>The null database\<close>

text \<open>
  Its connection has no state. \<^verbatim>\<open>driver.RowsAffected(1)\<close> is the value 1, and the empty rows
  are a pointer.
\<close>

definition nullTx :: "unit driver_tx" where
  "nullTx = \<lparr>dt_Commit = (\<lambda>db. (None, db)), dt_Rollback = (\<lambda>db. (None, db))\<rparr>"

definition nullRows :: any where
  "nullRows = AnyPtr 0"

definition nullStmt :: "unit driver_stmt" where
  "nullStmt =
     \<lparr>dm_Close = (\<lambda>db. (None, db)), dm_NumInput = - 1,
      dm_Exec = (\<lambda>vals db. ((Some (AnyInt 1), None), db)),
      dm_Query = (\<lambda>vals db. ((Some nullRows, None), db)),
      dm_ExecContext = None, dm_QueryContext = None, dm_CheckNamedValue = None\<rparr>"

definition nullConn :: "unit driver_conn" where
  "nullConn =
     \<lparr>dc_Prepare = (\<lambda>query db. (Inr nullStmt, db)), dc_PrepareContext = None,
      dc_Close = (\<lambda>db. (None, db)), dc_Begin = (\<lambda>db. (Inr nullTx, db)), dc_BeginTx = None,
      dc_ExecContext = Some (\<lambda>c query args db. ((Some (AnyInt 1), None), db)), dc_Exec = None,
      dc_QueryContext = Some (\<lambda>c query args db. ((Some nullRows, None), db)), dc_Query = None,
      dc_Ping = None, dc_ResetSession = None, dc_IsValid = None, dc_CheckNamedValue = None\<rparr>"

definition nullDriver :: "unit open_conn" where
  "nullDriver name = Inr (nullConn, ())"

definition nullConnector :: "unit connector" where
  "nullConnector = \<lparr>dn_Connect = (\<lambda>c. Inr (nullConn, ())), dn_Driver = nullDriver\<rparr>"

text \<open>\<^verbatim>\<open>NewNullDB\<close>: the connector behind the pool, and a connection the pool opens with it.\<close>

definition NewNullDB :: "unit wrapped_connector" where
  "NewNullDB = WrapConnector nullConnector"

definition NullDB_Connect :: "ctx \<Rightarrow> go_error + unit wrapped_conn" where
  "NullDB_Connect c = wrappedConnector_Connect (dn_Connect (wk_connector NewNullDB)) c"

lemma NullDB_Connect_wraps:
  "NullDB_Connect c = Inr (wrap_conn nullConn ())"
  "wrappedDriver_Open (wd_drv (wrappedConnector_Driver NewNullDB)) name = Inr (wrap_conn nullConn ())"
  by (simp_all add: NullDB_Connect_def wrappedConnector_Connect_def nullConnector_def NewNullDB_def WrapConnector_def
      wrappedConnector_Driver_def wrappedDriver_Open_def nullDriver_def)

subsection \<open>Properties\<close>

text \<open>
  The adapters are checkpoints. Sending a request through the round tripper answers what
  the transport answers and leaves the detector as a checkpoint of kind \<^verbatim>\<open>http\<close> with the
  request's name would, although the name is only derived when a report can result; both gRPC
  interceptors do the same for the method. No adapter ever blocks or changes the call.
\<close>

theorem adapters_are_checkpoints:
  "RoundTrip d rt req net w =
      (rt_transport rt req net, Check d (rq_ctx req) (Op ''http'' (rt_name rt req)) [] w)
   \<and> UnaryClientInterceptor d c method invoker net' w = (invoker c method net', Check d c (Op ''grpc'' method) [] w)
   \<and> StreamClientInterceptor d c method streamer net'' w = (streamer c method net'', Check d c (Op ''grpc'' method) [] w)"
  using Check_not_needed[of d "rq_ctx req" w]
  by (simp add: RoundTrip_def UnaryClientInterceptor_def StreamClientInterceptor_def opFor_def Let_def)

text \<open>
  Every statement on the null database succeeds and is observed exactly once, so a test
  against it sees the transactions the code under test would open.
\<close>

theorem null_db_observes_everything:
  "conn_ExecContext d c query args (wrap_conn nullConn ()) w =
      (case Observe d c query NewSession w of
         (se, w') \<Rightarrow> ((Some (AnyInt 1), None), (wrap_conn nullConn ())\<lparr>wc_session := se\<rparr>, w'))
   \<and> conn_QueryContext d c query args (wrap_conn nullConn ()) w =
      (case Observe d c query NewSession w of
         (se, w') \<Rightarrow> ((Some nullRows, None), (wrap_conn nullConn ())\<lparr>wc_session := se\<rparr>, w'))"
  by (simp add: conn_ExecContext_def conn_QueryContext_def conn_execUnderlying_def
      conn_queryUnderlying_def conn_finish_def wrap_conn_def nullConn_def under_def on_session_def
      case_prod_unfold)

end
