(* ===== verification/Middleware.thy ===== *)
theory Middleware
  imports Purity Adapters
begin

text \<open>
  The middleware as a whole: programs over wrapped drivers and wrapped clients. A program opens
  connections, begins and ends transactions, prepares and executes statements, sends HTTP
  requests and RPCs through the adapters, and uses scopes, regions and checkpoints; databases
  and network answer in any way. What the detector reports is what the abstract
  machine writes down for the operations that the databases let happen.
\<close>

subsection \<open>What one call amounts to\<close>

text \<open>
  The operation of the session that a call on a wrapped connection is, given what the
  database answers: none for a statement that is skipped or whose connection is bad, for a
  begin that is refused and for calls that are only passed on.
\<close>

definition unless_lost :: "bool \<Rightarrow> go_result \<times> 'db wrapped_conn \<Rightarrow> session_action \<Rightarrow> session_action option" where
  "unless_lost skips out a =
     (let err = snd (fst out) in
      if errors_Is err ErrBadConn \<or> skips \<and> errors_Is err ErrSkip then None else Some a)"

definition if_begun :: "(go_error + 'db driver_tx) \<times> 'db wrapped_conn \<Rightarrow> session_action \<Rightarrow> session_action option" where
  "if_begun out a = (case fst out of Inl err \<Rightarrow> None | Inr tx \<Rightarrow> Some a)"

fun session_call :: "detector \<Rightarrow> 'db driver_action \<Rightarrow> 'db wrapped_conn \<Rightarrow> session_action option" where
  "session_call d (DExec c q args) wc = unless_lost True (conn_execUnderlying c q args wc) (AObserve c q)"
| "session_call d (DQuery c q args) wc = unless_lost True (conn_queryUnderlying c q args wc) (AObserve c q)"
| "session_call d DBegin wc = if_begun (under (dc_Begin (wc_conn wc)) wc) (ABeginTx Background)"
| "session_call d (DBeginTx c opts) wc =
     (case dc_BeginTx (wc_conn wc) of
        Some bt \<Rightarrow> if_begun (under (bt c opts) wc) (ABeginTx c)
      | None \<Rightarrow> if opts \<noteq> zero_tx_options then None else if_begun (under (dc_Begin (wc_conn wc)) wc) (ABeginTx c))"
| "session_call d DCommit wc = (if wc_wtx wc = None then None else Some AEndTx)"
| "session_call d DRollback wc = (if wc_wtx wc = None then None else Some AEndTx)"
| "session_call d (DStmtExec stmt q vals) wc = unless_lost False (under (dm_Exec stmt vals) wc) (AObserve Background q)"
| "session_call d (DStmtQuery stmt q vals) wc = unless_lost False (under (dm_Query stmt vals) wc) (AObserve Background q)"
| "session_call d (DStmtExecContext stmt q c args) wc =
     unless_lost False (stmt_execUnderlying c args (wrapStmt d stmt q) wc) (AObserve c q)"
| "session_call d (DStmtQueryContext stmt q c args) wc =
     unless_lost False (stmt_queryUnderlying c args (wrapStmt d stmt q) wc) (AObserve c q)"
| "session_call d _ wc = None"

definition session_after :: "detector \<Rightarrow> session_action option \<Rightarrow> session \<Rightarrow> world \<Rightarrow> session \<times> world" where
  "session_after d sa se w = (case sa of None \<Rightarrow> (se, w) | Some a \<Rightarrow> session_exec d a se w)"

lemma after_conn_finish:
  assumes "wc_session (snd out) = wc_session wc"
  shows "(wc_session (fst (snd (conn_finish d c q out w))), snd (snd (conn_finish d c q out w)))
    = session_after d (unless_lost True out (AObserve c q)) (wc_session wc) w"
  using assms by (simp add: conn_finish_cases unless_lost_def session_after_def Let_def)

lemma after_stmt_finish:
  assumes "wc_session (snd out) = wc_session wc"
  shows "(wc_session (fst (snd (stmt_finish d c (wrapStmt d stmt q) out w))), snd (snd (stmt_finish d c (wrapStmt d stmt q) out w)))
    = session_after d (unless_lost False out (AObserve c q)) (wc_session wc) w"
  using assms by (simp add: stmt_finish_cases unless_lost_def session_after_def Let_def)

lemma after_begun:
  assumes "wc_session (snd out) = wc_session wc"
  shows "(wc_session (fst (snd (conn_begun d c out w))), snd (snd (conn_begun d c out w)))
    = session_after d (if_begun out (ABeginTx c)) (wc_session wc) w"
  using assms by (cases "fst out") (simp_all add: conn_begun_def if_begun_def session_after_def case_prod_unfold)

lemma after_tx_end:
  "(wc_session (fst (tx_after wc w (tx_end m wc w))), snd (tx_after wc w (tx_end m wc w)))
    = session_after d (if wc_wtx wc = None then None else Some AEndTx) (wc_session wc) w"
  by (cases "wc_wtx wc") (simp_all add: tx_end_def tx_after_def session_after_def case_prod_unfold)

lemma driver_exec_after:
  "(wc_session (fst (driver_exec d a wc w)), snd (driver_exec d a wc w))
     = session_after d (session_call d a wc) (wc_session wc) w"
proof (cases a)
  case (DPrepare c q)
  then show ?thesis
    by (simp add: session_after_def conn_PrepareContext_def conn_Prepare_def case_prod_unfold split: option.split sum.split)
next
  case (DExec c q args)
  then show ?thesis by (simp add: conn_ExecContext_def after_conn_finish)
next
  case (DQuery c q args)
  then show ?thesis by (simp add: conn_QueryContext_def after_conn_finish)
next
  case DBegin
  then show ?thesis by (simp add: conn_Begin_def after_begun)
next
  case (DBeginTx c opts)
  then show ?thesis
    by (simp add: conn_BeginTx_def after_begun split: option.split) (simp add: session_after_def)
next
  case DCommit
  show ?thesis unfolding DCommit driver_exec.simps session_call.simps tx_Commit_def by (rule after_tx_end)
next
  case DRollback
  show ?thesis unfolding DRollback driver_exec.simps session_call.simps tx_Rollback_def by (rule after_tx_end)
next
  case (DStmtExec stmt q vals)
  then show ?thesis by (simp add: stmt_Exec_def after_stmt_finish)
next
  case (DStmtQuery stmt q vals)
  then show ?thesis by (simp add: stmt_Query_def after_stmt_finish)
next
  case (DStmtExecContext stmt q c args)
  then show ?thesis by (simp add: stmt_ExecContext_def after_stmt_finish)
next
  case (DStmtQueryContext stmt q c args)
  then show ?thesis by (simp add: stmt_QueryContext_def after_stmt_finish)
qed (simp_all add: session_after_def stmt_Close_def conn_Ping_def conn_ResetSession_def conn_Close_def case_prod_unfold split: option.split)

subsection \<open>Programs\<close>

text \<open>
  \<open>Client\<close> holds what a program does beside its connections and adapters; a session is only
  used through its driver.
\<close>

datatype ('db, 'net) client =
    Open "'db open_conn" string
  | Call nat "'db driver_action"
  | Send "'net round_tripper" http_request
  | Invoke ctx string "ctx \<Rightarrow> string \<Rightarrow> 'net \<Rightarrow> go_error option \<times> 'net"
  | OpenStream ctx string "ctx \<Rightarrow> string \<Rightarrow> 'net \<Rightarrow> go_result \<times> 'net"
  | Client action

type_synonym ('db, 'net) serving = "'db wrapped_conn list \<times> 'net \<times> world"

fun exec_client :: "detector \<Rightarrow> ('db, 'net) client \<Rightarrow> ('db, 'net) serving \<Rightarrow> ('db, 'net) serving" where
  "exec_client d (Open drv name) (wcs, net, w) =
     (case wrappedDriver_Open drv name of Inl err \<Rightarrow> (wcs, net, w) | Inr wc \<Rightarrow> (wcs @ [wc], net, w))"
| "exec_client d (Call i a) (wcs, net, w) =
     (case driver_exec d a (wcs ! i) w of (wc, w) \<Rightarrow> (wcs[i := wc], net, w))"
| "exec_client d (Send rt req) (wcs, net, w) =
     (case RoundTrip d rt req net w of ((resp, net), w) \<Rightarrow> (wcs, net, w))"
| "exec_client d (Invoke c method invoker) (wcs, net, w) =
     (case UnaryClientInterceptor d c method invoker net w of ((err, net), w) \<Rightarrow> (wcs, net, w))"
| "exec_client d (OpenStream c method streamer) (wcs, net, w) =
     (case StreamClientInterceptor d c method streamer net w of ((r, net), w) \<Rightarrow> (wcs, net, w))"
| "exec_client d (Client a) (wcs, net, w) = (wcs, net, snd (exec_action d a ([], w)))"

fun off_connection :: "action \<Rightarrow> bool" where
  "off_connection (Effect c oper opts) = True"
| "off_connection (NewScope c name ass) = True"
| "off_connection (EndScope s) = True"
| "off_connection (Region c reason counts) = True"
| "off_connection _ = False"

text \<open>The actions that came of a program's step, given what the databases answered.\<close>

fun on_connection :: "nat \<Rightarrow> session_action \<Rightarrow> action" where
  "on_connection i (AObserve c q) = Statement i c q"
| "on_connection i (ABeginTx c) = BeginOn i c"
| "on_connection i AEndTx = EndOn i"

fun granted :: "detector \<Rightarrow> ('db, 'net) client \<Rightarrow> ('db, 'net) serving \<Rightarrow> action list" where
  "granted d (Open drv name) st = (case drv name of Inl err \<Rightarrow> [] | Inr x \<Rightarrow> [Connect])"
| "granted d (Call i a) st =
     (case session_call d a (fst st ! i) of None \<Rightarrow> [] | Some sa \<Rightarrow> [on_connection i sa])"
| "granted d (Send rt req) st = [Effect (rq_ctx req) (Op ''http'' (rt_name rt req)) []]"
| "granted d (Invoke c method invoker) st = [Effect c (Op ''grpc'' method) []]"
| "granted d (OpenStream c method streamer) st = [Effect c (Op ''grpc'' method) []]"
| "granted d (Client a) st = [a]"

fun trace :: "detector \<Rightarrow> ('db, 'net) client list \<Rightarrow> ('db, 'net) serving \<Rightarrow> action list" where
  "trace d [] st = []"
| "trace d (a # as) st = granted d a st @ trace d as (exec_client d a st)"

text \<open>A program that only calls connections it has opened.\<close>

fun client_ok :: "('db, 'net) client \<Rightarrow> ('db, 'net) serving \<Rightarrow> bool" where
  "client_ok (Client a) st = off_connection a"
| "client_ok (Call i a) st = (i < length (fst st))"
| "client_ok _ st = True"

fun clients_ok :: "detector \<Rightarrow> ('db, 'net) client list \<Rightarrow> ('db, 'net) serving \<Rightarrow> bool" where
  "clients_ok d [] st = True"
| "clients_ok d (a # as) st = (client_ok a st \<and> clients_ok d as (exec_client d a st))"

definition sessions_of :: "('db, 'net) serving \<Rightarrow> running" where
  "sessions_of st = (case st of (wcs, net, w) \<Rightarrow> (map wc_session wcs, w))"

lemma exec_off_connection:
  "off_connection a \<Longrightarrow> exec_action d a (ss, w) = (ss, snd (exec_action d a ([], w)))"
  by (cases a) simp_all

lemma exec_on_connection:
  "exec_action d (on_connection i sa) (ss, w) = (case session_exec d sa (ss ! i) w of (se, w) \<Rightarrow> (ss[i := se], w))"
  by (cases sa) simp_all

lemma call_simulated:
  assumes "i < length wcs"
  shows "sessions_of (exec_client d (Call i b) (wcs, net, w))
    = foldl (\<lambda>run a. exec_action d a run) (map wc_session wcs, w) (granted d (Call i b) (wcs, net, w))"
proof (cases "session_call d b (wcs ! i)")
  case None
  with driver_exec_after[of d b "wcs ! i" w] assms show ?thesis
    by (simp add: sessions_of_def session_after_def case_prod_unfold map_update) (metis list_update_id map_update)
next
  case (Some sa)
  have "wc_session (fst (driver_exec d b (wcs ! i) w)) = fst (session_exec d sa (wc_session (wcs ! i)) w)"
    "snd (driver_exec d b (wcs ! i) w) = snd (session_exec d sa (wc_session (wcs ! i)) w)"
    using driver_exec_after[of d b "wcs ! i" w] Some by (simp_all add: session_after_def prod_eq_iff)
  with Some assms show ?thesis
    by (simp add: sessions_of_def exec_on_connection case_prod_unfold map_update)
qed

lemma client_simulated:
  assumes "client_ok a st"
  shows "sessions_of (exec_client d a st) = foldl (\<lambda>run a. exec_action d a run) (sessions_of st) (granted d a st)"
proof -
  obtain wcs net w where st: "st = (wcs, net, w)" by (cases st)
  show ?thesis
  proof (cases a)
    case (Open drv name)
    then show ?thesis
      by (simp add: st sessions_of_def wrappedDriver_Open_def wrap_conn_def case_prod_unfold split: sum.split)
  next
    case (Call i b)
    with assms st call_simulated[of i wcs d b net w] show ?thesis by (simp add: sessions_of_def)
  next
    case (Send rt req)
    with Check_not_needed[of d "rq_ctx req" w] show ?thesis
      by (simp add: st sessions_of_def RoundTrip_def Let_def case_prod_unfold)
  next
    case (Client b)
    with assms exec_off_connection[of b d "map wc_session wcs" w] st show ?thesis
      by (simp add: sessions_of_def)
  qed (simp_all add: st sessions_of_def UnaryClientInterceptor_def StreamClientInterceptor_def opFor_def Let_def
      case_prod_unfold)
qed

lemma clients_simulated:
  "clients_ok d as st \<Longrightarrow> sessions_of (foldl (\<lambda>st a. exec_client d a st) st as)
    = foldl (\<lambda>run a. exec_action d a run) (sessions_of st) (trace d as st)"
  by (induction as arbitrary: st) (simp_all add: client_simulated)

definition run_clients :: "detector \<Rightarrow> ('db, 'net) client list \<Rightarrow> 'net \<Rightarrow> world \<Rightarrow> ('db, 'net) serving" where
  "run_clients d as net w = foldl (\<lambda>st a. exec_client d a st) ([], net, w) as"

subsection \<open>Properties\<close>

text \<open>
  C3. The whole middleware implements the abstract machine. Over any drivers, transports and RPC
  invokers, whatever they answer, a user's reporter that implements every interface was handed
  exactly the machine's signals, in their order, for the trace of the program: the statements that were not skipped or lost with their connection,
  the begins that succeeded, the commits and rollbacks, every request and RPC sent through an
  adapter, the scopes, regions and checkpoints. The connections' transactions are where the
  machine has them.
\<close>

theorem middleware_implements_specification:
  assumes "d_reporters d = [UserReporter u all_extensions]" "al = map_option entries (d_allowlist d)"
    "clients_ok d as ([], net, start_world clock callers entries)"
    "sensible d al init_spec (trace d as ([], net, start_world clock callers entries))"
  shows "let (wcs, net', w) = run_clients d as net (start_world clock callers entries);
             sp = run_spec d al (trace d as ([], net, start_world clock callers entries))
         in map signal_of (rs_users (w_rs w) u) = sp_signals sp
          \<and> map (\<lambda>wc. tx_state (wc_session wc)) wcs = sp_tx sp"
proof -
  let ?w = "start_world clock callers entries"
  obtain wcs net' w where run: "run_clients d as net ?w = (wcs, net', w)" by (cases "run_clients d as net ?w")
  have "sessions_of (run_clients d as net ?w) = run_program d (trace d as ([], net, ?w)) ?w"
    using clients_simulated[OF assms(3)] by (simp add: run_clients_def run_program_def sessions_of_def)
  then have "run_program d (trace d as ([], net, ?w)) ?w = (map wc_session wcs, w)"
    by (simp add: run sessions_of_def)
  with usr.matches_program[OF assms(1,2,4), of clock callers] show ?thesis
    by (simp add: run matches_def user_heard_def comp_def)
qed

text \<open>A refused begin, a transaction with a request in it, its failing commit, and a request after it.\<close>

definition sample_clients :: "(unit, nat) client list" where
  "sample_clients =
     (let c = WithValue Background ScopeCtxKey (ScopeVal 0);
          rt = \<lparr>rt_transport = (\<lambda>req n. ((None, None), Suc n)), rt_name = rq_Method\<rparr>;
          req = \<lparr>rq_ctx = c, rq_Method = ''GET'', rq_URL_Host = [], rq_Host = [], rq_rest = AnyPtr 0\<rparr>;
          refusing = demo_conn\<lparr>dc_Begin := (\<lambda>db. (Inl (ErrOther ''refused''), db))\<rparr> in
      [Open (\<lambda>name. Inr (demo_conn, ())) [], Open (\<lambda>name. Inr (refusing, ())) [],
       Client (NewScope Background ''S'' []), Call 1 (DBeginTx c zero_tx_options), Send rt req,
       Call 0 (DBeginTx c zero_tx_options), Send rt req, Call 0 DCommit, Send rt req])"

lemma sample_trace:
  "trace (sample_detector rep) sample_clients ([], 0, start_world int (\<lambda>_. []) (\<lambda>_. NewAllowlist)) =
     (let c = WithValue Background ScopeCtxKey (ScopeVal 0); get = Op ''http'' ''GET'' in
      [Connect, Connect, NewScope Background ''S'' [], Effect c get [], BeginOn 0 c, Effect c get [], EndOn 0, Effect c get []])"
  "clients_ok (sample_detector rep) sample_clients ([], 0, start_world int (\<lambda>_. []) (\<lambda>_. NewAllowlist))"
  by (simp_all add: sample_clients_def Let_def wrappedDriver_Open_def wrap_conn_def if_begun_def under_def demo_conn_def
      case_prod_unfold conn_BeginTx_def conn_begun_def tx_Commit_def tx_end_def tx_after_def RoundTrip_def)

theorem middleware_implements_specification_witness:
  "let (wcs, n, w) = run_clients (sample_detector (UserReporter 0 all_extensions)) sample_clients 0
       (start_world int (\<lambda>_. []) (\<lambda>_. NewAllowlist))
   in map signal_of (rs_users (w_rs w) 0) = [ImpureSig ''S'' (Op ''http'' ''GET'') 1 1 []]
    \<and> map (\<lambda>wc. tx_state (wc_session wc)) wcs = [None, None]"
proof -
  let ?d = "sample_detector (UserReporter 0 all_extensions)"
  let ?tr = "trace ?d sample_clients ([], 0, start_world int (\<lambda>_. []) (\<lambda>_. NewAllowlist))"
  have "sensible ?d None init_spec ?tr"
    by (simp add: sample_trace sample_simps)
  moreover have "sp_signals (run_spec ?d None ?tr) = [ImpureSig ''S'' (Op ''http'' ''GET'') 1 1 []]"
    "sp_tx (run_spec ?d None ?tr) = [None, None]"
    by (simp_all add: run_spec_def sample_trace sample_simps)
  ultimately show ?thesis
    using middleware_implements_specification[of ?d 0 None "\<lambda>_. NewAllowlist" sample_clients 0 int "\<lambda>_. []"]
      sample_trace(2)
    by (simp add: case_prod_unfold Let_def)
qed

end
