(* ===== verification/Examples.thy ===== *)
theory Examples
  imports Adapters
begin

text \<open>
  The runnable examples of the repository (examples/enqueue, examples/nethttp), as programs
  over the model: what they print follows from the library's definitions, for any clock and
  any call stack. A \<^verbatim>\<open>*sql.DB\<close> of the null database takes a fresh connection for each
  transaction or statement; after \<^verbatim>\<open>Commit\<close> the deferred \<^verbatim>\<open>Rollback\<close> is refused by
  database/sql without reaching the driver.
\<close>

definition example_detector :: detector where
  "example_detector = New [WithReporter [SlogReporter 0]]"

definition enqueueJob :: "string \<Rightarrow> ctx \<Rightarrow> world \<Rightarrow> go_error option \<times> world" where
  "enqueueJob job c w = (None, w)"

definition sendMail :: "string \<Rightarrow> ctx \<Rightarrow> world \<Rightarrow> go_error option \<times> world" where
  "sendMail mail c w = (None, w)"

text \<open>The deferred rollback of a path that returns early with an error.\<close>

definition rollback_with :: "unit wrapped_conn \<Rightarrow> go_error \<Rightarrow> world \<Rightarrow> go_error option \<times> world" where
  "rollback_with db err w =
     (case tx_Rollback db w of None \<Rightarrow> (Some err, w) | Some (_, _, w) \<Rightarrow> (Some err, w))"

definition eviction_reason :: string where
  "eviction_reason = ''cache eviction is best-effort, TTL covers rollback (TICKET-99)''"

definition eviction_query :: string where
  "eviction_query = ''DELETE FROM order_cache WHERE order_id = 1''"

definition create_order :: "detector \<Rightarrow> ctx \<Rightarrow> world \<Rightarrow> go_error option \<times> world" where
  "create_order d c w =
     (case conn_BeginTx d c zero_tx_options (wrap_conn nullConn ()) w of
        (Some err, _, w) \<Rightarrow> (Some err, w)
      | (None, db, w) \<Rightarrow>
         (case Do d c (Op ''enqueue'' ''orders:process'') (enqueueJob ''orders:process'') [] w of
            (Some err, w) \<Rightarrow> rollback_with db err w
          | (None, w) \<Rightarrow>
             (case Do d c (Op ''mail'' ''order_confirmation'') (sendMail ''order_confirmation'') [] w of
                (Some err, w) \<Rightarrow> rollback_with db err w
              | (None, w) \<Rightarrow>
                 (case AllowInTransactionHere c eviction_reason [1] w of
                    (actx, w) \<Rightarrow>
                      (case sql_exec d actx eviction_query [] (wrap_conn nullConn ()) w of
                         ((_, Some err), _, w) \<Rightarrow> rollback_with db err w
                       | ((_, None), _, w) \<Rightarrow>
                           (case tx_Commit db w of
                              None \<Rightarrow> (None, w)
                            | Some (err, _, w) \<Rightarrow> (err, w)))))))"

definition enqueue_main :: "world \<Rightarrow> go_error option \<times> world" where
  "enqueue_main w = InScope example_detector Background ''CreateOrder'' (create_order example_detector) [] w"

subsection \<open>The HTTP example\<close>

text \<open>
  The checkout handler and the middleware around it. The client sends one request, as the
  example's service does not redirect; its transport is arbitrary.
\<close>

definition checkout :: "detector \<Rightarrow> 'net round_tripper \<Rightarrow> string \<Rightarrow> ctx \<Rightarrow> 'net \<Rightarrow> world \<Rightarrow> (int \<times> 'net) \<times> world" where
  "checkout d rt host c net w =
     (case conn_BeginTx d c zero_tx_options (wrap_conn nullConn ()) w of
        (Some err, _, w) \<Rightarrow> ((500, net), w)
      | (None, db, w) \<Rightarrow>
         (let req = \<lparr>rq_ctx = c, rq_Method = ''GET'', rq_URL_Host = host, rq_Host = host, rq_rest = AnyPtr 0\<rparr> in
          case RoundTrip d rt req net w of
            (((_, Some err), net), w) \<Rightarrow> ((502, net), snd (rollback_with db err w))
          | (((_, None), net), w) \<Rightarrow>
             (case tx_Commit db w of
                None \<Rightarrow> ((200, net), w)
              | Some (Some err, _, w) \<Rightarrow> ((500, net), w)
              | Some (None, _, w) \<Rightarrow> ((200, net), w))))"

definition scopeMiddleware :: "detector \<Rightarrow> string \<Rightarrow> (ctx \<Rightarrow> world \<Rightarrow> 'r \<times> world) \<Rightarrow> ctx \<Rightarrow> world \<Rightarrow> 'r \<times> world" where
  "scopeMiddleware d pattern handler c w =
     (let pattern = (if pattern = [] then ''unmatched'' else pattern) in
      case StartScope d c pattern [] w of
        ((c, s), w) \<Rightarrow> (case handler c w of (r, w) \<Rightarrow> (r, finishScope d s w)))"

definition nethttp_main :: "'net transport \<Rightarrow> string \<Rightarrow> 'net \<Rightarrow> world \<Rightarrow> (int \<times> 'net) \<times> world" where
  "nethttp_main transport host net w =
     scopeMiddleware example_detector ''POST /checkout''
       (\<lambda>c. checkout example_detector (WrapRoundTripper transport None []) host c net) Background w"

subsection \<open>Steps of the examples\<close>

lemma example_detector_fields [simp]:
  "d_reporters example_detector = [SlogReporter 0]" "d_allowlist example_detector = None"
  "d_classify example_detector = DefaultClassifier" "d_stmtCheckers example_detector = []"
  "d_attrsFunc example_detector = None" "\<not> d_reportLeaked example_detector" "d_stackDepth example_detector = 32"
  by (simp_all add: example_detector_def New_def WithReporter_def)
lemma eviction_classified: "DefaultClassifier eviction_query = KindWrite" "db_op eviction_query = Op ''db'' ''order_cache''"
  unfolding db_op_def by code_simp+
lemma null_begin: "conn_BeginTx d c zero_tx_options (wrap_conn nullConn ()) w = (None, (wrap_conn nullConn ())\<lparr>wc_session := fst (openTx d c NewSession w), wc_wtx := Some nullTx\<rparr>, snd (openTx d c NewSession w))"
  by (simp add: conn_BeginTx_def conn_begun_def wrap_conn_def nullConn_def under_def on_session_def BeginTx_def closeTx_def NewSession_def case_prod_unfold)

lemma null_commit: "wc_wtx wc = Some nullTx \<Longrightarrow> tx_Commit wc w =
   Some (None, wc\<lparr>wc_session := fst (EndTx (wc_session wc) w)\<rparr>, snd (EndTx (wc_session wc) w))"
  by (simp add: tx_Commit_def tx_end_def nullTx_def under_def on_session_def case_prod_unfold)

text \<open>What the example's checkpoints add to the log.\<close>

definition printed :: "world \<Rightarrow> (slog_level \<times> (string \<times> slog_value) list) list" where
  "printed w = map (\<lambda>r. (lr_level r, take 5 (lr_args r))) (rs_logs (w_rs w) 0)"

lemma example_check:
  fixes oper :: op and w' :: world
  assumes "scopeAndMarkFrom c = (Some s, None)" "0 < sc_openTxs (w_scopes w s)"
    "w' = Check example_detector c oper [] w"
  shows "w_scopes w' s = snd (bumpCall (key_for (sc_name (w_scopes w s)) oper) (w_scopes w s))"
    "printed w' = printed w @ [(LevelError,
       [(''kind'', SlogString (op_kind oper)), (''name'', SlogString (op_name oper)),
        (''scope'', SlogString (sc_name (w_scopes w s))), (''open_txs'', SlogInt (sc_openTxs (w_scopes w s))),
        (''call'', SlogInt (calls_of (w_scopes w s) (key_for (sc_name (w_scopes w s)) oper) + 1))])]"
    "w_next_mark w' = w_next_mark w"
  using Check_open[OF assms(1,2), of example_detector oper "[]"]
  by (simp_all add: assms(3) appliedCheckConfig_def decide_scopes noted_scope_def Let_def zero_config_def
      option_covers_def region_covers_def decide_rs list_covers_def slog_receive_def printed_def)

text \<open>The scope of an example with its transaction open, and the finish that prints nothing.\<close>

definition example_ctx :: ctx where
  "example_ctx = WithValue Background ScopeCtxKey (ScopeVal 0)"

definition example_open :: "string \<Rightarrow> (nat \<Rightarrow> time) \<Rightarrow> (nat \<Rightarrow> stack_frame list) \<Rightarrow> world" where
  "example_open name clock callers =
     add_openTxs 0 1 (snd (StartScope example_detector Background name [] (initial_world clock callers)))"

definition open_db :: "unit wrapped_conn" where
  "open_db = (wrap_conn nullConn ())\<lparr>wc_session := \<lparr>se_inTx = True, se_txScope = Some 0\<rparr>, wc_wtx := Some nullTx\<rparr>"

lemma example_ctx_simps [simp]:
  "scopeAndMarkFrom example_ctx = (Some 0, None)" "scopeFrom example_ctx = Some 0"
  by (simp_all add: example_ctx_def scopeFrom_fst)

lemma example_start:
  obtains w where
    "StartScope example_detector Background name [] (initial_world clock callers) = ((example_ctx, 0), w)"
    "conn_BeginTx d example_ctx zero_tx_options (wrap_conn nullConn ()) w
       = (None, open_db, example_open name clock callers)"
proof -
  let ?w = "snd (StartScope example_detector Background name [] (initial_world clock callers))"
  have "StartScope example_detector Background name [] (initial_world clock callers) = ((example_ctx, 0), ?w)"
    by (simp add: StartScope_def report_nested_def scopeFrom_fst initial_world_def Let_def example_ctx_def)
  moreover have "conn_BeginTx d example_ctx zero_tx_options (wrap_conn nullConn ()) ?w
      = (None, open_db, example_open name clock callers)"
    by (simp add: null_begin openTx_def NewSession_def open_db_def example_open_def)
  ultimately show thesis by (rule that)
qed

lemma example_open_simps [simp]:
  "w_scopes (example_open name clock callers) 0 = (new_scope name)\<lparr>sc_openTxs := 1\<rparr>"
  "w_next_mark (example_open name clock callers) = 0" "printed (example_open name clock callers) = []"
  by (simp_all add: example_open_def add_openTxs_def StartScope_def report_nested_def scopeFrom_fst
      initial_world_def Let_def new_scope_def printed_def initial_store_def)

lemma open_db_ends:
  "tx_Commit open_db w = Some (None, open_db\<lparr>wc_session := NewSession\<rparr>, add_openTxs 0 (- 1) w)"
  "rollback_with open_db err w = (Some err, add_openTxs 0 (- 1) w)"
  by (simp_all add: open_db_def null_commit rollback_with_def tx_Rollback_def tx_end_def nullTx_def
      under_def on_session_def EndTx_def closeTx_def NewSession_def)

lemma silent_finish:
  assumes "\<not> sc_finished (w_scopes w 0)" "call_shortfalls (w_marks w) (w_scopes w 0) = []"
  shows "printed (finishScope example_detector 0 (add_openTxs 0 (- 1) w)) = printed w"
    "sc_openTxs (w_scopes (finishScope example_detector 0 (add_openTxs 0 (- 1) w)) 0) = sc_openTxs (w_scopes w 0) - 1"
proof -
  have "call_shortfalls (w_marks w) ((w_scopes w 0)\<lparr>sc_openTxs := n\<rparr>) = call_shortfalls (w_marks w) (w_scopes w 0)" for n
  proof -
    have "key_shortfall ((w_scopes w 0)\<lparr>sc_openTxs := n\<rparr>) = key_shortfall (w_scopes w 0)"
      by (rule ext) (simp add: key_shortfall_def split: option.split)
    moreover have "mark_shortfall ((w_scopes w 0)\<lparr>sc_openTxs := n\<rparr>) = mark_shortfall (w_scopes w 0)"
      by (rule ext) (simp add: mark_shortfall_def)
    ultimately show ?thesis by (simp add: call_shortfalls_def)
  qed
  then have "call_shortfalls (w_marks (add_openTxs 0 (- 1) w)) (w_scopes (add_openTxs 0 (- 1) w) 0) = []"
    using assms(2) by (simp add: add_openTxs_def)
  then show "printed (finishScope example_detector 0 (add_openTxs 0 (- 1) w)) = printed w"
    using assms(1) finishScope_rs[of "add_openTxs 0 (- 1) w" 0 example_detector]
    by (simp add: printed_def) (simp add: add_openTxs_def)
  show "sc_openTxs (w_scopes (finishScope example_detector 0 (add_openTxs 0 (- 1) w)) 0) = sc_openTxs (w_scopes w 0) - 1"
    by (simp add: finishScope_scopes add_openTxs_def)
qed

text \<open>A cross-connection write under a region pinned to one call, while one transaction is open.\<close>

lemma pinned_eviction:
  assumes "sc_openTxs (w_scopes w 0) = 1" "\<not> sc_finished (w_scopes w 0)" "sc_marks (w_scopes w 0) = []"
    "keys_where (\<lambda>c. cc_declared c \<noteq> []) (sc_calls (w_scopes w 0)) = []"
  obtains actx w1 w2 where "AllowInTransactionHere example_ctx eviction_reason [1] w = (actx, w1)"
    "sql_exec example_detector actx eviction_query [] (wrap_conn nullConn ()) w1
       = ((Some (AnyInt 1), None), wrap_conn nullConn (), w2)"
    "printed w2 = printed w" "sc_openTxs (w_scopes w2 0) = 1" "\<not> sc_finished (w_scopes w2 0)"
    "call_shortfalls (w_marks w2) (w_scopes w2 0) = []"
proof -
  let ?d = example_detector
  let ?a = "WithValue example_ctx ScopeCtxKey (AllowedVal 0 (w_next_mark w))"
  let ?key = "key_for (sc_name (w_scopes w 0)) (Op ''db'' ''order_cache'')"
  define w1 where "w1 = snd (AllowInTransactionHere example_ctx eviction_reason [1] w)"
  define w2 where "w2 = decideAndReport ?d 0 (Some (w_next_mark w)) (Op ''db'' ''order_cache'') 1 zero_config w1"
  have allow: "AllowInTransactionHere example_ctx eviction_reason [1] w = (?a, w1)"
    by (simp add: AllowInTransactionHere_def w1_def Let_def)
  have s1: "w_scopes w1 0 = registerMark (w_next_mark w) (w_scopes w 0)" "printed w1 = printed w"
    "w_marks w1 (w_next_mark w) = \<lparr>am_reason = eviction_reason, am_counts = [1], am_n = 0\<rparr>"
    by (simp_all add: w1_def AllowInTransactionHere_def Let_def printed_def)
  have "Observe ?d ?a eviction_query NewSession w1 = (NewSession, w2)"
    using assms(1) by (simp add: Observe_def eviction_classified reportIfCrossConn_def Let_def s1 NewSession_def w2_def)
  then have sql: "sql_exec ?d ?a eviction_query [] (wrap_conn nullConn ()) w1
      = ((Some (AnyInt 1), None), wrap_conn nullConn (), w2)"
    by (simp add: sql_exec_def conn_ExecContext_def conn_execUnderlying_def conn_finish_def wrap_conn_def
        nullConn_def under_def on_session_def)
  have reg: "region_covers w1 (Some (w_next_mark w))"
    by (simp add: region_covers_def s1 coversCalls_def maxCount_def)
  have s2: "w_scopes w2 0 = snd (bumpCall ?key (registerMark (w_next_mark w) (w_scopes w 0)))" "printed w2 = printed w"
    "w_marks w2 (w_next_mark w) = \<lparr>am_reason = eviction_reason, am_counts = [1], am_n = 1\<rparr>"
    using s1(2) by (simp_all add: w2_def decide_scopes noted_scope_def Let_def decide_rs decide_marks reg
        s1(1,3) option_covers_def zero_config_def printed_def)
  have "keys_where (\<lambda>c. cc_declared c \<noteq> []) (sc_calls (w_scopes w2 0)) = []"
    using keys_where_lookup[OF assms(4), of ?key]
    by (auto simp: s2 bumpCall_def Let_def registerMark_def intro!: keys_where_put_none[OF assms(4)]
        split: option.split)
  then have "call_shortfalls (w_marks w2) (w_scopes w2 0) = []"
    using assms(3) by (simp add: call_shortfalls_def s2 mark_shortfall_def registerMark_def sortKeys_def)
  moreover have "sc_openTxs (w_scopes w2 0) = 1" "\<not> sc_finished (w_scopes w2 0)"
    using assms(1,2) by (simp_all add: s2)
  ultimately show thesis using that[OF allow sql] s2(2) by blast
qed

subsection \<open>Properties\<close>

text \<open>
  The enqueue example prints exactly two violations, the enqueue and the mail inside the
  transaction, and nothing for the cross-connection write that its allow region pins to one
  call; no counter is left open and no stale allow is printed when the scope finishes.
\<close>

theorem enqueue_example_prints_two:
  "let (err, w) = enqueue_main (initial_world clock callers) in
     err = None \<and> sc_openTxs (w_scopes w 0) = 0
   \<and> printed w =
      [(LevelError, [(''kind'', SlogString ''enqueue''), (''name'', SlogString ''orders:process''),
         (''scope'', SlogString ''CreateOrder''), (''open_txs'', SlogInt 1), (''call'', SlogInt 1)]),
       (LevelError, [(''kind'', SlogString ''mail''), (''name'', SlogString ''order_confirmation''),
         (''scope'', SlogString ''CreateOrder''), (''open_txs'', SlogInt 1), (''call'', SlogInt 1)])]"
proof -
  let ?d = example_detector
  let ?enq = "Op ''enqueue'' ''orders:process''" and ?mail = "Op ''mail'' ''order_confirmation''"
  define w2 where "w2 = example_open ''CreateOrder'' clock callers"
  define w3 where "w3 = Check ?d example_ctx ?enq [] w2"
  define w4 where "w4 = Check ?d example_ctx ?mail [] w3"
  obtain w1 where start: "StartScope ?d Background ''CreateOrder'' [] (initial_world clock callers) = ((example_ctx, 0), w1)"
    "conn_BeginTx ?d example_ctx zero_tx_options (wrap_conn nullConn ()) w1 = (None, open_db, w2)"
    unfolding w2_def by (rule example_start)
  note c3 = example_check[OF example_ctx_simps(1) _ w3_def]
  note c4 = example_check[OF example_ctx_simps(1) _ w4_def]
  have s3: "w_scopes w3 0 = snd (bumpCall (key_for ''CreateOrder'' ?enq) ((new_scope ''CreateOrder'')\<lparr>sc_openTxs := 1\<rparr>))"
    using c3 by (simp add: w2_def new_scope_def)
  have s4: "w_scopes w4 0 = snd (bumpCall (key_for ''CreateOrder'' ?mail) (w_scopes w3 0))"
    using c4 s3 by (simp add: new_scope_def)
  have fields: "sc_openTxs (w_scopes w4 0) = 1" "\<not> sc_finished (w_scopes w4 0)" "sc_marks (w_scopes w4 0) = []"
    "keys_where (\<lambda>c. cc_declared c \<noteq> []) (sc_calls (w_scopes w4 0)) = []"
    by (simp_all add: s4 s3 new_scope_def) (simp add: bumpCall_def Let_def map_put_def key_for_def)
  obtain actx w5 w6 where e: "AllowInTransactionHere example_ctx eviction_reason [1] w4 = (actx, w5)"
    "sql_exec ?d actx eviction_query [] (wrap_conn nullConn ()) w5 = ((Some (AnyInt 1), None), wrap_conn nullConn (), w6)"
    "printed w6 = printed w4" "sc_openTxs (w_scopes w6 0) = 1" "\<not> sc_finished (w_scopes w6 0)"
    "call_shortfalls (w_marks w6) (w_scopes w6 0) = []"
    by (rule pinned_eviction[OF fields])
  have "create_order ?d example_ctx w1 = (None, add_openTxs 0 (- 1) w6)"
    by (simp add: create_order_def start Do_def w3_def[symmetric, unfolded Check_def]
        w4_def[symmetric, unfolded Check_def] enqueueJob_def sendMail_def e open_db_ends)
  then have main: "enqueue_main (initial_world clock callers) = (None, finishScope ?d 0 (add_openTxs 0 (- 1) w6))"
    by (simp add: enqueue_main_def InScope_def start)
  show ?thesis
    using c3 c4 s3 silent_finish[OF e(5,6)] e(3,4)
    by (simp add: main w2_def new_scope_def calls_of_def bumpCall_def Let_def)
qed

text \<open>
  The HTTP example prints exactly one violation, for the request sent while the checkout's
  transaction is open, whatever the transport answers; and the transaction is closed on the
  successful path and on the error path alike.
\<close>

theorem nethttp_example_prints_one:
  "let (out, w) = nethttp_main transport (h # host) net (initial_world clock callers) in
     sc_openTxs (w_scopes w 0) = 0
   \<and> printed w =
      [(LevelError, [(''kind'', SlogString ''http''), (''name'', SlogString (''GET '' @ h # host)),
         (''scope'', SlogString ''POST /checkout''), (''open_txs'', SlogInt 1), (''call'', SlogInt 1)])]"
proof -
  let ?d = example_detector
  let ?op = "Op ''http'' (''GET '' @ h # host)"
  let ?rt = "WrapRoundTripper transport None []"
  define w2 where "w2 = example_open ''POST /checkout'' clock callers"
  define w3 where "w3 = Check ?d example_ctx ?op [] w2"
  obtain w1 where start: "StartScope ?d Background ''POST /checkout'' [] (initial_world clock callers) = ((example_ctx, 0), w1)"
    "conn_BeginTx ?d example_ctx zero_tx_options (wrap_conn nullConn ()) w1 = (None, open_db, w2)"
    unfolding w2_def by (rule example_start)
  note c3 = example_check[OF example_ctx_simps(1) _ w3_def]
  have s3: "w_scopes w3 0 = snd (bumpCall (key_for ''POST /checkout'' ?op) ((new_scope ''POST /checkout'')\<lparr>sc_openTxs := 1\<rparr>))"
    using c3 by (simp add: w2_def new_scope_def)
  let ?req = "\<lparr>rq_ctx = example_ctx, rq_Method = ''GET'', rq_URL_Host = h # host, rq_Host = h # host, rq_rest = AnyPtr 0\<rparr>"
  have trip: "RoundTrip ?d ?rt ?req net w2 = (transport ?req net, w3)"
    by (simp add: RoundTrip_def Let_def checkNeeded_def w2_def w3_def WrapRoundTripper_def defaultRequestName_def)
  have body: "snd (checkout ?d ?rt (h # host) example_ctx net w1) = add_openTxs 0 (- 1) w3"
    by (cases "transport ?req net"; cases "snd (fst (transport ?req net))")
      (auto simp: checkout_def start trip open_db_ends Let_def split: prod.splits option.splits)
  have main: "snd (nethttp_main transport (h # host) net (initial_world clock callers))
      = finishScope ?d 0 (add_openTxs 0 (- 1) w3)"
    by (simp add: nethttp_main_def scopeMiddleware_def start case_prod_unfold body Let_def)
  have "\<not> sc_finished (w_scopes w3 0)" "call_shortfalls (w_marks w3) (w_scopes w3 0) = []"
    by (simp_all add: s3 new_scope_def) (simp add: call_shortfalls_def bumpCall_def Let_def map_put_def sortKeys_def)
  note fin = silent_finish[OF this]
  show ?thesis
    using c3 s3 fin main by (simp add: w2_def new_scope_def calls_of_def case_prod_unfold Let_def)
qed

end
