(* ===== verification/Spec2Isabelle.thy ===== *)
theory Spec2Isabelle
  imports Classify Allowlist BaselineFile Benchgate Render SharedThrottle Middleware Examples
begin

text \<open>
  A verification development for go-txnpure, a Go library that reports side effects (an HTTP
  request, a job enqueue, a mail) executed while a database transaction is open.

  \<^bold>\<open>The program and its parts.\<close> A detector (detector.go) installs a scope, a mutable holder
  with a counter of open transactions, on a context. Wrapped connections (driver.go, over the
  state machine of session.go) read the scope from the context of a begin and move its counter;
  checkpoints (check.go, and the adapters roundtripper.go and grpc/interceptor.go) read the
  counter from their own context and report a violation when it is positive. Three allow tiers
  decide first: the option of the call (check.go), a lexical region on the context (allow.go),
  the central allowlist (allowlist.go). Reports go to reporters (reporter.go), possibly through
  a baseline of tolerated identities (baseline.go) and a throttle (throttle.go). Statement text
  is classified by a hand-written scanner (classify.go).

  \<^bold>\<open>Theories, in the order they build on each other.\<close>
  \<^item> \<open>Prelude\<close>: Go strings and maps in HOL, sorted key collections, the string routines.
  \<^item> \<open>Identity\<close>: \<^verbatim>\<open>Op\<close>, \<^verbatim>\<open>ViolationKey\<close> and its order (an instance of \<open>linorder\<close>).
  \<^item> \<open>Classify\<close> (classify.go): \<open>DefaultClassifier\<close> and \<open>writeTarget\<close> with their scanners;
    a reference classifier over tokens that the byte-level one is shown equal to, its normal
    form, its invariance under case and leading blanks, and what a write target is read as.
  \<^item> \<open>Stack\<close> (stack.go), \<open>Reports\<close> (attrs.go and the signal types of reporter.go).
  \<^item> \<open>Scope\<close> (detector.go, allow.go): the scope object and its exact-call accounting; which
    declarations a finishing scope missed.
  \<^item> \<open>Ledger\<close>: the contract shared by the allowlist and the baseline, a collection of entries
    that suppress and remember having suppressed, as a locale; \<open>Allowlist\<close> (allowlist.go) and
    \<open>Baseline\<close> (baseline.go) interpret it.
  \<^item> \<open>Throttle\<close> (throttle.go): the windows, and a specification of one window on its own.
  \<^item> \<open>Reporters\<close> (reporter.go and the reporter methods of baseline.go and throttle.go):
    reporters over an explicit store; the contract of a wrapper is a locale that the baseline
    and the throttle interpret.
  \<^item> \<open>Detector\<close> (detector.go, allow.go): contexts, options, the world, scopes and regions.
  \<^item> \<open>Checks\<close> (check.go): checkpoints, the tiers, statement checkers.
  \<^item> \<open>Connections\<close>: the contract of a connection with the counters, as a locale, and its
    consequence for any number of connections; \<open>Session\<close> (session.go) and \<open>Driver\<close>
    (driver.go) interpret it and give the step relations of a whole program. \<open>sql_exec\<close>,
    \<open>sql_query\<close> and \<open>sql_retry\<close> in \<open>Driver\<close> are how database/sql gets a statement executed.
  \<^item> \<open>Concurrent\<close> (check.go, session.go, detector.go, allow.go): checkpoints, a session's
    verdicts on writes and ends of scopes cut into their atomic accesses, goroutines and
    schedules; a locale balances what a schedule writes in shared books with what the goroutines hold, a second one, a sublocale of it, is the case of
    an account that only grows, interpreted for the call indices, the latch of a scope and the
    violations; \<open>RacingRegions\<close> interprets it for the counter of an allow region and what it
    declines, \<open>SharedThrottle\<close> (throttle.go) interprets the first one for a throttle that
    racing goroutines share.
  \<^item> \<open>Wellformed\<close>: what every sequence of calls of the exported operations keeps of the
    contexts, connections, books, regions and maps, whatever a program does.
  \<^item> \<open>Machine\<close>: the abstract specification of a detector, a machine that signals what every
    action of a program shows, from a history instead of shared counters; \<open>Purity\<close>: the
    simulation that shows the detector to report exactly those signals. What a reporter must do for this is a
    locale, interpreted for the collector and for a user's reporter; \<open>Middleware\<close> (driver.go,
    roundtripper.go, grpc/interceptor.go): the same for programs over wrapped drivers and
    clients, whose trace is computed from what the databases answer.
  \<^item> \<open>Utf8\<close>: runes, as every formatter of the standard library reads them; \<open>Json\<close>: the
    printer and the parser of encoding/json; \<open>BaselineFile\<close> (baseline.go): the file a
    baseline is saved to and loaded from.
  \<^item> \<open>Float64\<close>: double precision numbers with a proof that rounding is monotone; \<open>Strconv\<close>:
    reading and printing them, words and lines; \<open>Benchgate\<close> (internal/benchgate/main.go):
    the command that compares two benchmark runs.
  \<^item> \<open>Render\<close> (reporter.go): the text of a violation and the test helpers.
  \<^item> \<open>Adapters\<close> (roundtripper.go, grpc/interceptor.go, nulldb.go) and \<open>Examples\<close>
    (examples/): programs over all of the above.

  \<^bold>\<open>How state and operations correspond.\<close> A Go struct is a record with the fields' names
  behind a two-letter prefix, and an operation keeps its Go name where HOL allows it
  (\<open>finishScope\<close>, \<open>decideAndReport\<close>, \<open>observeKind\<close>), or carries its receiver's
  (\<open>conn_ExecContext\<close>, \<open>stmt_Query\<close>, \<open>tx_Commit\<close>). A pointer is a number that
  addresses an object of the world: scopes, regions, allowlists, and the reporters' objects in
  the store. Every operation takes the world and returns it. An optional Go interface is an
  option-valued method; an error is a value; an HTTP status is its number. A Go \<^verbatim>\<open>int\<close> that
  counts events or connections is an HOL \<open>int\<close>: it would overflow only after 2 to the 63rd of them. The
  saturating subtraction of two times is written out. All loops are structural or terminate by
  the length of the text. Only the JSON parser carries fuel, twice the length of its input
  and two more, and \<open>parse_terminates\<close> shows that it never runs out; its nesting limit of
  10000 is the one of encoding/json. A \<^verbatim>\<open>float64\<close> is a rational rounded to 53 bits, an
  infinity or not a number, with a single zero.

  \<^bold>\<open>What is shown.\<close> Over any sequence of statements, transactions, scopes, regions and
  checkpoints the reports are, in order, the signals of an abstract machine that keeps no
  counter of transactions and no book of calls: no violation is reported that was not done
  inside a transaction, and without allowances everything that was is reported. A program over
  wrapped drivers and clients reports what that machine signals on the trace of what the
  databases let happen. The counter of a scope is exactly the number of connections whose
  transaction is attributed to it, in every reachable state of any number of sessions or
  wrapped connections, for drivers that answer in any way; so it never goes negative and
  drains when the connections are torn down, and of a driver-level transaction nothing is left
  on it, whatever the program did before its commit or rollback. A checkpoint's verdict, its effects on every
  book, and the contents of its report are characterised for every branch; exact-call
  declarations are followed through a scope's life to the finish; a statement is observed
  at most once, and once when it succeeds, whichever path database/sql takes and on however
  many bad connections it tried first. Under any interleaving of goroutines the indices of
  the calls are handed out once each, racing calls of a pinned checkpoint are judged as if
  they ran one after another, a counted region lets the same number of calls through in every
  race, a shared throttle loses no report and, within one interval, forwards one per
  window, one goroutine reports the end of a scope, and a checkpoint
  returns after a bounded number of its own accesses. Whatever exported operations a program
  calls, no reference dangles and every book and map stays well formed. The wrappers forward a subsequence of what they
  receive, the baseline exactly the part that is not tolerated, the throttle exactly what its
  windows admit, at least an interval apart. The two examples of the repository print what
  their comments say. A saved baseline loads back with the same entries, all unused, so the
  adoption flow through the file tolerates exactly what was captured; loading always decides.
  The benchmark gate fails exactly when a benchmark of both runs regressed, whatever the order
  of the samples, and more tolerant limits never make it fail more. The test helpers report
  every collected report once.

  Some theorems record behaviour that a reader of the documentation would not expect: a
  comment that starts with slash, star, slash is executed by the classifier; a \<^verbatim>\<open>WITH\<close> query
  calling \<^verbatim>\<open>replace\<close> counts as a write; a quoted schema hides the table; names with NUL bytes
  share a throttle window; a connection closed inside a transaction leaves its
  counter up for good, and a textual begin that the database refused moves it up too; counts below one are
  never reported as stale; a saved baseline loses the identities whose names are not UTF-8;
  the benchmark gate merges benchmarks whose names differ in a trailing number.

  \<^bold>\<open>What is not modelled, and why.\<close> Interleaving beyond checkpoints, verdicts on writes and
  ends of scopes: the rest of a session's operations is there as its changes of a counter (a
  session belongs to one goroutine), statement checkers run in one go, and memory is
  sequentially consistent, as Go's atomics are. A wrapper's decision under its mutex and its
  forwarding are two steps. The wrapped driver, transports, RPC invokers, the runtime's stack
  and clock, and the reporters, classifiers, checkers and extractors a user supplies are
  parameters, and so are the file system behind a baseline file and the benchmark outputs, the
  parsing of command-line flags, and the Unicode table of printable runes above U+00FF. The
  pool of database/sql, the HTTP server of an example and the slog handlers are outside; the
  package documentation, the version string and the tests hold no logic of the library.
\<close>

end
